(* ===== verification/Prelude.thy ===== *)
theory Prelude
  imports Complex_Main "HOL-Library.Multiset" "HOL-Library.Word" "HOL-Library.Sublist"
begin

text \<open>
  Shared vocabulary of the development: how Go's run-time panics, error values, slices, byte
  streams and machine integers are represented, the sequencing operator that stops at the first
  panic, and the generic facts on lists and on strict weak orders that the component theories use.
\<close>

section \<open>Go values of the model\<close>

type_synonym byte = "8 word"
type_synonym bytes = "byte list"
type_synonym int64 = "64 word"
type_synonym int32 = "32 word"

text \<open>
  A panic ends the goroutine (and with it the process): index out of range, a failed type
  assertion, \<^verbatim>\<open>make\<close> with a negative length, integer division by zero, and an explicit
  \<^verbatim>\<open>log.Panic\<close> or \<^verbatim>\<open>log.Fatal\<close>.
\<close>

datatype panic = PanicIndex | PanicTypeAssert | PanicMakeSlice | PanicDivide | PanicNil | PanicFatal

text \<open>Go's \<^verbatim>\<open>error\<close> values: the sentinels the code compares with, and \<^verbatim>\<open>fmt.Errorf\<close> wrapping.\<close>

datatype gerror =
    EOF
  | ErrUnexpectedEOF
  | ErrShortWrite
  | ErrClosedPipe
  | ErrDecode
  | ErrEncode
  | Errorf string "gerror option"

text \<open>A computation that may panic; the result is on the right.\<close>

type_synonym 'a go = "panic + 'a"

definition gbind :: "'a go \<Rightarrow> ('a \<Rightarrow> 'b go) \<Rightarrow> 'b go" where
  "gbind m f = (case m of Inl p \<Rightarrow> Inl p | Inr x \<Rightarrow> f x)"

named_theorems go_simps

lemma gbind_Inl [simp, go_simps]: "gbind (Inl p) f = Inl p"
  by (simp add: gbind_def)

lemma gbind_Inr [simp, go_simps]: "gbind (Inr x) f = f x"
  by (simp add: gbind_def)

lemma gbind_eq_Inr: "gbind m f = Inr y \<longleftrightarrow> (\<exists>x. m = Inr x \<and> f x = Inr y)"
  by (cases m) auto

lemma gbind_eq_Inl: "gbind m f = Inl p \<longleftrightarrow> m = Inl p \<or> (\<exists>x. m = Inr x \<and> f x = Inl p)"
  by (cases m) auto

lemma gbind_assoc: "gbind (gbind m f) g = gbind m (\<lambda>x. gbind (f x) g)"
  by (cases m) auto

lemma gbind_return [simp]: "gbind m Inr = m"
  by (cases m) auto

lemma gbind_cong [fundef_cong]:
  "m = m' \<Longrightarrow> (\<And>x. m' = Inr x \<Longrightarrow> f x = f' x) \<Longrightarrow> gbind m f = gbind m' f'"
  by (cases m') auto

text \<open>Indexing a slice: out of range panics, on either side.\<close>

definition go_index :: "'a list \<Rightarrow> int \<Rightarrow> 'a go" where
  "go_index xs i = (if 0 \<le> i \<and> i < int (length xs) then Inr (xs ! nat i) else Inl PanicIndex)"

lemma go_index_nat [simp]: "i < length xs \<Longrightarrow> go_index xs (int i) = Inr (xs ! i)"
  by (simp add: go_index_def)

lemma go_index_eq_Inr:
  "go_index xs i = Inr x \<longleftrightarrow> 0 \<le> i \<and> nat i < length xs \<and> x = xs ! nat i"
  by (auto simp: go_index_def nat_less_iff)

text \<open>Loops over a slice whose body may panic.\<close>

fun gmap :: "('a \<Rightarrow> 'b go) \<Rightarrow> 'a list \<Rightarrow> 'b list go" where
  "gmap f [] = Inr []"
| "gmap f (x # xs) = gbind (f x) (\<lambda>y. gbind (gmap f xs) (\<lambda>ys. Inr (y # ys)))"

fun gfold :: "('s \<Rightarrow> 'a \<Rightarrow> 's go) \<Rightarrow> 's \<Rightarrow> 'a list \<Rightarrow> 's go" where
  "gfold f s [] = Inr s"
| "gfold f s (x # xs) = gbind (f s x) (\<lambda>s'. gfold f s' xs)"

lemma gmap_Inr: "(\<And>x. x \<in> set xs \<Longrightarrow> f x = Inr (g x)) \<Longrightarrow> gmap f xs = Inr (map g xs)"
  by (induction xs) auto

lemma gmap_eq_Inr_length: "gmap f xs = Inr ys \<Longrightarrow> length ys = length xs"
  by (induction xs arbitrary: ys) (auto simp: gbind_eq_Inr)

lemma gmap_eq_Inr_iff: "gmap f xs = Inr ys \<longleftrightarrow> list_all2 (\<lambda>x y. f x = Inr y) xs ys"
  by (induction xs arbitrary: ys) (auto simp: gbind_eq_Inr list_all2_Cons1)

lemma gmap_panics: "x \<in> set xs \<Longrightarrow> f x = Inl p \<Longrightarrow> \<exists>q. gmap f xs = Inl q"
proof (induction xs)
  case (Cons y ys)
  then show ?case by (cases "f y"; cases "gmap f ys") auto
qed simp

lemma gfold_append: "gfold f s (xs @ ys) = gbind (gfold f s xs) (\<lambda>s'. gfold f s' ys)"
  by (induction xs arbitrary: s) (auto simp: gbind_assoc)

lemma gfold_Inr:
  "(\<And>s x. x \<in> set xs \<Longrightarrow> f s x = Inr (g s x)) \<Longrightarrow> gfold f s xs = Inr (foldl g s xs)"
  by (induction xs arbitrary: s) auto

section \<open>Strict weak orders\<close>

text \<open>
  What \<^verbatim>\<open>sort.Slice\<close> and \<^verbatim>\<open>container/heap\<close> ask of a \<^verbatim>\<open>less\<close> function, on the elements they are
  given: asymmetry, and transitivity of the negated relation read backwards ("not after").
\<close>

definition swo_on :: "'a set \<Rightarrow> ('a \<Rightarrow> 'a \<Rightarrow> bool) \<Rightarrow> bool" where
  "swo_on S lt \<longleftrightarrow>
     (\<forall>x\<in>S. \<forall>y\<in>S. lt x y \<longrightarrow> \<not> lt y x) \<and>
     (\<forall>x\<in>S. \<forall>y\<in>S. \<forall>z\<in>S. \<not> lt y x \<longrightarrow> \<not> lt z y \<longrightarrow> \<not> lt z x)"

abbreviation (input) not_after :: "('a \<Rightarrow> 'a \<Rightarrow> bool) \<Rightarrow> 'a \<Rightarrow> 'a \<Rightarrow> bool" where
  "not_after lt x y \<equiv> \<not> lt y x"

lemma swo_on_asym: "swo_on S lt \<Longrightarrow> x \<in> S \<Longrightarrow> y \<in> S \<Longrightarrow> lt x y \<Longrightarrow> \<not> lt y x"
  unfolding swo_on_def by blast

lemma swo_on_irrefl: "swo_on S lt \<Longrightarrow> x \<in> S \<Longrightarrow> \<not> lt x x"
  using swo_on_asym [of S lt x x] by blast

lemma swo_on_trans:
  "swo_on S lt \<Longrightarrow> x \<in> S \<Longrightarrow> y \<in> S \<Longrightarrow> z \<in> S \<Longrightarrow> \<not> lt y x \<Longrightarrow> \<not> lt z y \<Longrightarrow> \<not> lt z x"
  unfolding swo_on_def by blast

lemma swo_on_subset: "swo_on S lt \<Longrightarrow> S' \<subseteq> S \<Longrightarrow> swo_on S' lt"
  unfolding swo_on_def by blast

lemma swo_onI:
  assumes "\<And>x y. x \<in> S \<Longrightarrow> y \<in> S \<Longrightarrow> lt x y \<Longrightarrow> \<not> lt y x"
    and "\<And>x y z. x \<in> S \<Longrightarrow> y \<in> S \<Longrightarrow> z \<in> S \<Longrightarrow> \<not> lt y x \<Longrightarrow> \<not> lt z y \<Longrightarrow> \<not> lt z x"
  shows "swo_on S lt"
  unfolding swo_on_def by (intro conjI ballI impI; (erule assms | rule assms); assumption?)

lemma swo_on_image:
  assumes "swo_on (f ` S) lt"
  shows "swo_on S (\<lambda>x y. lt (f x) (f y))"
proof (rule swo_onI)
  fix x y assume "x \<in> S" "y \<in> S" "lt (f x) (f y)"
  then show "\<not> lt (f y) (f x)" using swo_on_asym [OF assms, of "f x" "f y"] by simp
next
  fix x y z assume "x \<in> S" "y \<in> S" "z \<in> S" "\<not> lt (f y) (f x)" "\<not> lt (f z) (f y)"
  then show "\<not> lt (f z) (f x)" using swo_on_trans [OF assms, of "f x" "f y" "f z"] by simp
qed

lemma swo_on_converse:
  assumes "swo_on S lt"
  shows "swo_on S (\<lambda>x y. lt y x)"
proof (rule swo_onI)
  fix x y assume "x \<in> S" "y \<in> S" "lt y x"
  then show "\<not> lt x y" using swo_on_asym [OF assms, of y x] by simp
next
  fix x y z assume "x \<in> S" "y \<in> S" "z \<in> S" "\<not> lt x y" "\<not> lt y z"
  then show "\<not> lt x z" using swo_on_trans [OF assms, of z y x] by simp
qed

lemma swo_on_cong:
  assumes "\<And>x y. x \<in> S \<Longrightarrow> y \<in> S \<Longrightarrow> lt x y = lt' x y"
  shows "swo_on S lt = swo_on S lt'"
  using assms unfolding swo_on_def by (auto cong: ball_cong)

text \<open>The lexicographic combination of two strict weak orders is one.\<close>

definition lex2 :: "('a \<Rightarrow> 'a \<Rightarrow> bool) \<Rightarrow> ('a \<Rightarrow> 'a \<Rightarrow> bool) \<Rightarrow> 'a \<Rightarrow> 'a \<Rightarrow> bool" where
  "lex2 lt1 lt2 x y \<longleftrightarrow> lt1 x y \<or> (\<not> lt1 y x \<and> lt2 x y)"

lemma swo_on_lex2:
  assumes "swo_on S lt1" "swo_on S lt2"
  shows "swo_on S (lex2 lt1 lt2)"
proof -
  note t1 = swo_on_trans [OF assms(1)] and t2 = swo_on_trans [OF assms(2)]
    and a1 = swo_on_asym [OF assms(1)] and a2 = swo_on_asym [OF assms(2)]
  have asym: "\<not> lex2 lt1 lt2 y x" if "x \<in> S" "y \<in> S" "lex2 lt1 lt2 x y" for x y
    using that a1 a2 unfolding lex2_def by blast
  have trans: "\<not> lex2 lt1 lt2 z x"
    if s: "x \<in> S" "y \<in> S" "z \<in> S" and "\<not> lex2 lt1 lt2 y x" "\<not> lex2 lt1 lt2 z y" for x y z
  proof -
    from that have yx: "\<not> lt1 y x" "lt1 x y \<or> \<not> lt2 y x" and zy: "\<not> lt1 z y" "lt1 y z \<or> \<not> lt2 z y"
      unfolding lex2_def by auto
    have zx: "\<not> lt1 z x" using t1 [of x y z] s yx zy by blast
    show ?thesis
    proof (cases "lt1 x z")
      case True
      then show ?thesis using zx unfolding lex2_def by blast
    next
      case False
      have "\<not> lt1 x y" using t1 [of y z x] s zy False by blast
      moreover have "\<not> lt1 y z" using t1 [of z x y] s yx False by blast
      ultimately have "\<not> lt2 y x" "\<not> lt2 z y" using yx zy by auto
      then have "\<not> lt2 z x" using t2 [of x y z] s by blast
      then show ?thesis using zx unfolding lex2_def by blast
    qed
  qed
  show ?thesis by (rule swo_onI) (fact asym, fact trans)
qed

lemma swo_on_False [simp]: "swo_on S (\<lambda>x y. False)"
  by (rule swo_onI) auto

lemma swo_on_linorder: "swo_on S (\<lambda>x y. (f x :: 'b :: linorder) < f y)"
  by (rule swo_onI) auto

section \<open>Lists\<close>

lemma mset_eq_set: "mset xs = mset ys \<Longrightarrow> set xs = set ys"
  by (metis set_mset_mset)

lemma sorted_wrt_snoc:
  "sorted_wrt P (xs @ [x]) \<longleftrightarrow> sorted_wrt P xs \<and> (\<forall>y\<in>set xs. P y x)"
  by (auto simp: sorted_wrt_append)

text \<open>Decimal numbers, as \<^verbatim>\<open>strconv.Itoa\<close> and the verb \<^verbatim>\<open>%d\<close> print them.\<close>

fun decimal :: "nat \<Rightarrow> nat list" where
  "decimal n = (if n < 10 then [48 + n] else decimal (n div 10) @ [48 + n mod 10])"

declare decimal.simps [simp del]

definition Itoa :: "int \<Rightarrow> string" where
  "Itoa n = (if n < 0 then ''-'' else []) @ map char_of (decimal (nat \<bar>n\<bar>))"

section \<open>Arithmetic on \<^verbatim>\<open>int64\<close>\<close>

text \<open>Go's division of integers truncates towards zero, and the remainder has the sign of the dividend.\<close>

definition tquot :: "int \<Rightarrow> int \<Rightarrow> int" where
  "tquot x y = sgn x * sgn y * (\<bar>x\<bar> div \<bar>y\<bar>)"

definition trem :: "int \<Rightarrow> int \<Rightarrow> int" where
  "trem x y = x - y * tquot x y"

lemma tquot_nonneg: "0 \<le> x \<Longrightarrow> 0 < y \<Longrightarrow> tquot x y = x div y"
  by (cases "x = 0") (simp_all add: tquot_def)

lemma trem_nonneg: "0 \<le> x \<Longrightarrow> 0 < y \<Longrightarrow> trem x y = x mod y"
  by (simp add: trem_def tquot_nonneg minus_mult_div_eq_mod)

lemma sint_range: "- (2 ^ 63) \<le> sint (a :: int64)" "sint (a :: int64) < 2 ^ 63"
  using sint_greater_eq [of a] sint_less [of a] by simp_all

lemma sint_eq_range: "- (2 ^ 63) \<le> z \<Longrightarrow> z < 2 ^ 63 \<Longrightarrow> sint (word_of_int z :: int64) = z"
  by (simp add: signed_of_int signed_take_bit_int_eq_self)

lemma word_of_sint: "a + b = (word_of_int (sint a + sint b) :: int64)" "a - b = (word_of_int (sint a - sint b) :: int64)"
  "- a = (word_of_int (- sint a) :: int64)" "a * b = (word_of_int (sint a * sint b) :: int64)"
  by (simp_all add: scast_id)

lemma sint_minus_range:
  "- (2 ^ 63) \<le> sint (a :: int64) - sint b \<Longrightarrow> sint a - sint b < 2 ^ 63 \<Longrightarrow> sint (a - b) = sint a - sint b"
  by (subst word_of_sint, rule sint_eq_range)

end
