(* ===== verification/Values.thy ===== *)
theory Values
  imports Prelude
begin

text \<open>
  The dynamically typed values that flow through a Gleam pipeline (Go's \<^verbatim>\<open>interface{}\<close>), their
  conversions (\<^verbatim>\<open>util/type_convertion.go\<close>), the comparison and the hashing of keys
  (\<^verbatim>\<open>util/key.go\<close>). The xxhash library is the parameter \<^term>\<open>Hash :: bytes \<Rightarrow> 32 word\<close>.
\<close>

unbundle bit_operations_syntax

section \<open>Dynamic values\<close>

text \<open>
  Floating point numbers: not-a-number, the infinities, and the finite values as rationals (the
  code only compares and converts them). Converting an \<^verbatim>\<open>int64\<close> to \<^verbatim>\<open>float64\<close> rounds to 53
  significant bits, ties to even, as IEEE 754 prescribes.
\<close>

datatype gfloat = FNaN | FInf bool | FFin rat

fun flt :: "gfloat \<Rightarrow> gfloat \<Rightarrow> bool" where
  "flt FNaN b = False"
| "flt a FNaN = False"
| "flt (FInf s) (FInf t) = (\<not> s \<and> t)"
| "flt (FInf s) (FFin y) = (\<not> s)"
| "flt (FFin x) (FInf t) = t"
| "flt (FFin x) (FFin y) = (x < y)"

text \<open>\<open>round_shift k n\<close> divides by \<open>2 ^ k\<close>, rounding to the nearest integer and ties to even.\<close>

definition round_shift :: "nat \<Rightarrow> int \<Rightarrow> int" where
  "round_shift k n =
     (let q = n div 2 ^ k; r = n mod 2 ^ k in
      if 2 * r < 2 ^ k \<or> (2 * r = 2 ^ k \<and> even q) then q else q + 1)"

fun float_round :: "nat \<Rightarrow> int \<Rightarrow> int" where
  "float_round 0 n = n"
| "float_round (Suc k) n =
     (if \<bar>n\<bar> < 2 ^ (53 + k) then float_round k n else round_shift (Suc k) n * 2 ^ Suc k)"

definition float64_of_int64 :: "int64 \<Rightarrow> gfloat" where
  "float64_of_int64 w = FFin (of_int (float_round 11 (sint w)))"

datatype gval =
    VNil
  | VBool bool
  | VString bytes
  | VBytes bytes
  | VInt "64 word"
  | VInt8 "8 word"
  | VInt16 "16 word"
  | VInt32 "32 word"
  | VInt64 "64 word"
  | VUint "64 word"
  | VUint8 "8 word"
  | VUint16 "16 word"
  | VUint32 "32 word"
  | VUint64 "64 word"
  | VFloat32 gfloat
  | VFloat64 gfloat
  | VSlice "gval list"

section \<open>Conversions: util/type\_convertion.go\<close>

definition ToInt64 :: "gval \<Rightarrow> int64" where
  "ToInt64 val = (case val of
       VInt64 v \<Rightarrow> v
     | VUint64 v \<Rightarrow> v
     | VUint32 v \<Rightarrow> ucast v
     | VInt32 v \<Rightarrow> scast v
     | VInt v \<Rightarrow> v
     | VUint v \<Rightarrow> v
     | VInt16 v \<Rightarrow> scast v
     | VUint16 v \<Rightarrow> ucast v
     | VUint8 v \<Rightarrow> ucast v
     | VInt8 v \<Rightarrow> scast v
     | _ \<Rightarrow> 0)"

definition ToFloat64 :: "gval \<Rightarrow> gfloat" where
  "ToFloat64 val = (case val of
       VFloat64 v \<Rightarrow> v
     | VFloat32 v \<Rightarrow> v
     | _ \<Rightarrow> float64_of_int64 (ToInt64 val))"

definition ToString :: "gval \<Rightarrow> bytes" where
  "ToString val = (case val of VString v \<Rightarrow> v | VBytes v \<Rightarrow> v | _ \<Rightarrow> [])"

definition ToBytes :: "gval \<Rightarrow> bytes" where
  "ToBytes val = (case val of VString v \<Rightarrow> v | VBytes v \<Rightarrow> v | _ \<Rightarrow> [])"

section \<open>Comparison: util/key.go\<close>

definition isFloat :: "gval \<Rightarrow> bool" where
  "isFloat a = (case a of VFloat64 _ \<Rightarrow> True | VFloat32 _ \<Rightarrow> True | _ \<Rightarrow> False)"

text \<open>Go's \<^verbatim>\<open>strings.Compare\<close> and \<^verbatim>\<open>bytes.Compare\<close>: bytewise lexicographic, -1, 0 or 1.\<close>

fun bytes_compare :: "bytes \<Rightarrow> bytes \<Rightarrow> int" where
  "bytes_compare [] [] = 0"
| "bytes_compare [] (y # ys) = -1"
| "bytes_compare (x # xs) [] = 1"
| "bytes_compare (x # xs) (y # ys) =
     (if x < y then -1 else if y < x then 1 else bytes_compare xs ys)"

text \<open>
  The comparison of two slices runs over the first one and indexes the second, so it panics when
  the second is shorter and all common fields agree; a slice against anything else fails the type
  assertion. The integer branch is a 64-bit subtraction, read as a signed number.
\<close>

definition compare_default :: "gval \<Rightarrow> gval \<Rightarrow> int" where
  "compare_default a b =
     (if \<not> isFloat a \<and> \<not> isFloat b then sint (ToInt64 a - ToInt64 b)
      else if flt (ToFloat64 a) (ToFloat64 b) then -1
      else if flt (ToFloat64 b) (ToFloat64 a) then 1
      else 0)"

fun Compare :: "gval \<Rightarrow> gval \<Rightarrow> int go"
  and Compare_loop :: "gval list \<Rightarrow> gval list \<Rightarrow> int go" where
  "Compare a b = (case a of
       VSlice x \<Rightarrow> (case b of VSlice y \<Rightarrow> Compare_loop x y | _ \<Rightarrow> Inl PanicTypeAssert)
     | VString x \<Rightarrow> (case b of VString y \<Rightarrow> Inr (bytes_compare x y)
                             | VBytes y \<Rightarrow> Inr (bytes_compare x y) | _ \<Rightarrow> Inr 0)
     | VBytes x \<Rightarrow> (case b of VBytes y \<Rightarrow> Inr (bytes_compare x y)
                            | VString y \<Rightarrow> Inr (bytes_compare x y) | _ \<Rightarrow> Inr 0)
     | _ \<Rightarrow> Inr (compare_default a b))"
| "Compare_loop [] ys = Inr 0"
| "Compare_loop (x # xs) ys = (case ys of
       [] \<Rightarrow> Inl PanicIndex
     | y # ys' \<Rightarrow> gbind (Compare x y) (\<lambda>ret. if ret \<noteq> 0 then Inr ret else Compare_loop xs ys'))"

declare Compare.simps [simp del] Compare_loop.simps [simp del]

definition LessThan :: "gval \<Rightarrow> gval \<Rightarrow> bool go" where
  "LessThan a b = gbind (Compare a b) (\<lambda>r. Inr (r < 0))"

section \<open>Hashing and partitioning: util/key.go\<close>

definition hashByKey :: "(bytes \<Rightarrow> 32 word) \<Rightarrow> gval \<Rightarrow> int64" where
  "hashByKey Hash data = (case data of
       VString key \<Rightarrow> ucast (Hash key)
     | VBytes key \<Rightarrow> ucast (Hash key)
     | VUint64 key \<Rightarrow> key
     | VUint32 key \<Rightarrow> ucast key
     | VUint8 key \<Rightarrow> ucast key
     | VInt key \<Rightarrow> key
     | VInt8 key \<Rightarrow> scast key
     | VInt32 key \<Rightarrow> scast key
     | VInt64 key \<Rightarrow> key
     | _ \<Rightarrow> 0)"

definition HashByKeys :: "(bytes \<Rightarrow> 32 word) \<Rightarrow> gval list \<Rightarrow> int64" where
  "HashByKeys Hash data = foldl (\<lambda>x d. x * 31 + hashByKey Hash d) 0 data AND 0x7FFFFFFFFFFFFFFF"

text \<open>Go's \<^verbatim>\<open>%\<close> truncates towards zero; a zero divisor panics.\<close>

definition go_mod :: "int \<Rightarrow> int \<Rightarrow> int go" where
  "go_mod a b = (if b = 0 then Inl PanicDivide else Inr (sgn a * (\<bar>a\<bar> mod \<bar>b\<bar>)))"

definition PartitionByKeys :: "(bytes \<Rightarrow> 32 word) \<Rightarrow> int \<Rightarrow> gval list \<Rightarrow> int go" where
  "PartitionByKeys Hash shardCount data = go_mod (sint (HashByKeys Hash data)) shardCount"

section \<open>The order of keys\<close>

lemma bytes_compare_range: "bytes_compare xs ys \<in> {-1, 0, 1}"
  by (induction xs ys rule: bytes_compare.induct) auto

lemma bytes_compare_swap: "bytes_compare ys xs = - bytes_compare xs ys"
  by (induction xs ys rule: bytes_compare.induct) auto

lemma bytes_compare_eq_0 [simp]: "bytes_compare xs ys = 0 \<longleftrightarrow> xs = ys"
  by (induction xs ys rule: bytes_compare.induct) auto

lemma bytes_compare_trans:
  "bytes_compare xs ys \<le> 0 \<Longrightarrow> bytes_compare ys zs \<le> 0 \<Longrightarrow> bytes_compare xs zs \<le> 0"
proof (induction xs ys arbitrary: zs rule: bytes_compare.induct)
  case (4 x xs y ys)
  then show ?case by (cases zs) (auto split: if_splits)
next
  case (1 zs) then show ?case by simp
next
  case (2 y ys zs) then show ?case by (cases zs) auto
next
  case (3 x xs zs) then show ?case by simp
qed

text \<open>
  Columns on which the code's comparison is an order: integers of any width whose 64-bit values
  stay within 62 bits (so that the subtraction cannot wrap), byte strings in either Go
  representation, and floats other than not-a-number.
\<close>

datatype kind = KInt | KBytes | KFloat

fun has_kind :: "kind \<Rightarrow> gval \<Rightarrow> bool" where
  "has_kind KInt v =
     ((case v of VInt _ \<Rightarrow> True | VInt8 _ \<Rightarrow> True | VInt16 _ \<Rightarrow> True | VInt32 _ \<Rightarrow> True
        | VInt64 _ \<Rightarrow> True | VUint _ \<Rightarrow> True | VUint8 _ \<Rightarrow> True | VUint16 _ \<Rightarrow> True
        | VUint32 _ \<Rightarrow> True | VUint64 _ \<Rightarrow> True | _ \<Rightarrow> False) \<and>
      - (2 ^ 62) \<le> sint (ToInt64 v) \<and> sint (ToInt64 v) < 2 ^ 62)"
| "has_kind KBytes v = (case v of VString _ \<Rightarrow> True | VBytes _ \<Rightarrow> True | _ \<Rightarrow> False)"
| "has_kind KFloat v = (case v of VFloat64 f \<Rightarrow> f \<noteq> FNaN | VFloat32 f \<Rightarrow> f \<noteq> FNaN | _ \<Rightarrow> False)"

fun vlt :: "kind \<Rightarrow> gval \<Rightarrow> gval \<Rightarrow> bool" where
  "vlt KInt a b = (sint (ToInt64 a) < sint (ToInt64 b))"
| "vlt KBytes a b = (bytes_compare (ToBytes a) (ToBytes b) < 0)"
| "vlt KFloat a b = flt (ToFloat64 a) (ToFloat64 b)"

lemma sint_diff_62:
  assumes "- (2 ^ 62) \<le> sint (a :: int64)" "sint a < 2 ^ 62" "- (2 ^ 62) \<le> sint b" "sint b < 2 ^ 62"
  shows "sint (a - b) = sint a - sint b"
proof -
  have "sint (a - b) = signed_take_bit 63 (sint a - sint b)"
    by (simp add: sint_word_ariths)
  also have "\<dots> = sint a - sint b"
    using assms by (intro signed_take_bit_int_eq_self) auto
  finally show ?thesis .
qed

lemma flt_asym: "flt a b \<Longrightarrow> \<not> flt b a"
  by (cases a; cases b) auto

lemma flt_trans: "a \<noteq> FNaN \<Longrightarrow> b \<noteq> FNaN \<Longrightarrow> c \<noteq> FNaN \<Longrightarrow> \<not> flt b a \<Longrightarrow> \<not> flt c b \<Longrightarrow> \<not> flt c a"
  by (cases a; cases b; cases c) auto

lemma has_kind_Float_ToFloat64: "has_kind KFloat v \<Longrightarrow> ToFloat64 v \<noteq> FNaN"
  by (cases v) (auto simp: ToFloat64_def)

lemma vlt_swo: "swo_on {v. has_kind k v} (vlt k)"
proof (cases k)
  case KInt
  have "swo_on {v. has_kind KInt v} (vlt KInt)" by (rule swo_onI) simp_all
  with KInt show ?thesis by simp
next
  case KBytes
  have "swo_on {v. has_kind KBytes v} (vlt KBytes)"
  proof (rule swo_onI)
    fix x y assume "vlt KBytes x y"
    then show "\<not> vlt KBytes y x" using bytes_compare_swap [of "ToBytes x" "ToBytes y"] by simp
  next
    fix x y z assume "\<not> vlt KBytes y x" "\<not> vlt KBytes z y"
    then show "\<not> vlt KBytes z x"
      using bytes_compare_trans [of "ToBytes x" "ToBytes y" "ToBytes z"]
        bytes_compare_swap [of "ToBytes x" "ToBytes y"] bytes_compare_swap [of "ToBytes y" "ToBytes z"]
        bytes_compare_swap [of "ToBytes x" "ToBytes z"]
      by simp
  qed
  with KBytes show ?thesis by simp
next
  case KFloat
  have "swo_on {v. has_kind KFloat v} (vlt KFloat)"
  proof (rule swo_onI)
    fix x y assume "vlt KFloat x y"
    then show "\<not> vlt KFloat y x" using flt_asym by simp
  next
    fix x y z
    assume "x \<in> {v. has_kind KFloat v}" "y \<in> {v. has_kind KFloat v}" "z \<in> {v. has_kind KFloat v}"
      "\<not> vlt KFloat y x" "\<not> vlt KFloat z y"
    then show "\<not> vlt KFloat z x"
      using flt_trans [of "ToFloat64 x" "ToFloat64 y" "ToFloat64 z"] has_kind_Float_ToFloat64
      by (simp del: has_kind.simps)
  qed
  with KFloat show ?thesis by simp
qed

text \<open>On such columns \<open>Compare\<close> never panics and its sign is the order.\<close>

lemma Compare_kind:
  assumes "has_kind k a" "has_kind k b"
  obtains r where "Compare a b = Inr r" "r < 0 \<longleftrightarrow> vlt k a b" "0 < r \<longleftrightarrow> vlt k b a"
proof (cases k)
  case KInt
  have "\<not> isFloat a" "\<not> isFloat b" "Compare a b = Inr (compare_default a b)"
    using assms KInt by (auto simp: isFloat_def Compare.simps split: gval.splits)
  moreover have "sint (ToInt64 a - ToInt64 b) = sint (ToInt64 a) - sint (ToInt64 b)"
    using assms KInt by (intro sint_diff_62) auto
  ultimately show thesis using that [of "compare_default a b"] KInt by (simp add: compare_default_def)
next
  case KBytes
  have "Compare a b = Inr (bytes_compare (ToBytes a) (ToBytes b))"
    using assms KBytes by (auto simp: Compare.simps ToBytes_def split: gval.splits)
  then show thesis
    using that bytes_compare_swap [of "ToBytes a" "ToBytes b"] KBytes by simp
next
  case KFloat
  have "isFloat a" "Compare a b = Inr (compare_default a b)"
    using assms KFloat by (auto simp: isFloat_def Compare.simps split: gval.splits)
  then show thesis using that [of "compare_default a b"] KFloat flt_asym
    by (auto simp: compare_default_def)
qed

section \<open>The order of key lists\<close>

abbreviation has_kinds :: "kind list \<Rightarrow> gval list \<Rightarrow> bool" where
  "has_kinds ks xs \<equiv> list_all2 has_kind ks xs"

fun klt :: "kind list \<Rightarrow> gval list \<Rightarrow> gval list \<Rightarrow> bool" where
  "klt (k # ks) (x # xs) (y # ys) = (vlt k x y \<or> (\<not> vlt k y x \<and> klt ks xs ys))"
| "klt ks xs ys = False"

lemma klt_swo: "swo_on {xs. has_kinds ks xs} (klt ks)"
proof (induction ks)
  case Nil
  have "klt [] = (\<lambda>x y. False)" by (intro ext) simp
  then show ?case by simp
next
  case (Cons k ks)
  let ?S = "{xs. has_kinds (k # ks) xs}"
  have eq: "klt (k # ks) xs ys =
      lex2 (\<lambda>xs ys. vlt k (hd xs) (hd ys)) (\<lambda>xs ys. klt ks (tl xs) (tl ys)) xs ys"
    if "xs \<in> ?S" "ys \<in> ?S" for xs ys
    using that by (auto simp: list_all2_Cons1 lex2_def)
  have "hd ` ?S \<subseteq> {v. has_kind k v}" "tl ` ?S \<subseteq> {xs. has_kinds ks xs}"
    by (auto simp: list_all2_Cons1)
  then have "swo_on ?S (lex2 (\<lambda>xs ys. vlt k (hd xs) (hd ys)) (\<lambda>xs ys. klt ks (tl xs) (tl ys)))"
    by (intro swo_on_lex2 swo_on_image [where f = hd] swo_on_image [where f = tl]
        swo_on_subset [OF vlt_swo] swo_on_subset [OF Cons.IH])
  then show ?case
    using swo_on_cong [of ?S "klt (k # ks)", OF eq] by simp
qed

lemma Compare_slices: "Compare (VSlice xs) (VSlice ys) = Compare_loop xs ys"
  by (simp add: Compare.simps)

lemma Compare_loop_Nil [simp]: "Compare_loop [] ys = Inr 0"
  by (simp add: Compare_loop.simps)

lemma Compare_loop_Cons [simp]:
  "Compare_loop (x # xs) (y # ys) =
     gbind (Compare x y) (\<lambda>ret. if ret \<noteq> 0 then Inr ret else Compare_loop xs ys)"
  by (simp add: Compare_loop.simps)

lemma Compare_kinds:
  assumes "has_kinds ks xs" "has_kinds ks ys"
  obtains r where "Compare (VSlice xs) (VSlice ys) = Inr r" "r < 0 \<longleftrightarrow> klt ks xs ys" "0 < r \<longleftrightarrow> klt ks ys xs"
proof -
  have "\<exists>r. Compare_loop xs ys = Inr r \<and> (r < 0 \<longleftrightarrow> klt ks xs ys) \<and> (0 < r \<longleftrightarrow> klt ks ys xs)"
    using assms
  proof (induction ks arbitrary: xs ys)
    case (Cons k ks)
    then obtain x xs' y ys' where [simp]: "xs = x # xs'" "ys = y # ys'"
      and k: "has_kind k x" "has_kind k y" and ks: "has_kinds ks xs'" "has_kinds ks ys'"
      by (auto simp: list_all2_Cons1)
    obtain r where r: "Compare x y = Inr r" "r < 0 \<longleftrightarrow> vlt k x y" "0 < r \<longleftrightarrow> vlt k y x"
      using Compare_kind [OF k] .
    have "\<not> (vlt k x y \<and> vlt k y x)" using r by auto
    then show ?case using Cons.IH [OF ks] r by (cases "r = 0") auto
  qed simp
  then show thesis using that by (auto simp: Compare_slices)
qed

text \<open>Equality of keys, as the join and grouping code tests it, on such key lists.\<close>

definition key_eq :: "gval list \<Rightarrow> gval list \<Rightarrow> bool" where
  "key_eq xs ys \<longleftrightarrow> Compare (VSlice xs) (VSlice ys) = Inr 0"

lemma key_eq_klt:
  assumes "has_kinds ks xs" "has_kinds ks ys"
  shows "key_eq xs ys \<longleftrightarrow> \<not> klt ks xs ys \<and> \<not> klt ks ys xs"
proof -
  obtain r where "Compare (VSlice xs) (VSlice ys) = Inr r" "r < 0 \<longleftrightarrow> klt ks xs ys" "0 < r \<longleftrightarrow> klt ks ys xs"
    using Compare_kinds [OF assms] .
  then show ?thesis unfolding key_eq_def by auto
qed

end
