(* ===== verification/Rows.thy ===== *)
theory Rows
  imports Values
begin

text \<open>
  Rows (\<^verbatim>\<open>util/row.go\<close>): key fields, value fields and a timestamp. A Go slice is a list; the code
  tells a nil slice from an empty one only for slices that it builds by appending to a nil
  slice, where the two coincide, so \<open>[]\<close> stands for nil.
\<close>

record row =
  row_K :: "gval list"
  row_V :: "gval list"
  row_T :: int64

definition AppendKey :: "gval list \<Rightarrow> row \<Rightarrow> row" where
  "AppendKey objects row = row\<lparr>row_K := row_K row @ objects\<rparr>"

definition AppendValue :: "gval list \<Rightarrow> row \<Rightarrow> row" where
  "AppendValue objects row = row\<lparr>row_V := row_V row @ objects\<rparr>"

definition NewRow :: "int64 \<Rightarrow> gval list \<Rightarrow> row" where
  "NewRow timestamp objects =
     (let r = \<lparr>row_K = [], row_V = [], row_T = timestamp\<rparr> in
      if length objects > 0 then AppendValue (tl objects) (AppendKey [hd objects] r) else r)"

text \<open>
  The field with a 1-based index, counted through the keys and then the values: the access
  \<^verbatim>\<open>row.K[x-1]\<close> or \<^verbatim>\<open>row.V[x-1-kLen]\<close> of \<open>UseKeys\<close>.
\<close>

definition field_at :: "row \<Rightarrow> int \<Rightarrow> gval go" where
  "field_at row x =
     (let kLen = int (length (row_K row)) in
      if x \<le> kLen then go_index (row_K row) (x - 1) else go_index (row_V row) (x - 1 - kLen))"

definition mark_used :: "bool list \<Rightarrow> int list \<Rightarrow> bool list" where
  "mark_used used indexes = foldl (\<lambda>u x. u[nat (x - 1) := True]) used indexes"

definition UseKeys :: "int list \<Rightarrow> row \<Rightarrow> row go" where
  "UseKeys indexes row =
     (if indexes = [] then Inr row
      else gbind (gmap (field_at row) indexes) (\<lambda>keys.
        let kLen = length (row_K row); vLen = length (row_V row);
            used = mark_used (replicate (kLen + vLen) False) indexes;
            values = map snd (filter (\<lambda>(i, k). \<not> used ! i) (enumerate 0 (row_K row))) @
                     map snd (filter (\<lambda>(i, v). \<not> used ! (i + kLen)) (enumerate 0 (row_V row)))
        in Inr (row\<lparr>row_K := keys, row_V := values\<rparr>)))"

section \<open>UseKeys moves the chosen fields to the front\<close>

definition row_fields :: "row \<Rightarrow> gval list" where
  "row_fields row = row_K row @ row_V row"

definition valid_index :: "row \<Rightarrow> int \<Rightarrow> bool" where
  "valid_index row x \<longleftrightarrow> 1 \<le> x \<and> x \<le> int (length (row_fields row))"

lemma field_at_valid [simp]:
  "valid_index row x \<Longrightarrow> field_at row x = Inr (row_fields row ! nat (x - 1))"
  by (auto simp: valid_index_def field_at_def go_index_def row_fields_def nth_append Let_def
      nat_diff_distrib' intro!: arg_cong [where f = "(!) (row_V row)"])

lemma field_at_invalid: "\<not> valid_index row x \<Longrightarrow> field_at row x = Inl PanicIndex"
  by (auto simp: valid_index_def field_at_def go_index_def row_fields_def Let_def)

lemma length_mark_used [simp]: "length (mark_used used ixs) = length used"
  unfolding mark_used_def by (induction ixs arbitrary: used) auto

lemma nth_mark_used:
  "i < length used \<Longrightarrow> mark_used used ixs ! i = (used ! i \<or> i \<in> (\<lambda>x. nat (x - 1)) ` set ixs)"
  unfolding mark_used_def
proof (induction ixs arbitrary: used)
  case (Cons x ixs)
  then show ?case by (cases "nat (x - 1) = i") (auto simp: Cons.IH)
qed simp

lemma filter_enumerate_nths:
  "map snd (filter (\<lambda>(i, x). P i) (enumerate n xs)) = nths xs {i. P (n + i)}"
proof (induction xs arbitrary: n)
  case (Cons x xs)
  have "{j. Suc j \<in> {i. P (n + i)}} = {i. P (Suc n + i)}" by simp
  then show ?case using Cons.IH [of "Suc n"] by (simp add: nths_Cons)
qed simp

text \<open>The fields that are not chosen stay, in their order.\<close>

lemma UseKeys_valid:
  assumes "ixs \<noteq> []" "\<forall>x\<in>set ixs. valid_index row x"
  shows "UseKeys ixs row =
    Inr (row\<lparr>row_K := map (\<lambda>x. row_fields row ! nat (x - 1)) ixs,
             row_V := nths (row_fields row) (- (\<lambda>x. nat (x - 1)) ` set ixs)\<rparr>)"
proof -
  let ?u = "mark_used (replicate (length (row_K row) + length (row_V row)) False) ixs"
  let ?U = "(\<lambda>x. nat (x - 1)) ` set ixs"
  have keys: "gmap (field_at row) ixs = Inr (map (\<lambda>x. row_fields row ! nat (x - 1)) ixs)"
    using assms(2) by (intro gmap_Inr) simp
  have u: "?u ! i = (i \<in> ?U)" if "i < length (row_K row) + length (row_V row)" for i
    using that by (simp add: nth_mark_used)
  have k: "filter (\<lambda>(i, k). \<not> ?u ! i) (enumerate 0 (row_K row)) =
      filter (\<lambda>(i, k). i \<notin> ?U) (enumerate 0 (row_K row))"
    using u by (intro filter_cong refl) (auto simp: in_set_enumerate_eq)
  have v: "filter (\<lambda>(i, k). \<not> ?u ! (i + length (row_K row))) (enumerate 0 (row_V row)) =
      filter (\<lambda>(i, k). i + length (row_K row) \<notin> ?U) (enumerate 0 (row_V row))"
    using u by (intro filter_cong refl) (auto simp: in_set_enumerate_eq)
  have sets: "{i. 0 + i \<notin> ?U} = - ?U"
    "{i. 0 + i + length (row_K row) \<notin> ?U} = {j. j + length (row_K row) \<in> - ?U}"
    by auto
  show ?thesis
    unfolding UseKeys_def keys Let_def gbind_Inr k v
    unfolding filter_enumerate_nths sets row_fields_def nths_append
    using assms(1) by simp
qed

lemma UseKeys_T: "UseKeys ixs row = Inr row' \<Longrightarrow> row_T row' = row_T row"
  by (auto simp: UseKeys_def gbind_eq_Inr Let_def split: if_splits)

lemma nths_upt: "nths xs A = map ((!) xs) (filter (\<lambda>i. i \<in> A) [0..<length xs])"
proof (induction xs rule: rev_induct)
  case (snoc x xs)
  have "map ((!) (xs @ [x])) (filter (\<lambda>i. i \<in> A) [0..<length xs]) =
      map ((!) xs) (filter (\<lambda>i. i \<in> A) [0..<length xs])"
    by (intro map_cong refl) (simp add: nth_append)
  with snoc show ?case by (simp add: nths_append nths_singleton nth_append)
qed simp

lemma nths_map_mset:
  assumes "distinct is" "\<forall>i\<in>set is. i < length xs"
  shows "mset (map ((!) xs) is) + mset (nths xs (- set is)) = mset xs"
proof -
  have rest: "nths xs (- set is) = map ((!) xs) (filter (\<lambda>i. i \<notin> set is) [0..<length xs])"
    by (simp add: nths_upt)
  have "mset is = mset (filter (\<lambda>i. i \<in> set is) [0..<length xs])"
    using assms by (intro set_eq_iff_mset_eq_distinct [THEN iffD1]) auto
  then have "mset (map ((!) xs) is) = image_mset ((!) xs) (mset (filter (\<lambda>i. i \<in> set is) [0..<length xs]))"
    by simp
  moreover have "mset (filter (\<lambda>i. i \<in> set is) [0..<length xs]) + mset (filter (\<lambda>i. i \<notin> set is) [0..<length xs])
      = mset [0..<length xs]"
    by (metis mset_filter multiset_partition)
  ultimately have "mset (map ((!) xs) is) + mset (nths xs (- set is)) = image_mset ((!) xs) (mset [0..<length xs])"
    unfolding rest by (simp only: mset_map flip: image_mset_union)
  also have "\<dots> = mset (map ((!) xs) [0..<length xs])" by (simp only: mset_map)
  also have "\<dots> = mset xs" by (simp only: map_nth)
  finally show ?thesis .
qed

lemma UseKeys_invalid:
  assumes "\<exists>x\<in>set ixs. \<not> valid_index row x"
  shows "\<exists>p. UseKeys ixs row = Inl p"
proof -
  from assms obtain x where x: "x \<in> set ixs" "\<not> valid_index row x" by blast
  then obtain q where "gmap (field_at row) ixs = Inl q"
    using gmap_panics [of x ixs "field_at row"] field_at_invalid by blast
  with x(1) show ?thesis by (auto simp: UseKeys_def)
qed

text \<open>
  \<open>UseKeys\<close> succeeds exactly when every index is between 1 and the number of fields of the row;
  an index outside panics.
\<close>

theorem UseKeys_defined_iff:
  "(\<exists>row'. UseKeys indexes row = Inr row') = list_all (valid_index row) indexes"
proof (cases "list_all (valid_index row) indexes")
  case True
  then have "indexes \<noteq> [] \<Longrightarrow> \<exists>row'. UseKeys indexes row = Inr row'"
    using UseKeys_valid [of indexes row] by (auto simp: list_all_iff)
  with True show ?thesis by (cases "indexes = []") (auto simp: UseKeys_def)
next
  case False
  then show ?thesis using UseKeys_invalid [of indexes row] by (auto simp: list_all_iff)
qed

text \<open>
  C27: For pairwise different valid indexes, \<open>UseKeys\<close> only rearranges the row: the chosen fields,
  in the order of the indexes, become the keys, the other fields in their order become the values,
  no field is lost or duplicated and the timestamp stays.
\<close>

theorem UseKeys_rearranges:
  assumes "indexes \<noteq> []" "distinct indexes" "list_all (valid_index row) indexes"
  shows "\<exists>row'. UseKeys indexes row = Inr row' \<and>
    row_K row' = map (\<lambda>x. row_fields row ! nat (x - 1)) indexes \<and>
    subseq (row_V row') (row_fields row) \<and>
    mset (row_fields row') = mset (row_fields row) \<and> row_T row' = row_T row"
proof -
  let ?is = "map (\<lambda>x. nat (x - 1)) indexes"
  have "inj_on (\<lambda>x. nat (x - 1)) (set indexes)"
  proof (rule inj_onI)
    fix x y assume "x \<in> set indexes" "y \<in> set indexes" and eq: "nat (x - 1) = nat (y - 1)"
    then have "1 \<le> x" "1 \<le> y" using assms(3) by (auto simp: list_all_iff valid_index_def)
    with eq show "x = y" by linarith
  qed
  then have "distinct ?is" using assms(2) by (simp add: distinct_map)
  moreover have "\<forall>i\<in>set ?is. i < length (row_fields row)"
    using assms(3) by (auto simp: list_all_iff valid_index_def)
  ultimately have ms: "mset (map ((!) (row_fields row)) ?is) + mset (nths (row_fields row) (- set ?is)) = mset (row_fields row)"
    by (rule nths_map_mset)
  let ?r = "row\<lparr>row_K := map (\<lambda>x. row_fields row ! nat (x - 1)) indexes,
             row_V := nths (row_fields row) (- (\<lambda>x. nat (x - 1)) ` set indexes)\<rparr>"
  have eq: "UseKeys indexes row = Inr ?r"
    using assms by (intro UseKeys_valid) (auto simp: list_all_iff)
  have "mset (row_fields ?r) = mset (map ((!) (row_fields row)) ?is) + mset (nths (row_fields row) (- set ?is))"
    by (simp add: row_fields_def comp_def)
  with ms have "mset (row_fields ?r) = mset (row_fields row)" by simp
  moreover have "subseq (row_V ?r) (row_fields row)" unfolding subseq_conv_nths by auto
  ultimately show ?thesis using eq by (intro exI [of _ ?r]) simp
qed

theorem UseKeys_rearranges_witness:
  "\<exists>row'. UseKeys [3, 1] (NewRow 7 [VInt64 10, VInt64 20, VInt64 30]) = Inr row' \<and>
     row_K row' = [VInt64 30, VInt64 10] \<and> mset (row_fields row') = {#VInt64 10, VInt64 20, VInt64 30#}"
  using UseKeys_rearranges [of "[3, 1]" "NewRow 7 [VInt64 10, VInt64 20, VInt64 30]"]
  by (auto simp: NewRow_def AppendKey_def AppendValue_def row_fields_def valid_index_def)

end
