(* ===== verification/Wire.thy ===== *)
theory Wire
  imports Prelude
begin

text \<open>
  The framing of messages on a byte stream (\<^verbatim>\<open>util/message_write.go\<close>, \<^verbatim>\<open>util/message_read.go\<close>): a
  little-endian \<^verbatim>\<open>int32\<close> length and then the content, with the length \<^verbatim>\<open>math.MinInt32\<close> as an end mark.

  An \<^verbatim>\<open>io.Writer\<close> is the data it has accepted and the number of bytes it still accepts before it
  fails (none: it never fails); a failing write accepts what fits and reports the error, as the
  contract of \<^verbatim>\<open>io.Writer\<close> asks. An \<^verbatim>\<open>io.Reader\<close> is the data it still delivers and the error (mostly
  \<^verbatim>\<open>io.EOF\<close>) that it then reports.
\<close>

record gwriter =
  w_data :: bytes
  w_cap :: "nat option"

record greader =
  r_data :: bytes
  r_end :: gerror

definition io_write :: "bytes \<Rightarrow> gwriter \<Rightarrow> gwriter \<times> nat \<times> gerror option" where
  "io_write bs w = (case w_cap w of
      None \<Rightarrow> (w\<lparr>w_data := w_data w @ bs\<rparr>, length bs, None)
    | Some c \<Rightarrow>
        if length bs \<le> c
        then (w\<lparr>w_data := w_data w @ bs, w_cap := Some (c - length bs)\<rparr>, length bs, None)
        else (w\<lparr>w_data := w_data w @ take c bs, w_cap := Some 0\<rparr>, c, Some ErrClosedPipe))"

definition io_ReadFull :: "nat \<Rightarrow> greader \<Rightarrow> (gerror + bytes) \<times> greader" where
  "io_ReadFull n rd =
     (if n \<le> length (r_data rd)
      then (Inr (take n (r_data rd)), rd\<lparr>r_data := drop n (r_data rd)\<rparr>)
      else if r_data rd = [] then (Inl (r_end rd), rd)
      else (Inl (if r_end rd = EOF then ErrUnexpectedEOF else r_end rd), rd\<lparr>r_data := []\<rparr>))"

text \<open>The little-endian encoding of \<^verbatim>\<open>encoding/binary\<close>.\<close>

definition le32 :: "32 word \<Rightarrow> bytes" where
  "le32 w = map (\<lambda>i. ucast (drop_bit (8 * i) w)) [0..<4]"

definition le32_dec :: "bytes \<Rightarrow> 32 word" where
  "le32_dec bs = foldr (\<lambda>b acc. or (push_bit 8 acc) (ucast b)) bs 0"

definition MessageControlEOF :: "32 word" where
  "MessageControlEOF = 0x80000000"

definition WriteEOFMessage :: "gwriter \<Rightarrow> gwriter \<times> gerror option" where
  "WriteEOFMessage writer =
     (case io_write (le32 MessageControlEOF) writer of
        (writer', n, Some err) \<Rightarrow> (writer', Some (Errorf ''Failed to write message length'' (Some err)))
      | (writer', n, None) \<Rightarrow> (writer', None))"

definition WriteMessage :: "bytes \<Rightarrow> gwriter \<Rightarrow> gwriter \<times> gerror option" where
  "WriteMessage m writer =
     (case io_write (le32 (of_nat (length m))) writer of
        (writer', n, Some err) \<Rightarrow> (writer', Some (Errorf ''Failed to write message length'' (Some err)))
      | (writer', n, None) \<Rightarrow>
         (case io_write m writer' of
            (writer'', n, Some err) \<Rightarrow> (writer'', Some (Errorf ''Failed to write message content'' (Some err)))
          | (writer'', n, None) \<Rightarrow> (writer'', None)))"

definition ReadMessage :: "greader \<Rightarrow> ((gerror + bytes) \<times> greader) go" where
  "ReadMessage reader =
     (case io_ReadFull 4 reader of
        (Inl err, reader') \<Rightarrow>
          Inr (Inl (if err = EOF then EOF else Errorf ''Failed to read message length'' (Some err)), reader')
      | (Inr hd4, reader') \<Rightarrow>
         (let len = le32_dec hd4 in
          if len = MessageControlEOF then Inr (Inl EOF, reader')
          else if len = 0 then Inr (Inr [], reader')
          else if sint len < 0 then Inl PanicMakeSlice
          else case io_ReadFull (nat (sint len)) reader' of
              (Inl err, reader'') \<Rightarrow>
                Inr (Inl (if err = EOF then Errorf ''Unexpected EOF when reading message size'' None
                          else Errorf ''Failed to read message content size'' (Some err)), reader'')
            | (Inr m, reader'') \<Rightarrow> Inr (Inr m, reader'')))"

text \<open>A successful read consumes at least the four bytes of the length.\<close>

lemma io_ReadFull_Inr:
  "io_ReadFull n rd = (Inr m, rd') \<Longrightarrow>
     n \<le> length (r_data rd) \<and> m = take n (r_data rd) \<and> rd' = rd\<lparr>r_data := drop n (r_data rd)\<rparr>"
  by (auto simp: io_ReadFull_def split: if_splits)

lemma ReadMessage_shrinks:
  "ReadMessage rd = Inr (Inr m, rd') \<Longrightarrow> length (r_data rd') < length (r_data rd)"
  by (auto simp: ReadMessage_def Let_def split: prod.splits sum.splits if_splits dest!: io_ReadFull_Inr)

text \<open>
  The callback of \<open>TakeMessage\<close> is a closure over variables of its caller: it maps a message and
  the state of those variables to the new state and an error value. A loop over a finite stream
  ends, since every message takes bytes off it.
\<close>

type_synonym 's callback = "bytes \<Rightarrow> 's \<Rightarrow> ('s \<times> gerror option) go"

function TakeMessage :: "greader \<Rightarrow> int \<Rightarrow> 's callback \<Rightarrow> 's \<Rightarrow> ('s \<times> gerror option) go" where
  "TakeMessage reader cnt f s =
     (if cnt = 0 then Inr (s, None)
      else case ReadMessage reader of
          Inl p \<Rightarrow> Inl p
        | Inr (Inl readError, reader') \<Rightarrow>
            if readError = EOF then Inr (s, None)
            else Inr (s, Some (Errorf ''Failed to read message'' (Some readError)))
        | Inr (Inr message, reader') \<Rightarrow>
           (case f message s of
              Inl p \<Rightarrow> Inl p
            | Inr (s', Some err) \<Rightarrow> Inr (s', Some err)
            | Inr (s', None) \<Rightarrow> TakeMessage reader' (cnt - 1) f s'))"
  by pat_completeness auto
termination
  by (relation "measure (\<lambda>(reader, _). length (r_data reader))") (auto dest: ReadMessage_shrinks)

declare TakeMessage.simps [simp del]

definition ProcessMessage :: "greader \<Rightarrow> 's callback \<Rightarrow> 's \<Rightarrow> ('s \<times> gerror option) go" where
  "ProcessMessage reader f s = TakeMessage reader (- 1) f s"

section \<open>The buffered writer\<close>

record BufferedMessageWriter =
  b_err :: "gerror option"
  b_buf :: bytes
  b_n :: nat
  b_wr :: gwriter

definition NewBufferedMessageWriter :: "gwriter \<Rightarrow> nat \<Rightarrow> BufferedMessageWriter" where
  "NewBufferedMessageWriter w sz = \<lparr>b_err = None, b_buf = replicate sz 0, b_n = 0, b_wr = w\<rparr>"

definition Available :: "BufferedMessageWriter \<Rightarrow> nat" where
  "Available b = length (b_buf b) - b_n b"

definition Buffered :: "BufferedMessageWriter \<Rightarrow> nat" where
  "Buffered b = b_n b"

text \<open>Go's \<^verbatim>\<open>copy(buf[i:], src)\<close> for a source that fits.\<close>

definition blit :: "'a list \<Rightarrow> nat \<Rightarrow> 'a list \<Rightarrow> 'a list" where
  "blit buf i src = take i buf @ src @ drop (i + length src) buf"

definition buf_flush :: "BufferedMessageWriter \<Rightarrow> BufferedMessageWriter \<times> gerror option" where
  "buf_flush b =
     (if b_err b \<noteq> None then (b, b_err b)
      else if b_n b = 0 then (b, None)
      else case io_write (take (b_n b) (b_buf b)) (b_wr b) of (wr, n, werr) \<Rightarrow>
        (let err = (if n < b_n b \<and> werr = None then Some ErrShortWrite else werr) in
         if err \<noteq> None
         then (b\<lparr>b_buf := (if 0 < n \<and> n < b_n b
                            then blit (b_buf b) 0 (take (b_n b - n) (drop n (b_buf b)))
                            else b_buf b),
                  b_n := b_n b - n, b_err := err, b_wr := wr\<rparr>, err)
         else (b\<lparr>b_n := 0, b_wr := wr\<rparr>, None)))"

definition buf_Flush :: "BufferedMessageWriter \<Rightarrow> BufferedMessageWriter \<times> gerror option" where
  "buf_Flush b = buf_flush b"

definition buf_put :: "bytes \<Rightarrow> BufferedMessageWriter \<Rightarrow> BufferedMessageWriter" where
  "buf_put m b =
     b\<lparr>b_buf := blit (blit (b_buf b) (b_n b) (le32 (of_nat (length m)))) (b_n b + 4) m,
       b_n := b_n b + (length m + 4)\<rparr>"

definition buf_WriteMessage :: "bytes \<Rightarrow> BufferedMessageWriter \<Rightarrow> BufferedMessageWriter \<times> gerror option" where
  "buf_WriteMessage m b =
     (let nextSize = 4 + length m in
      if nextSize > Available b then
        (let b' = (if Buffered b > 0 then fst (buf_flush b) else b) in
         if nextSize > Available b' then
           (case WriteMessage m (b_wr b') of (wr, err) \<Rightarrow> (b'\<lparr>b_wr := wr\<rparr>, err))
         else (buf_put m b', None))
      else (buf_put m b, None))"

section \<open>Facts on the encoding and on readers and writers\<close>

lemma length_le32 [simp]: "length (le32 w) = 4"
  by (simp add: le32_def)

lemma le32_dec_le32 [simp]: "le32_dec (le32 w) = w"
proof (rule bit_word_eqI)
  fix n assume n: "n < LENGTH(32)"
  show "bit (le32_dec (le32 w)) n = bit w n"
    using n by (cases "n < 8"; cases "n < 16"; cases "n < 24")
      (auto simp: le32_dec_def le32_def upt_rec bit_simps not_less)
qed

lemma io_write_ok:
  "io_write bs w = (w', n, None) \<Longrightarrow> w_data w' = w_data w @ bs \<and> n = length bs"
  by (auto simp: io_write_def split: option.splits if_splits)

lemma io_write_err:
  "io_write bs w = (w', n, Some e) \<Longrightarrow>
     w_data w' = w_data w @ take n bs \<and> n < length bs \<and> w_cap w' = Some 0"
  by (auto simp: io_write_def split: option.splits if_splits)

lemma io_write_full: "w_cap w = Some 0 \<Longrightarrow> bs \<noteq> [] \<Longrightarrow> \<exists>w' n e. io_write bs w = (w', n, Some e)"
  by (auto simp: io_write_def)

definition frame :: "bytes \<Rightarrow> bytes" where
  "frame m = le32 (of_nat (length m)) @ m"

abbreviation fits :: "bytes \<Rightarrow> bool" where
  "fits m \<equiv> length m < 2 ^ 31"

lemma WriteMessage_ok: "WriteMessage m w = (w', None) \<Longrightarrow> w_data w' = w_data w @ frame m"
  by (auto simp: WriteMessage_def frame_def split: prod.splits option.splits dest!: io_write_ok)

lemma WriteMessage_unbounded [simp]:
  "w_cap w = None \<Longrightarrow> WriteMessage m w = (w\<lparr>w_data := w_data w @ frame m\<rparr>, None)"
  by (simp add: WriteMessage_def io_write_def frame_def)

lemma io_ReadFull_exact [simp]:
  "io_ReadFull (length xs) \<lparr>r_data = xs @ ys, r_end = e\<rparr> = (Inr xs, \<lparr>r_data = ys, r_end = e\<rparr>)"
  by (simp add: io_ReadFull_def)

lemma io_ReadFull_le32 [simp]:
  "io_ReadFull 4 \<lparr>r_data = le32 w @ ys, r_end = e\<rparr> = (Inr (le32 w), \<lparr>r_data = ys, r_end = e\<rparr>)"
  using io_ReadFull_exact [of "le32 w"] by simp

lemma sint_length: "n < 2 ^ 31 \<Longrightarrow> sint (of_nat n :: 32 word) = int n"
  by (simp add: signed_of_nat signed_take_bit_int_eq_self)

lemma length_not_mark: "n < 2 ^ 31 \<Longrightarrow> (of_nat n :: 32 word) \<noteq> MessageControlEOF"
  using sint_length [of n] by (auto simp: MessageControlEOF_def)

lemma length_eq_0: "n < 2 ^ 31 \<Longrightarrow> (of_nat n :: 32 word) = 0 \<longleftrightarrow> n = 0"
  using sint_length [of n] by auto

lemma ReadMessage_frame [simp]:
  "fits m \<Longrightarrow> ReadMessage \<lparr>r_data = frame m @ rest, r_end = e\<rparr> = Inr (Inr m, \<lparr>r_data = rest, r_end = e\<rparr>)"
  by (simp add: ReadMessage_def frame_def Let_def sint_length length_not_mark length_eq_0)

lemma ReadMessage_end [simp]: "ReadMessage \<lparr>r_data = [], r_end = EOF\<rparr> = Inr (Inl EOF, \<lparr>r_data = [], r_end = EOF\<rparr>)"
  by (simp add: ReadMessage_def io_ReadFull_def)

lemma ReadMessage_mark [simp]:
  "ReadMessage \<lparr>r_data = le32 MessageControlEOF @ rest, r_end = e\<rparr> = Inr (Inl EOF, \<lparr>r_data = rest, r_end = e\<rparr>)"
  by (simp add: ReadMessage_def)

text \<open>A message cut off anywhere inside is an error that is not an end of stream.\<close>

lemma ReadMessage_truncated:
  assumes "fits m" "p \<noteq> []" "strict_prefix p (frame m)"
  shows "\<exists>err rd. ReadMessage \<lparr>r_data = p, r_end = EOF\<rparr> = Inr (Inl err, rd) \<and> err \<noteq> EOF"
proof (cases "length p < 4")
  case True
  with assms(2) show ?thesis by (simp add: ReadMessage_def io_ReadFull_def)
next
  case False
  let ?l = "of_nat (length m) :: 32 word"
  have s: "sint ?l = int (length m)" using assms(1) by (rule sint_length)
  from assms(3) obtain ys where ys: "frame m = p @ ys" "ys \<noteq> []"
    by (auto simp: strict_prefix_def prefix_def)
  from False have "take 4 p = le32 ?l"
    using arg_cong [OF ys(1), of "take 4"] by (simp add: frame_def)
  then have p: "p = le32 ?l @ drop 4 p" by (metis append_take_drop_id)
  have m: "m = drop 4 p @ ys"
    using arg_cong [OF ys(1), of "drop 4"] False by (simp add: frame_def)
  have "m \<noteq> []" using m ys(2) by auto
  then have neq: "?l \<noteq> MessageControlEOF" "?l \<noteq> 0"
    using assms(1) by (simp_all add: length_not_mark length_eq_0)
  have "length (drop 4 p) < length m" using arg_cong [OF m, of length] ys(2) by simp
  then show ?thesis
    by (subst p) (auto simp: ReadMessage_def Let_def neq s io_ReadFull_def)
qed

section \<open>Processing a stream of messages\<close>

text \<open>The callback on the messages in order, up to the first error or panic.\<close>

fun fold_msgs :: "('m \<Rightarrow> 's \<Rightarrow> ('s \<times> gerror option) go) \<Rightarrow> 'm list \<Rightarrow> 's \<Rightarrow> ('s \<times> gerror option) go" where
  "fold_msgs f [] s = Inr (s, None)"
| "fold_msgs f (m # ms) s =
     (case f m s of
        Inl p \<Rightarrow> Inl p
      | Inr (s', Some err) \<Rightarrow> Inr (s', Some err)
      | Inr (s', None) \<Rightarrow> fold_msgs f ms s')"

text \<open>A loop invariant that mentions the messages processed so far.\<close>

lemma fold_msgs_inv:
  assumes "I [] s"
    and "\<And>pre m post s. ms = pre @ m # post \<Longrightarrow> I pre s \<Longrightarrow> \<exists>s'. f m s = Inr (s', None) \<and> I (pre @ [m]) s'"
  shows "\<exists>s'. fold_msgs f ms s = Inr (s', None) \<and> I ms s'"
proof -
  have "\<exists>s'. fold_msgs f post s = Inr (s', None) \<and> I ms s'" if "ms = pre @ post" "I pre s" for pre post s
    using that
  proof (induction post arbitrary: pre s)
    case (Cons m post)
    then obtain s1 where "f m s = Inr (s1, None)" "I (pre @ [m]) s1" using assms(2) by blast
    with Cons.IH [of "pre @ [m]" s1] Cons.prems(1) show ?case by simp
  qed simp
  from this [of "[]" ms] assms(1) show ?thesis by simp
qed

definition and_then :: "('s \<times> gerror option) go \<Rightarrow> ('s \<Rightarrow> ('s \<times> gerror option) go) \<Rightarrow> ('s \<times> gerror option) go" where
  "and_then r k = (case r of
      Inl p \<Rightarrow> Inl p
    | Inr (s, Some err) \<Rightarrow> Inr (s, Some err)
    | Inr (s, None) \<Rightarrow> k s)"

lemma TakeMessage_frames:
  assumes "\<forall>m\<in>set ms. fits m" "n < 0"
  shows "TakeMessage \<lparr>r_data = concat (map frame ms) @ rest, r_end = e\<rparr> n f s =
    and_then (fold_msgs f ms s) (\<lambda>s'. TakeMessage \<lparr>r_data = rest, r_end = e\<rparr> (n - int (length ms)) f s')"
  using assms
proof (induction ms arbitrary: n s)
  case (Cons m ms)
  then have n: "n \<noteq> 0" and r: "ReadMessage \<lparr>r_data = frame m @ concat (map frame ms) @ rest, r_end = e\<rparr>
      = Inr (Inr m, \<lparr>r_data = concat (map frame ms) @ rest, r_end = e\<rparr>)"
    by auto
  have IH: "TakeMessage \<lparr>r_data = concat (map frame ms) @ rest, r_end = e\<rparr> (n - 1) f s' =
    and_then (fold_msgs f ms s') (\<lambda>s''. TakeMessage \<lparr>r_data = rest, r_end = e\<rparr> (n - int (length (m # ms))) f s'')" for s'
    using Cons.IH [of "n - 1" s'] Cons.prems by (simp add: algebra_simps)
  show ?case
    by (subst TakeMessage.simps) (auto simp: n r IH and_then_def split: sum.split option.split)
qed (simp add: and_then_def)

lemma and_then_return [simp]: "and_then r (\<lambda>s. Inr (s, None)) = r"
  by (auto simp: and_then_def split: sum.split option.split)

lemma TakeMessage_end:
  "n \<noteq> 0 \<Longrightarrow> ReadMessage rd = Inr (Inl EOF, rd') \<Longrightarrow> TakeMessage rd n f s = Inr (s, None)"
  by (simp add: TakeMessage.simps)

lemma ProcessMessage_frames:
  assumes "\<forall>m\<in>set ms. fits m"
  shows "ProcessMessage \<lparr>r_data = concat (map frame ms), r_end = EOF\<rparr> f s = fold_msgs f ms s"
  using TakeMessage_frames [OF assms, of "- 1" "[]" EOF f s]
  by (simp add: ProcessMessage_def TakeMessage_end)

section \<open>Message sinks\<close>

text \<open>
  What the rest of the program relies on when it writes messages: an accepted message appends its
  frame to what the sink holds. The plain writer and the buffered writer both provide it.
\<close>

fun write_all :: "(bytes \<Rightarrow> 's \<Rightarrow> 's \<times> gerror option) \<Rightarrow> bytes list \<Rightarrow> 's \<Rightarrow> 's \<times> gerror option" where
  "write_all put [] s = (s, None)"
| "write_all put (m # ms) s =
     (case put m s of (s', Some err) \<Rightarrow> (s', Some err) | (s', None) \<Rightarrow> write_all put ms s')"

locale message_sink =
  fixes put :: "bytes \<Rightarrow> 's \<Rightarrow> 's \<times> gerror option"
    and held :: "'s \<Rightarrow> bytes"
    and inv :: "'s \<Rightarrow> bool"
  assumes put_held: "inv s \<Longrightarrow> put m s = (s', None) \<Longrightarrow> held s' = held s @ frame m"
    and put_inv: "inv s \<Longrightarrow> put m s = (s', None) \<Longrightarrow> inv s'"
begin

lemma write_all_held:
  "inv s \<Longrightarrow> write_all put ms s = (s', None) \<Longrightarrow> inv s' \<and> held s' = held s @ concat (map frame ms)"
proof (induction ms arbitrary: s)
  case (Cons m ms)
  then obtain t where t: "put m s = (t, None)" "write_all put ms t = (s', None)"
    by (auto split: prod.splits option.splits)
  with Cons.IH [of t] Cons.prems(1) show ?case by (simp add: put_held put_inv)
qed simp

lemma write_all_read_back:
  assumes "inv s" "held s = []" "write_all put ms s = (s', None)" "\<forall>m\<in>set ms. fits m"
  shows "ProcessMessage \<lparr>r_data = held s', r_end = EOF\<rparr> f z = fold_msgs f ms z"
  using write_all_held [OF assms(1,3)] assms(2) ProcessMessage_frames [OF assms(4)] by simp

end

interpretation plain: message_sink WriteMessage w_data "\<lambda>_. True"
  by unfold_locales (auto dest: WriteMessage_ok)

definition buf_inv :: "BufferedMessageWriter \<Rightarrow> bool" where
  "buf_inv b \<longleftrightarrow> b_n b \<le> length (b_buf b) \<and> (b_err b \<noteq> None \<longrightarrow> w_cap (b_wr b) = Some 0)"

definition buf_held :: "BufferedMessageWriter \<Rightarrow> bytes" where
  "buf_held b = w_data (b_wr b) @ take (b_n b) (b_buf b)"

lemma buf_flush_inv:
  assumes "buf_inv b" "buf_flush b = (b', err)"
  shows "buf_inv b'" "buf_held b' = buf_held b"
    "err = None \<Longrightarrow> w_data (b_wr b') = buf_held b"
    "b_err b' = err" "err = None \<Longrightarrow> b_n b' = 0"
proof -
  have inv: "b_n b \<le> length (b_buf b)" using assms(1) by (simp add: buf_inv_def)
  obtain wr n werr where wr: "io_write (take (b_n b) (b_buf b)) (b_wr b) = (wr, n, werr)"
    using prod_cases3 by blast
  have "buf_inv b' \<and> buf_held b' = buf_held b \<and> (err = None \<longrightarrow> w_data (b_wr b') = buf_held b) \<and>
      b_err b' = err \<and> (err = None \<longrightarrow> b_n b' = 0)"
  proof (cases "b_err b \<noteq> None \<or> b_n b = 0")
    case True
    with assms show ?thesis by (auto simp: buf_flush_def buf_inv_def buf_held_def split: if_splits)
  next
    case False
    show ?thesis
    proof (cases werr)
      case None
      with wr have "w_data wr = w_data (b_wr b) @ take (b_n b) (b_buf b)" "n = b_n b"
        using inv by (auto dest!: io_write_ok)
      with False assms(2) wr None show ?thesis
        using assms(1) by (auto simp: buf_flush_def buf_inv_def buf_held_def Let_def)
    next
      case (Some e)
      with wr have w: "w_data wr = w_data (b_wr b) @ take n (b_buf b)" "n < b_n b" "w_cap wr = Some 0"
        using inv by (auto dest!: io_write_err simp: min_absorb1 min_absorb2)
      have "take n (b_buf b) @ take (b_n b - n) (drop n (b_buf b)) = take (b_n b) (b_buf b)"
        using w(2) by (metis le_add_diff_inverse less_imp_le take_add)
      with False assms(2) wr Some w inv show ?thesis
        by (auto simp: buf_flush_def buf_inv_def buf_held_def blit_def Let_def)
    qed
  qed
  then show "buf_inv b'" "buf_held b' = buf_held b" "err = None \<Longrightarrow> w_data (b_wr b') = buf_held b"
    "b_err b' = err" "err = None \<Longrightarrow> b_n b' = 0" by auto
qed

lemma buf_put_inv:
  assumes "buf_inv b" "4 + length m \<le> Available b"
  shows "buf_inv (buf_put m b)" "buf_held (buf_put m b) = buf_held b @ frame m"
  using assms by (auto simp: buf_inv_def buf_held_def buf_put_def blit_def frame_def Available_def)

lemma buf_WriteMessage_inv:
  assumes "buf_inv b" "buf_WriteMessage m b = (b', None)"
  shows "buf_inv b' \<and> buf_held b' = buf_held b @ frame m"
proof -
  obtain fb ferr where fb: "buf_flush b = (fb, ferr)" using prod.exhaust by blast
  note fl = buf_flush_inv [OF assms(1) fb]
  obtain bf where bf: "bf = (if Buffered b > 0 then fb else b)" by blast
  have eq: "buf_WriteMessage m b =
      (if 4 + length m > Available b then
         if 4 + length m > Available bf
         then (case WriteMessage m (b_wr bf) of (wr, err) \<Rightarrow> (bf\<lparr>b_wr := wr\<rparr>, err))
         else (buf_put m bf, None)
       else (buf_put m b, None))"
    by (simp add: buf_WriteMessage_def bf fb Let_def)
  have f: "buf_inv bf" "buf_held bf = buf_held b" using fl(1,2) assms(1) by (auto simp: bf)
  show ?thesis
  proof (cases "4 + length m > Available b \<and> 4 + length m > Available bf")
    case True
    then obtain wr where wr: "WriteMessage m (b_wr bf) = (wr, None)" and b': "b' = bf\<lparr>b_wr := wr\<rparr>"
      using assms(2) by (auto simp: eq split: prod.splits)
    have none: "b_err bf = None"
    proof (rule ccontr)
      assume "b_err bf \<noteq> None"
      then have "w_cap (b_wr bf) = Some 0" using f(1) by (simp add: buf_inv_def)
      moreover have "le32 (of_nat (length m)) \<noteq> []" by (metis length_le32 list.size(3) zero_neq_numeral)
      ultimately show False using wr io_write_full [of "b_wr bf"] by (fastforce simp: WriteMessage_def)
    qed
    have "b_n bf = 0"
      using none fl(4,5) by (auto simp: bf Buffered_def split: if_splits)
    then show ?thesis using none f b' WriteMessage_ok [OF wr] by (auto simp: buf_inv_def buf_held_def)
  next
    case False
    then have "b' = buf_put m b \<and> 4 + length m \<le> Available b \<or> b' = buf_put m bf \<and> 4 + length m \<le> Available bf"
      using assms(2) by (auto simp: eq split: if_splits)
    then show ?thesis using buf_put_inv assms(1) f by metis
  qed
qed

interpretation buffered: message_sink buf_WriteMessage buf_held buf_inv
  by unfold_locales (auto dest: buf_WriteMessage_inv)

section \<open>Properties\<close>



text \<open>
  C24: Processing a stream that holds framed messages applies the callback to these messages in
  order, up to its first error or panic; an end mark ends the stream whatever follows it.
\<close>

theorem ProcessMessage_stream:
  assumes "\<forall>m\<in>set ms. fits m"
  shows "ProcessMessage \<lparr>r_data = concat (map frame ms), r_end = EOF\<rparr> f s = fold_msgs f ms s \<and>
    ProcessMessage \<lparr>r_data = concat (map frame ms) @ le32 MessageControlEOF @ junk, r_end = e\<rparr> f s
      = fold_msgs f ms s"
  using ProcessMessage_frames [OF assms] TakeMessage_frames [OF assms, of "- 1" "le32 MessageControlEOF @ junk" e f s]
  by (simp_all add: ProcessMessage_def TakeMessage_end)

theorem ProcessMessage_stream_witness:
  "ProcessMessage \<lparr>r_data = [1, 0, 0, 0, 7, 0, 0, 0, 128, 5], r_end = EOF\<rparr>
     (\<lambda>m s. Inr (s @ [m], None)) [] = Inr ([[7]], None)"
proof -
  have "le32 MessageControlEOF = [0, 0, 0, 128]" by code_simp
  with ProcessMessage_stream [of "[[7]]" "\<lambda>m s. Inr (s @ [m], None)" "[]" "[5]" EOF] show ?thesis
    by (simp add: frame_def le32_def upt_rec)
qed

text \<open>
  C25: A stream that breaks off inside a message is never taken for a complete one: after the
  complete messages, processing ends with an error.
\<close>

theorem ProcessMessage_truncated:
  assumes "\<forall>m\<in>set ms. fits m" "fits m" "p \<noteq> []" "strict_prefix p (frame m)"
    and "fold_msgs f ms s = Inr (s', None)"
  shows "\<exists>err. ProcessMessage \<lparr>r_data = concat (map frame ms) @ p, r_end = EOF\<rparr> f s = Inr (s', Some err)"
proof -
  obtain err rd where "ReadMessage \<lparr>r_data = p, r_end = EOF\<rparr> = Inr (Inl err, rd)" "err \<noteq> EOF"
    using ReadMessage_truncated [OF assms(2-4)] by blast
  then show ?thesis
    using TakeMessage_frames [OF assms(1), of "- 1" p EOF f s] assms(5)
    by (simp add: ProcessMessage_def and_then_def TakeMessage.simps)
qed

theorem ProcessMessage_truncated_witness:
  "\<exists>err. ProcessMessage \<lparr>r_data = [2, 0, 0, 0, 7], r_end = EOF\<rparr> (\<lambda>m s. Inr (s @ [m], None)) []
     = Inr ([], Some err)"
proof -
  have "strict_prefix [2, 0, 0, 0, 7] (frame [7, 8])"
    by (simp add: frame_def le32_def upt_rec)
  from ProcessMessage_truncated [of "[]" "[7, 8]", OF _ _ _ this] show ?thesis by simp
qed

text \<open>
  A length that is negative and is not the end mark makes the reader panic, although the
  comment of the file announces such lengths as meta data messages.
\<close>

theorem ReadMessage_negative_panics:
  assumes "sint len < 0" "len \<noteq> MessageControlEOF"
  shows "ReadMessage \<lparr>r_data = le32 len @ rest, r_end = e\<rparr> = Inl PanicMakeSlice"
  using assms by (auto simp: ReadMessage_def Let_def)

theorem ReadMessage_negative_panics_witness:
  "ReadMessage \<lparr>r_data = [254, 255, 255, 255, 1, 2], r_end = EOF\<rparr> = Inl PanicMakeSlice"
proof -
  have "sint (0xFFFFFFFE :: 32 word) < 0" "(0xFFFFFFFE :: 32 word) \<noteq> MessageControlEOF"
    "le32 0xFFFFFFFE = [254, 255, 255, 255]" by code_simp+
  with ReadMessage_negative_panics [of "0xFFFFFFFE" "[1, 2]" EOF] show ?thesis by simp
qed

text \<open>
  C26: The buffered writer loses nothing and reorders nothing, for every buffer size and for a
  stream that may fail at any point: if every write and the final flush report no error, the
  stream holds exactly the frames of the messages, in order.
\<close>

theorem BufferedMessageWriter_complete:
  assumes "write_all buf_WriteMessage ms (NewBufferedMessageWriter w sz) = (b, None)"
    and "buf_Flush b = (b', None)"
  shows "w_data (b_wr b') = w_data w @ concat (map frame ms)"
proof -
  have init: "buf_inv (NewBufferedMessageWriter w sz)" "buf_held (NewBufferedMessageWriter w sz) = w_data w"
    by (simp_all add: buf_inv_def buf_held_def NewBufferedMessageWriter_def)
  from buffered.write_all_held [OF init(1) assms(1)] init(2)
  have "buf_inv b" "buf_held b = w_data w @ concat (map frame ms)" by simp_all
  with buf_flush_inv(3) [of b b' None] assms(2) show ?thesis by (simp add: buf_Flush_def)
qed

theorem BufferedMessageWriter_complete_witness:
  "w_data (b_wr (fst (buf_Flush (fst (write_all buf_WriteMessage [[1], [2, 3], []]
     (NewBufferedMessageWriter \<lparr>w_data = [], w_cap = Some 20\<rparr> 7)))))) =
   [1, 0, 0, 0, 1, 2, 0, 0, 0, 2, 3, 0, 0, 0, 0]"
proof -
  let ?w = "\<lparr>w_data = [], w_cap = Some 20\<rparr>"
  let ?b = "write_all buf_WriteMessage [[1], [2, 3], []] (NewBufferedMessageWriter ?w 7)"
  have "snd ?b = None" "snd (buf_Flush (fst ?b)) = None" by code_simp+
  then have "?b = (fst ?b, None)" "buf_Flush (fst ?b) = (fst (buf_Flush (fst ?b)), None)"
    by (metis prod.collapse)+
  from BufferedMessageWriter_complete [OF this] show ?thesis
    by (simp add: frame_def le32_def upt_rec)
qed

end
