(* ===== verification/RowCodec.thy ===== *)
theory RowCodec
  imports Rows Wire
begin

text \<open>
  The MessagePack form of a row (\<^verbatim>\<open>util/row_codec.go\<close>) and reading and writing rows on a stream
  (\<^verbatim>\<open>util/row_read_write.go\<close>). The library \<^verbatim>\<open>github.com/glycerine/truepack/msgp\<close> is a parameter: the
  record \<open>msgp_ops\<close> holds the functions that the generated code calls, and the locale
  \<open>msgp_codec\<close> the documented round trips that the program relies on. On an error the
  half-filled row is not kept: no caller of \<open>DecodeRow\<close> looks at it.
\<close>

record msgp_ops =
  IsNil :: "bytes \<Rightarrow> bool"
  AppendMapHeader :: "32 word \<Rightarrow> bytes"
  AppendArrayHeader :: "32 word \<Rightarrow> bytes"
  AppendIntf :: "gval \<Rightarrow> gerror + bytes"
  AppendInt64 :: "int64 \<Rightarrow> bytes"
  ReadMapHeaderBytes :: "bytes \<Rightarrow> gerror + 32 word \<times> bytes"
  ReadMapKeyZC :: "bytes \<Rightarrow> gerror + bytes \<times> bytes"
  ReadArrayHeaderBytes :: "bytes \<Rightarrow> gerror + 32 word \<times> bytes"
  ReadIntfBytes :: "bytes \<Rightarrow> gerror + gval \<times> bytes"
  ReadInt64Bytes :: "bool \<Rightarrow> bytes \<Rightarrow> gerror + int64 \<times> bytes"
  Skip :: "bytes \<Rightarrow> gerror + bytes"

section \<open>Encoding\<close>

definition name_K :: bytes where "name_K = [0x4b, 0x5f, 0x5f, 0x73, 0x6c, 0x63]"
definition name_V :: bytes where "name_V = [0x56, 0x5f, 0x5f, 0x73, 0x6c, 0x63]"
definition name_T :: bytes where "name_T = [0x54, 0x5f, 0x5f, 0x69, 0x36, 0x34]"

definition fieldsNotEmpty :: "row \<Rightarrow> bool list \<times> 32 word" where
  "fieldsNotEmpty z =
     (let isempty = [length (row_K z) = 0, length (row_V z) = 0, row_T z = 0] in
      (isempty, foldl (\<lambda>n e. if e then n - 1 else n) 3 isempty))"

fun append_intfs :: "msgp_ops \<Rightarrow> gval list \<Rightarrow> bytes \<Rightarrow> gerror + bytes" where
  "append_intfs ops [] out = Inr out"
| "append_intfs ops (v # vs) out =
     (case AppendIntf ops v of Inl err \<Rightarrow> Inl err | Inr bs \<Rightarrow> append_intfs ops vs (out @ bs))"

definition marshal_slice :: "msgp_ops \<Rightarrow> bytes \<Rightarrow> gval list \<Rightarrow> bytes \<Rightarrow> gerror + bytes" where
  "marshal_slice ops name vs out =
     append_intfs ops vs (out @ 0xa6 # name @ AppendArrayHeader ops (of_nat (length vs)))"

definition MarshalMsg :: "msgp_ops \<Rightarrow> row \<Rightarrow> bytes \<Rightarrow> gerror + bytes" where
  "MarshalMsg ops z b =
     (case fieldsNotEmpty z of (isempty, fieldsInUse) \<Rightarrow>
       let out = b @ AppendMapHeader ops fieldsInUse in
       case (if \<not> isempty ! 0 then marshal_slice ops name_K (row_K z) out else Inr out) of
         Inl err \<Rightarrow> Inl err
       | Inr out \<Rightarrow>
         (case (if \<not> isempty ! 1 then marshal_slice ops name_V (row_V z) out else Inr out) of
            Inl err \<Rightarrow> Inl err
          | Inr out \<Rightarrow> Inr (if \<not> isempty ! 2 then out @ 0xa6 # name_T @ AppendInt64 ops (row_T z) else out)))"

section \<open>Decoding\<close>

fun read_intfs :: "msgp_ops \<Rightarrow> nat \<Rightarrow> bytes \<Rightarrow> gerror + gval list \<times> bytes" where
  "read_intfs ops 0 bts = Inr ([], bts)"
| "read_intfs ops (Suc n) bts =
     (case ReadIntfBytes ops bts of
        Inl err \<Rightarrow> Inl err
      | Inr (v, bts) \<Rightarrow>
         (case read_intfs ops n bts of Inl err \<Rightarrow> Inl err | Inr (vs, bts) \<Rightarrow> Inr (v # vs, bts)))"

definition read_slice :: "msgp_ops \<Rightarrow> bool \<Rightarrow> bytes \<Rightarrow> gerror + gval list \<times> bytes" where
  "read_slice ops alwaysNil bts =
     (if alwaysNil then Inr ([], bts)
      else case ReadArrayHeaderBytes ops bts of Inl err \<Rightarrow> Inl err | Inr (n, bts) \<Rightarrow> read_intfs ops (unat n) bts)"

text \<open>
  The switch on the field name; \<open>found\<close> records the fields that were seen. The stack \<open>nbs\<close> holds the
  bytes saved by \<^verbatim>\<open>PushAlwaysNil\<close>: while it is not empty, every read delivers a nil.
\<close>

definition unmarshal_field :: "msgp_ops \<Rightarrow> bytes \<Rightarrow> bytes list \<Rightarrow> bool list \<Rightarrow> bytes \<Rightarrow> row \<Rightarrow>
    gerror + bool list \<times> bytes \<times> row" where
  "unmarshal_field ops curField nbs found bts z =
     (if curField = name_K then
        (case read_slice ops (nbs \<noteq> []) bts of
           Inl err \<Rightarrow> Inl err | Inr (vs, bts) \<Rightarrow> Inr (found[0 := True], bts, z\<lparr>row_K := vs\<rparr>))
      else if curField = name_V then
        (case read_slice ops (nbs \<noteq> []) bts of
           Inl err \<Rightarrow> Inl err | Inr (vs, bts) \<Rightarrow> Inr (found[1 := True], bts, z\<lparr>row_V := vs\<rparr>))
      else if curField = name_T then
        (case ReadInt64Bytes ops (nbs \<noteq> []) bts of
           Inl err \<Rightarrow> Inl err | Inr (t, bts) \<Rightarrow> Inr (found[2 := True], bts, z\<lparr>row_T := t\<rparr>))
      else case Skip ops bts of Inl err \<Rightarrow> Inl err | Inr bts \<Rightarrow> Inr (found, bts, z))"

definition unmarshalMsgFieldOrder :: "bytes list" where
  "unmarshalMsgFieldOrder = [name_K, name_V, name_T]"

fun next_missing :: "bool list \<Rightarrow> nat \<Rightarrow> nat" where
  "next_missing [] n = n"
| "next_missing (seen # found) n = (if seen then next_missing found (Suc n) else n)"

lemma unat_pred_less: "w \<noteq> 0 \<Longrightarrow> unat (w - 1) < unat (w :: 'a :: len word)"
  by (simp add: unat_minus_one unat_gt_0)

function unmarshal_loop :: "msgp_ops \<Rightarrow> nat \<Rightarrow> 32 word \<Rightarrow> int \<Rightarrow> bytes list \<Rightarrow> bool list \<Rightarrow> bytes \<Rightarrow> row \<Rightarrow>
    gerror + row \<times> bytes \<times> int \<times> bytes list" where
  "unmarshal_loop ops encodedFieldsLeft missingFieldsLeft nextMiss nbs found bts z =
     (if encodedFieldsLeft = 0 \<and> missingFieldsLeft = 0 then Inr (z, bts, nextMiss, nbs)
      else if encodedFieldsLeft > 0 then
        (case ReadMapKeyZC ops bts of
           Inl err \<Rightarrow> Inl err
         | Inr (field, bts) \<Rightarrow>
            (case unmarshal_field ops field nbs found bts z of
               Inl err \<Rightarrow> Inl err
             | Inr (found, bts, z) \<Rightarrow>
                 unmarshal_loop ops (encodedFieldsLeft - 1) missingFieldsLeft nextMiss nbs found bts z))
      else
        (let (nbs, bts, miss) = (if nextMiss < 0 then (bts # nbs, [0xc0], 0) else (nbs, bts, nat nextMiss));
             miss = next_missing (drop miss found) miss in
         if miss = 3 then Inr (z, bts, int miss, nbs)
         else case unmarshal_field ops (unmarshalMsgFieldOrder ! miss) nbs found bts z of
             Inl err \<Rightarrow> Inl err
           | Inr (found, bts, z) \<Rightarrow>
               unmarshal_loop ops 0 (missingFieldsLeft - 1) (int miss) nbs found bts z))"
  by pat_completeness auto
termination
  by (relation "measure (\<lambda>(ops, enc, miss, _). enc + unat miss)") (auto simp: unat_pred_less)

declare unmarshal_loop.simps [simp del]

definition UnmarshalMsg :: "msgp_ops \<Rightarrow> row \<Rightarrow> bytes \<Rightarrow> gerror + row \<times> bytes" where
  "UnmarshalMsg ops z bts =
     (let sawTopNil = IsNil ops bts;
          nbs = (if sawTopNil then [drop 1 bts] else []);
          bts = (if sawTopNil then [0xc0] else bts) in
      case (if sawTopNil then Inr (0, bts) else ReadMapHeaderBytes ops bts) of
        Inl err \<Rightarrow> Inl err
      | Inr (totalEncodedFields, bts) \<Rightarrow>
         (case unmarshal_loop ops (unat totalEncodedFields) (3 - totalEncodedFields) (- 1) nbs
                 [False, False, False] bts z of
            Inl err \<Rightarrow> Inl err
          | Inr (z, bts, nextMiss, nbs) \<Rightarrow>
             (let (bts, nbs) = (if nextMiss \<noteq> - 1 then (hd nbs, tl nbs) else (bts, nbs));
                  bts = (if sawTopNil then hd nbs else bts) in
              Inr (z, bts))))"

section \<open>Rows on a stream\<close>

definition encodeRow :: "msgp_ops \<Rightarrow> row \<Rightarrow> gerror + bytes" where
  "encodeRow ops row = MarshalMsg ops row []"

definition WriteTo :: "msgp_ops \<Rightarrow> row \<Rightarrow> gwriter \<Rightarrow> gwriter \<times> gerror option" where
  "WriteTo ops row writer =
     (case encodeRow ops row of
        Inl err \<Rightarrow> (writer, Some (Errorf ''WriteTo encoding error'' (Some err)))
      | Inr encoded \<Rightarrow> WriteMessage encoded writer)"

definition DecodeRow :: "msgp_ops \<Rightarrow> bytes \<Rightarrow> gerror + row" where
  "DecodeRow ops encodedBytes =
     (case UnmarshalMsg ops \<lparr>row_K = [], row_V = [], row_T = 0\<rparr> encodedBytes of
        Inl err \<Rightarrow> Inl (Errorf ''decode row error'' (Some err))
      | Inr (row, _) \<Rightarrow> Inr row)"

definition ReadRow :: "msgp_ops \<Rightarrow> greader \<Rightarrow> ((gerror + row) \<times> greader) go" where
  "ReadRow ops reader =
     gbind (ReadMessage reader) (\<lambda>r. case r of
        (Inl hasErr, reader') \<Rightarrow>
          Inr (Inl (if hasErr \<noteq> EOF then Errorf ''ReadRow ReadMessage'' (Some hasErr) else EOF), reader')
      | (Inr encodedBytes, reader') \<Rightarrow>
         (case DecodeRow ops encodedBytes of
            Inl err \<Rightarrow> Inr (Inl (Errorf ''ReadRow failed to decode byte'' (Some err)), reader')
          | Inr row \<Rightarrow> Inr (Inr row, reader')))"

definition process_row :: "msgp_ops \<Rightarrow> int list \<Rightarrow> (row \<Rightarrow> 's \<Rightarrow> ('s \<times> gerror option) go) \<Rightarrow> 's callback" where
  "process_row ops indexes f input s =
     (case DecodeRow ops input of
        Inl err \<Rightarrow> Inr (s, Some (Errorf ''DoLocalDistinct error'' (Some err)))
      | Inr row \<Rightarrow> gbind (UseKeys indexes row) (\<lambda>row. f row s))"

definition ProcessRow :: "msgp_ops \<Rightarrow> greader \<Rightarrow> int list \<Rightarrow> (row \<Rightarrow> 's \<Rightarrow> ('s \<times> gerror option) go) \<Rightarrow> 's \<Rightarrow>
    ('s \<times> gerror option) go" where
  "ProcessRow ops reader indexes f s = ProcessMessage reader (process_row ops indexes f) s"

section \<open>Rows that survive the trip\<close>

definition wire_ok :: "msgp_ops \<Rightarrow> row \<Rightarrow> bool" where
  "wire_ok ops row =
     (case encodeRow ops row of Inl _ \<Rightarrow> False | Inr bs \<Rightarrow> fits bs \<and> DecodeRow ops bs = Inr row)"

definition row_bytes :: "msgp_ops \<Rightarrow> row \<Rightarrow> bytes" where
  "row_bytes ops row = (case encodeRow ops row of Inl _ \<Rightarrow> [] | Inr bs \<Rightarrow> frame bs)"

definition rows_bytes :: "msgp_ops \<Rightarrow> row list \<Rightarrow> bytes" where
  "rows_bytes ops rows = concat (map (row_bytes ops) rows)"

definition rows_reader :: "msgp_ops \<Rightarrow> row list \<Rightarrow> greader" where
  "rows_reader ops rows = \<lparr>r_data = rows_bytes ops rows, r_end = EOF\<rparr>"

fun write_rows :: "msgp_ops \<Rightarrow> row list \<Rightarrow> gwriter \<Rightarrow> gwriter \<times> gerror option" where
  "write_rows ops [] w = (w, None)"
| "write_rows ops (r # rs) w =
     (case WriteTo ops r w of (w', Some err) \<Rightarrow> (w', Some err) | (w', None) \<Rightarrow> write_rows ops rs w')"

lemma rows_bytes_simps [simp]:
  "rows_bytes ops [] = []"
  "rows_bytes ops (r # rs) = row_bytes ops r @ rows_bytes ops rs"
  "rows_bytes ops (rs @ rs') = rows_bytes ops rs @ rows_bytes ops rs'"
  by (simp_all add: rows_bytes_def)

lemma wire_okE:
  assumes "wire_ok ops r"
  obtains bs where "encodeRow ops r = Inr bs" "fits bs" "DecodeRow ops bs = Inr r" "row_bytes ops r = frame bs"
  using assms by (auto simp: wire_ok_def row_bytes_def split: sum.splits)

lemma ReadRow_rows_Nil [simp]: "ReadRow ops (rows_reader ops []) = Inr (Inl EOF, rows_reader ops [])"
  by (simp add: ReadRow_def rows_reader_def)

lemma ReadRow_rows_Cons [simp]:
  "wire_ok ops r \<Longrightarrow> ReadRow ops (rows_reader ops (r # rs)) = Inr (Inr r, rows_reader ops rs)"
  by (erule wire_okE) (simp add: ReadRow_def rows_reader_def)

lemma WriteTo_ok [simp]:
  "wire_ok ops r \<Longrightarrow> w_cap w = None \<Longrightarrow>
     WriteTo ops r w = (w\<lparr>w_data := w_data w @ row_bytes ops r\<rparr>, None)"
  by (erule wire_okE) (simp add: WriteTo_def)

lemma write_rows_ok:
  assumes "\<forall>r\<in>set rs. wire_ok ops r" "write_rows ops rs w = (w', None)"
  shows "w_data w' = w_data w @ rows_bytes ops rs"
  using assms
proof (induction rs arbitrary: w)
  case (Cons r rs)
  then obtain w1 where w1: "WriteTo ops r w = (w1, None)" "write_rows ops rs w1 = (w', None)"
    by (auto split: prod.splits option.splits)
  have "w_data w1 = w_data w @ row_bytes ops r"
    using w1(1) Cons.prems(1) by (auto simp: WriteTo_def elim!: wire_okE dest: WriteMessage_ok)
  with Cons.IH [OF _ w1(2)] Cons.prems(1) show ?case by simp
qed simp

text \<open>Processing a stream of such rows is a fold of the callback over the rows.\<close>

lemma ProcessRow_rows:
  assumes "\<forall>r\<in>set rs. wire_ok ops r"
  shows "ProcessRow ops (rows_reader ops rs) ixs f s =
    fold_msgs (\<lambda>r s. gbind (UseKeys ixs r) (\<lambda>r. f r s)) rs s"
proof -
  have "\<exists>ms. rows_bytes ops rs = concat (map frame ms) \<and> (\<forall>m\<in>set ms. fits m) \<and>
      (\<forall>s. fold_msgs (process_row ops ixs f) ms s =
        fold_msgs (\<lambda>r s. gbind (UseKeys ixs r) (\<lambda>r. f r s)) rs s)"
    using assms
  proof (induction rs)
    case Nil
    show ?case by (intro exI [of _ "[]"]) simp
  next
    case (Cons r rs)
    then obtain ms where ms: "rows_bytes ops rs = concat (map frame ms)" "\<forall>m\<in>set ms. fits m"
        "\<And>s. fold_msgs (process_row ops ixs f) ms s =
          fold_msgs (\<lambda>r s. gbind (UseKeys ixs r) (\<lambda>r. f r s)) rs s"
      by auto
    from Cons.prems obtain bs where bs: "encodeRow ops r = Inr bs" "fits bs" "DecodeRow ops bs = Inr r"
        "row_bytes ops r = frame bs"
      by (auto elim: wire_okE)
    have "process_row ops ixs f bs s = gbind (UseKeys ixs r) (\<lambda>r. f r s)" for s
      by (simp add: process_row_def bs)
    with ms bs show ?case
      by (intro exI [of _ "bs # ms"]) (simp split: sum.split option.split)
  qed
  then show ?thesis by (auto simp: ProcessRow_def rows_reader_def ProcessMessage_frames)
qed

section \<open>The contract of the MessagePack library\<close>

text \<open>
  What the program relies on: headers, keys of six characters and \<^verbatim>\<open>int64\<close> values read back as they
  were written, and so does every value of the types that the reader produces (\<open>canon\<close>); a read in
  nil mode delivers the zero value.
\<close>

lemma row_eq_iff: "\<lparr>row_K = k, row_V = v, row_T = t\<rparr> = r \<longleftrightarrow> k = row_K r \<and> v = row_V r \<and> t = row_T r"
  by (cases r) auto

locale msgp_codec =
  fixes ops :: msgp_ops
    and canon :: "gval \<Rightarrow> bool"
  assumes map_header: "ReadMapHeaderBytes ops (AppendMapHeader ops n @ rest) = Inr (n, rest)"
    and map_not_nil: "\<not> IsNil ops (AppendMapHeader ops n @ rest)"
    and array_header: "ReadArrayHeaderBytes ops (AppendArrayHeader ops n @ rest) = Inr (n, rest)"
    and map_key: "length k = 6 \<Longrightarrow> ReadMapKeyZC ops (0xa6 # k @ rest) = Inr (k, rest)"
    and intf_write: "canon v \<Longrightarrow> \<exists>bs. AppendIntf ops v = Inr bs"
    and intf_read: "canon v \<Longrightarrow> AppendIntf ops v = Inr bs \<Longrightarrow> ReadIntfBytes ops (bs @ rest) = Inr (v, rest)"
    and int64_read: "ReadInt64Bytes ops False (AppendInt64 ops t @ rest) = Inr (t, rest)"
    and int64_nil: "ReadInt64Bytes ops True bts = Inr (0, bts)"
begin

lemma append_intfs_canon:
  "\<forall>v\<in>set vs. canon v \<Longrightarrow> \<exists>bs. \<forall>out. append_intfs ops vs out = Inr (out @ bs) \<and>
     (\<forall>rest. read_intfs ops (length vs) (bs @ rest) = Inr (vs, rest))"
proof (induction vs)
  case Nil
  show ?case by (intro exI [of _ "[]"]) simp
next
  case (Cons v vs)
  then obtain bs where bs: "\<And>out. append_intfs ops vs out = Inr (out @ bs)"
      "\<And>rest. read_intfs ops (length vs) (bs @ rest) = Inr (vs, rest)" by auto
  from Cons.prems obtain b where b: "AppendIntf ops v = Inr b" using intf_write by auto
  then have "ReadIntfBytes ops (b @ rest) = Inr (v, rest)" for rest using Cons.prems intf_read by simp
  with b bs show ?case by (intro exI [of _ "b @ bs"]) simp
qed

lemma marshal_slice_canon:
  assumes "\<forall>v\<in>set vs. canon v" "length vs < 2 ^ 32"
  obtains bs where "\<And>out. marshal_slice ops name vs out = Inr (out @ 0xa6 # name @ bs)"
    "\<And>rest. read_slice ops False (bs @ rest) = Inr (vs, rest)"
proof -
  obtain bs where bs: "\<And>out. append_intfs ops vs out = Inr (out @ bs)"
      "\<And>rest. read_intfs ops (length vs) (bs @ rest) = Inr (vs, rest)"
    using append_intfs_canon [OF assms(1)] by blast
  have "unat (of_nat (length vs) :: 32 word) = length vs"
    using assms(2) by (simp add: unat_of_nat take_bit_nat_eq_self)
  with bs have "\<And>rest. read_slice ops False (AppendArrayHeader ops (of_nat (length vs)) @ bs @ rest) = Inr (vs, rest)"
    by (simp add: read_slice_def array_header)
  with bs show thesis
    by (intro that [of "AppendArrayHeader ops (of_nat (length vs)) @ bs"]) (simp_all add: marshal_slice_def)
qed

lemma unmarshal_key:
  assumes "length k = 6" "0 < n"
  shows "unmarshal_loop ops n miss nm nbs found (0xa6 # k @ rest) z =
    (case unmarshal_field ops k nbs found rest z of
       Inl err \<Rightarrow> Inl err
     | Inr (found, bts, z) \<Rightarrow> unmarshal_loop ops (n - 1) miss nm nbs found bts z)"
  using map_key [OF assms(1)] assms(2) by (subst unmarshal_loop.simps) simp

text \<open>Fields that are not on the wire are empty in the row, and reading them as nil keeps them so.\<close>

lemma unmarshal_missing:
  assumes "length found = 3" "found ! 0 \<or> row_K z = []" "found ! 1 \<or> row_V z = []" "found ! 2 \<or> row_T z = 0"
    and "nm \<ge> 0 \<Longrightarrow> nbs \<noteq> []" "nm < 3"
  shows "\<exists>bts' nm' nbs'. unmarshal_loop ops 0 miss nm nbs found bts z = Inr (z, bts', nm', nbs')"
  using assms
proof (induction "unat miss" arbitrary: miss nm nbs found bts rule: less_induct)
  case less
  show ?case
  proof (cases "miss = 0")
    case True
    then show ?thesis by (simp add: unmarshal_loop.simps)
  next
    case False
    obtain a b c where f: "found = [a, b, c]"
      using less.prems(1) by (auto simp: numeral_3_eq_3 length_Suc_conv)
    define nbs1 where "nbs1 = (if nm < 0 then bts # nbs else nbs)"
    define bts1 where "bts1 = (if nm < 0 then [0xc0] else bts)"
    define j where "j = next_missing (drop (nat nm) found) (nat nm)"
    have nbs1: "nbs1 \<noteq> []" using less.prems(5) by (auto simp: nbs1_def)
    have j: "j \<le> 3" "j < 3 \<Longrightarrow> \<not> found ! j"
      using less.prems(6) by (auto simp: j_def f nat_eq_iff less_Suc_eq numeral_eq_Suc drop_Cons' nth_Cons' split: if_splits)
    have eq: "unmarshal_loop ops 0 miss nm nbs found bts z =
       (if j = 3 then Inr (z, bts1, 3, nbs1)
        else case unmarshal_field ops (unmarshalMsgFieldOrder ! j) nbs1 found bts1 z of
             Inl err \<Rightarrow> Inl err
           | Inr (found, bts, z) \<Rightarrow> unmarshal_loop ops 0 (miss - 1) (int j) nbs1 found bts z)"
      using False by (subst unmarshal_loop.simps) (auto simp: nbs1_def bts1_def j_def Let_def split: sum.split)
    show ?thesis
    proof (cases "j = 3")
      case False
      then have j3: "j = 0 \<or> j = 1 \<or> j = 2" using j(1) by auto
      have "unmarshal_field ops (unmarshalMsgFieldOrder ! j) nbs1 found bts1 z = Inr (found[j := True], bts1, z)"
        using j3 j(2) less.prems(1-4) nbs1
        by (auto simp: unmarshalMsgFieldOrder_def unmarshal_field_def read_slice_def name_K_def name_V_def name_T_def int64_nil)
      moreover have "\<exists>bts' nm' nbs'. unmarshal_loop ops 0 (miss - 1) (int j) nbs1 (found[j := True]) bts1 z
          = Inr (z, bts', nm', nbs')"
        using \<open>miss \<noteq> 0\<close> j3 less.prems(1-4) nbs1
        by (intro less.hyps) (auto simp: unat_pred_less nth_list_update)
      ultimately show ?thesis using False by (simp add: eq)
    qed (simp add: eq)
  qed
qed

lemma unmarshal_from_0:
  "length found = 3 \<Longrightarrow> found ! 0 \<or> row_K z = [] \<Longrightarrow> found ! 1 \<or> row_V z = [] \<Longrightarrow> found ! 2 \<or> row_T z = 0 \<Longrightarrow>
   z = r \<Longrightarrow> \<exists>bts' nm' nbs'. unmarshal_loop ops 0 miss (- 1) [] found bts z = Inr (r, bts', nm', nbs')"
  using unmarshal_missing [of found z "- 1"] by auto

lemma UnmarshalMsg_map:
  assumes "\<exists>bts' nm' nbs'. unmarshal_loop ops (unat n) (3 - n) (- 1) [] [False, False, False] bts z
      = Inr (z', bts', nm', nbs')"
  shows "\<exists>rest. UnmarshalMsg ops z (AppendMapHeader ops n @ bts) = Inr (z', rest)"
  using assms by (auto simp: UnmarshalMsg_def Let_def map_header map_not_nil)

lemma row_roundtrip:
  assumes "\<forall>v\<in>set (row_K r) \<union> set (row_V r). canon v" "length (row_K r) < 2 ^ 32" "length (row_V r) < 2 ^ 32"
  shows "\<exists>bs. encodeRow ops r = Inr bs \<and> DecodeRow ops bs = Inr r"
proof -
  let ?z = "\<lparr>row_K = [], row_V = [], row_T = 0\<rparr>"
  obtain k where k: "\<And>out. marshal_slice ops name_K (row_K r) out = Inr (out @ 0xa6 # name_K @ k)"
      "\<And>rest. read_slice ops False (k @ rest) = Inr (row_K r, rest)"
    using marshal_slice_canon [of "row_K r" name_K] assms by auto
  obtain v where v: "\<And>out. marshal_slice ops name_V (row_V r) out = Inr (out @ 0xa6 # name_V @ v)"
      "\<And>rest. read_slice ops False (v @ rest) = Inr (row_V r, rest)"
    using marshal_slice_canon [of "row_V r" name_V] assms by auto
  define enc where "enc = (if row_K r = [] then [] else 0xa6 # name_K @ k) @
     (if row_V r = [] then [] else 0xa6 # name_V @ v) @
     (if row_T r = 0 then [] else 0xa6 # name_T @ AppendInt64 ops (row_T r))"
  define n :: "32 word" where "n = snd (fieldsNotEmpty r)"
  have e: "encodeRow ops r = Inr (AppendMapHeader ops n @ enc)"
    by (auto simp: encodeRow_def MarshalMsg_def fieldsNotEmpty_def Let_def k v enc_def n_def)
  have names: "length name_K = 6" "length name_V = 6" "length name_T = 6"
    by (simp_all add: name_K_def name_V_def name_T_def)
  have neq: "name_V \<noteq> name_K" "name_T \<noteq> name_K" "name_T \<noteq> name_V"
    by (simp_all add: name_K_def name_V_def name_T_def)
  have "\<exists>bts' nm' nbs'. unmarshal_loop ops (unat n) (3 - n) (- 1) [] [False, False, False] enc ?z
      = Inr (r, bts', nm', nbs')"
  proof -
    have T: "ReadInt64Bytes ops False (AppendInt64 ops (row_T r)) = Inr (row_T r, [])"
      using int64_read [of "row_T r" "[]"] by simp
    have K0: "read_slice ops False k = Inr (row_K r, [])" using k(2) [of "[]"] by simp
    have V0: "read_slice ops False v = Inr (row_V r, [])" using v(2) [of "[]"] by simp
    show ?thesis
      by (cases "row_K r = []"; cases "row_V r = []"; cases "row_T r = 0")
        (simp_all add: n_def fieldsNotEmpty_def Let_def enc_def unmarshal_key names unmarshal_field_def neq
          k(2) v(2) K0 V0 T int64_read unmarshal_from_0 row_eq_iff)
  qed
  then have "\<exists>rest. UnmarshalMsg ops ?z (AppendMapHeader ops n @ enc) = Inr (r, rest)"
    by (rule UnmarshalMsg_map)
  with e show ?thesis by (auto simp: DecodeRow_def)
qed

end

end
