(* ===== verification/PrioQueue.thy ===== *)
theory PrioQueue
  imports Prelude
begin

text \<open>
  The priority queue of \<^verbatim>\<open>util/priority_queue.go\<close> on top of Go's \<^verbatim>\<open>container/heap\<close>. The comparison
  may panic (it compares values of dynamic type), so the operations run in \<open>go\<close>. The lock
  only protects the queue against concurrent use and has no counterpart here.
\<close>

record 'a Item =
  item_value :: 'a
  item_index :: int
  item_sourceId :: int

record 'a PriorityQueue =
  pq_lessFunc :: "'a \<Rightarrow> 'a \<Rightarrow> bool go"
  pq_items :: "'a Item list"

section \<open>The heap interface: Len, Less, Swap, Push, Pop\<close>

definition pq_Len :: "'a PriorityQueue \<Rightarrow> nat" where
  "pq_Len pq = length (pq_items pq)"

definition pq_Less :: "'a PriorityQueue \<Rightarrow> int \<Rightarrow> int \<Rightarrow> bool go" where
  "pq_Less pq i j =
     gbind (go_index (pq_items pq) i) (\<lambda>a.
     gbind (go_index (pq_items pq) j) (\<lambda>b. pq_lessFunc pq (item_value a) (item_value b)))"

definition pq_Swap :: "int \<Rightarrow> int \<Rightarrow> 'a PriorityQueue \<Rightarrow> 'a PriorityQueue go" where
  "pq_Swap i j pq =
     gbind (go_index (pq_items pq) i) (\<lambda>a.
     gbind (go_index (pq_items pq) j) (\<lambda>b.
       let its = (pq_items pq)[nat i := b, nat j := a];
           its = its[nat i := (its ! nat i)\<lparr>item_index := i\<rparr>];
           its = its[nat j := (its ! nat j)\<lparr>item_index := j\<rparr>]
       in Inr (pq\<lparr>pq_items := its\<rparr>)))"

definition pq_Push :: "'a Item \<Rightarrow> 'a PriorityQueue \<Rightarrow> 'a PriorityQueue" where
  "pq_Push x pq = pq\<lparr>pq_items := pq_items pq @ [x\<lparr>item_index := int (pq_Len pq)\<rparr>]\<rparr>"

definition pq_Pop :: "'a PriorityQueue \<Rightarrow> ('a PriorityQueue \<times> 'a Item) go" where
  "pq_Pop pq =
     gbind (go_index (pq_items pq) (int (pq_Len pq) - 1)) (\<lambda>item.
       Inr (pq\<lparr>pq_items := butlast (pq_items pq)\<rparr>, item\<lparr>item_index := - 1\<rparr>))"

section \<open>container/heap\<close>

function heap_up :: "nat \<Rightarrow> 'a PriorityQueue \<Rightarrow> 'a PriorityQueue go" where
  "heap_up j pq =
     (let i = (j - 1) div 2 in
      if i = j then Inr pq
      else gbind (pq_Less pq (int j) (int i)) (\<lambda>b.
        if \<not> b then Inr pq else gbind (pq_Swap (int i) (int j) pq) (\<lambda>pq. heap_up i pq)))"
  by pat_completeness auto
termination
  by (relation "measure fst") auto

function heap_down :: "nat \<Rightarrow> nat \<Rightarrow> 'a PriorityQueue \<Rightarrow> 'a PriorityQueue go" where
  "heap_down i n pq =
     (let j1 = 2 * i + 1; j2 = j1 + 1 in
      if j1 \<ge> n then Inr pq
      else gbind (if j2 < n then pq_Less pq (int j2) (int j1) else Inr False) (\<lambda>right.
        let j = (if right then j2 else j1) in
        gbind (pq_Less pq (int j) (int i)) (\<lambda>b.
          if \<not> b then Inr pq else gbind (pq_Swap (int i) (int j) pq) (\<lambda>pq. heap_down j n pq))))"
  by pat_completeness auto
termination
  by (relation "measure (\<lambda>(i, n, pq). n - i)") auto

declare heap_up.simps [simp del] heap_down.simps [simp del]

definition heap_Init :: "'a PriorityQueue \<Rightarrow> 'a PriorityQueue go" where
  "heap_Init pq =
     (let n = pq_Len pq in gfold (\<lambda>pq i. heap_down i n pq) pq (rev [0..<n div 2]))"

definition heap_Push :: "'a Item \<Rightarrow> 'a PriorityQueue \<Rightarrow> 'a PriorityQueue go" where
  "heap_Push x pq = (let pq = pq_Push x pq in heap_up (pq_Len pq - 1) pq)"

definition heap_Pop :: "'a PriorityQueue \<Rightarrow> ('a PriorityQueue \<times> 'a Item) go" where
  "heap_Pop pq =
     (let n = int (pq_Len pq) - 1 in
      gbind (pq_Swap 0 n pq) (\<lambda>pq. gbind (heap_down 0 (nat n) pq) pq_Pop))"

section \<open>The queue\<close>

definition NewPriorityQueue :: "('a \<Rightarrow> 'a \<Rightarrow> bool go) \<Rightarrow> 'a PriorityQueue go" where
  "NewPriorityQueue lessFunc = heap_Init \<lparr>pq_lessFunc = lessFunc, pq_items = []\<rparr>"

definition Enqueue :: "'a \<Rightarrow> int \<Rightarrow> 'a PriorityQueue \<Rightarrow> 'a PriorityQueue go" where
  "Enqueue x sourceId pq =
     heap_Push \<lparr>item_value = x, item_index = 0, item_sourceId = sourceId\<rparr> pq"

definition Dequeue :: "'a PriorityQueue \<Rightarrow> ('a PriorityQueue \<times> 'a \<times> int) go" where
  "Dequeue pq = gbind (heap_Pop pq) (\<lambda>(pq, item). Inr (pq, item_value item, item_sourceId item))"

definition Top :: "'a PriorityQueue \<Rightarrow> 'a go" where
  "Top pq = gbind (go_index (pq_items pq) 0) (\<lambda>item. Inr (item_value item))"

section \<open>A pure heap on lists\<close>

text \<open>The same steps without panics and without the bookkeeping of indexes.\<close>

definition hswap :: "nat \<Rightarrow> nat \<Rightarrow> 'b list \<Rightarrow> 'b list" where
  "hswap i j xs = xs[i := xs ! j, j := xs ! i]"

function up :: "('b \<Rightarrow> 'b \<Rightarrow> bool) \<Rightarrow> nat \<Rightarrow> 'b list \<Rightarrow> 'b list" where
  "up lt j xs =
     (let i = (j - 1) div 2 in
      if i = j \<or> \<not> lt (xs ! j) (xs ! i) then xs else up lt i (hswap i j xs))"
  by pat_completeness auto
termination
  by (relation "measure (\<lambda>(lt, j, xs). j)") auto

definition min_child :: "('b \<Rightarrow> 'b \<Rightarrow> bool) \<Rightarrow> nat \<Rightarrow> nat \<Rightarrow> 'b list \<Rightarrow> nat" where
  "min_child lt i n xs =
     (if 2 * i + 2 < n \<and> lt (xs ! (2 * i + 2)) (xs ! (2 * i + 1)) then 2 * i + 2 else 2 * i + 1)"

function down :: "('b \<Rightarrow> 'b \<Rightarrow> bool) \<Rightarrow> nat \<Rightarrow> nat \<Rightarrow> 'b list \<Rightarrow> 'b list" where
  "down lt i n xs =
     (let j = min_child lt i n xs in
      if 2 * i + 1 \<ge> n \<or> \<not> lt (xs ! j) (xs ! i) then xs else down lt j n (hswap i j xs))"
  by pat_completeness auto
termination
  by (relation "measure (\<lambda>(lt, i, n, xs). n - i)") (auto simp: min_child_def)

declare up.simps [simp del] down.simps [simp del]

lemma length_hswap [simp]: "length (hswap i j xs) = length xs"
  by (simp add: hswap_def)

lemma mset_hswap [simp]: "i < length xs \<Longrightarrow> j < length xs \<Longrightarrow> mset (hswap i j xs) = mset xs"
  unfolding hswap_def by (rule mset_swap)

lemma nth_hswap:
  "i < length xs \<Longrightarrow> j < length xs \<Longrightarrow>
     hswap i j xs ! k = (if k = j then xs ! i else if k = i then xs ! j else xs ! k)"
  by (auto simp: hswap_def nth_list_update)

lemma parent_less: "0 < (k :: nat) \<Longrightarrow> (k - 1) div 2 < k"
  by auto

lemma mset_up: "j < length xs \<Longrightarrow> mset (up lt j xs) = mset xs"
proof (induction lt j xs rule: up.induct)
  case (1 lt j xs)
  show ?case
  proof (cases "(j - 1) div 2 = j \<or> \<not> lt (xs ! j) (xs ! ((j - 1) div 2))")
    case False
    then have "(j - 1) div 2 < length xs" using "1.prems" by (cases j) auto
    with False 1 show ?thesis by (subst up.simps) (simp add: Let_def)
  qed (simp add: up.simps)
qed

lemma min_child_bounds: "2 * i + 1 < n \<Longrightarrow> i < min_child lt i n xs \<and> min_child lt i n xs < n"
  by (auto simp: min_child_def)

lemma mset_down: "n \<le> length xs \<Longrightarrow> mset (down lt i n xs) = mset xs"
proof (induction lt i n xs rule: down.induct)
  case (1 lt i n xs)
  show ?case
  proof (cases "2 * i + 1 \<ge> n \<or> \<not> lt (xs ! min_child lt i n xs) (xs ! i)")
    case False
    then have "i < length xs" "min_child lt i n xs < length xs"
      using "1.prems" min_child_bounds [of i n lt xs] by auto
    with False 1 show ?thesis by (subst down.simps) (simp add: Let_def)
  qed (simp add: down.simps)
qed

lemma nth_down_above: "n \<le> length xs \<Longrightarrow> n \<le> k \<Longrightarrow> down lt i n xs ! k = xs ! k"
proof (induction lt i n xs rule: down.induct)
  case (1 lt i n xs)
  show ?case
  proof (cases "2 * i + 1 \<ge> n \<or> \<not> lt (xs ! min_child lt i n xs) (xs ! i)")
    case False
    then have "i < n" "min_child lt i n xs < n" using min_child_bounds [of i n lt xs] by auto
    with False 1 show ?thesis by (subst down.simps) (simp add: Let_def nth_hswap)
  qed (simp add: down.simps)
qed

section \<open>Heap order\<close>

abbreviation parent :: "nat \<Rightarrow> nat" where
  "parent k \<equiv> (k - 1) div 2"

definition heap_n :: "('b \<Rightarrow> 'b \<Rightarrow> bool) \<Rightarrow> nat \<Rightarrow> 'b list \<Rightarrow> bool" where
  "heap_n lt n xs \<longleftrightarrow> (\<forall>k. 0 < k \<and> k < n \<longrightarrow> \<not> lt (xs ! k) (xs ! parent k))"

text \<open>
  A heap with one defect: only the node \<open>j\<close> may be smaller than its parent (while it moves up), or
  larger than its children (while it moves down); its children are in order with its parent.
\<close>

definition defect_up :: "('b \<Rightarrow> 'b \<Rightarrow> bool) \<Rightarrow> nat \<Rightarrow> nat \<Rightarrow> 'b list \<Rightarrow> bool" where
  "defect_up lt j n xs \<longleftrightarrow>
     (\<forall>k. 0 < k \<and> k < n \<and> k \<noteq> j \<longrightarrow> \<not> lt (xs ! k) (xs ! parent k)) \<and>
     (\<forall>k. 0 < k \<and> k < n \<and> parent k = j \<and> 0 < j \<longrightarrow> \<not> lt (xs ! k) (xs ! parent j))"

definition defect_down :: "('b \<Rightarrow> 'b \<Rightarrow> bool) \<Rightarrow> nat \<Rightarrow> nat \<Rightarrow> 'b list \<Rightarrow> bool" where
  "defect_down lt i n xs \<longleftrightarrow>
     (\<forall>k. 0 < k \<and> k < n \<and> parent k \<noteq> i \<longrightarrow> \<not> lt (xs ! k) (xs ! parent k)) \<and>
     (\<forall>k. 0 < k \<and> k < n \<and> parent k = i \<and> 0 < i \<longrightarrow> \<not> lt (xs ! k) (xs ! parent i))"

locale heap_order =
  fixes S :: "'b set"
    and lt :: "'b \<Rightarrow> 'b \<Rightarrow> bool"
  assumes swo: "swo_on S lt"
begin

lemma nth_trans:
  "set xs \<subseteq> S \<Longrightarrow> a < length xs \<Longrightarrow> b < length xs \<Longrightarrow> c < length xs \<Longrightarrow>
     \<not> lt (xs ! b) (xs ! a) \<Longrightarrow> \<not> lt (xs ! c) (xs ! b) \<Longrightarrow> \<not> lt (xs ! c) (xs ! a)"
  using swo_on_trans [OF swo, of "xs ! a" "xs ! b" "xs ! c"] by (meson nth_mem subsetD)

lemma nth_asym:
  "set xs \<subseteq> S \<Longrightarrow> a < length xs \<Longrightarrow> b < length xs \<Longrightarrow> lt (xs ! a) (xs ! b) \<Longrightarrow> \<not> lt (xs ! b) (xs ! a)"
  using swo_on_asym [OF swo, of "xs ! a" "xs ! b"] by (meson nth_mem subsetD)

lemma up_step:
  assumes "set xs \<subseteq> S" "j < length xs" "0 < j" "lt (xs ! j) (xs ! parent j)" "defect_up lt j (length xs) xs"
  shows "defect_up lt (parent j) (length xs) (hswap (parent j) j xs)"
proof -
  let ?i = "parent j" and ?ys = "hswap (parent j) j xs"
  have i: "?i < length xs" "?i < j" using assms(2,3) by auto
  note d1 = assms(5) [unfolded defect_up_def, THEN conjunct1, rule_format]
    and d2 = assms(5) [unfolded defect_up_def, THEN conjunct2, rule_format]
  have ij: "\<not> lt (xs ! ?i) (xs ! j)" using nth_asym [OF assms(1,2) i(1) assms(4)] .
  have 1: "\<not> lt (?ys ! k) (?ys ! parent k)" if k: "0 < k" "k < length xs" "k \<noteq> ?i" for k
  proof -
    have pk: "parent k < k" using k(1) by auto
    consider "k = j" | "k \<noteq> j" "parent k = ?i" | "k \<noteq> j" "parent k = j" | "k \<noteq> j" "parent k \<noteq> ?i" "parent k \<noteq> j"
      by blast
    then show ?thesis
    proof cases
      case 2
      then show ?thesis
        using nth_trans [OF assms(1,2) i(1) k(2) ij] d1 [of k] k i assms(2) by (simp add: nth_hswap)
    next
      case 3
      then show ?thesis using d2 [of k] k i assms(2,3) by (simp add: nth_hswap)
    qed (use k i assms(2) ij d1 [of k] in \<open>simp_all add: nth_hswap\<close>)
  qed
  have 2: "\<not> lt (?ys ! k) (?ys ! parent ?i)" if k: "0 < k" "k < length xs" "parent k = ?i" "0 < ?i" for k
  proof -
    have pi: "parent ?i < ?i" using k(4) by auto
    have up: "\<not> lt (xs ! ?i) (xs ! parent ?i)" using d1 [of ?i] i k(4) by simp
    have y: "?ys ! parent ?i = xs ! parent ?i" using pi i assms(2) by (simp add: nth_hswap)
    have ki: "k \<noteq> ?i" using k(3) pi by auto
    show ?thesis
    proof (cases "k = j")
      case False
      with ki have "\<not> lt (xs ! k) (xs ! ?i)" "?ys ! k = xs ! k" using d1 [of k] k i assms(2) by (auto simp: nth_hswap)
      then show ?thesis using nth_trans [OF assms(1) _ i(1) k(2) up] pi i y by simp
    qed (use up y i assms(2) in \<open>simp add: nth_hswap\<close>)
  qed
  from 1 2 show ?thesis unfolding defect_up_def by blast
qed

lemma up_heap:
  "set xs \<subseteq> S \<Longrightarrow> j < length xs \<Longrightarrow> defect_up lt j (length xs) xs \<Longrightarrow> heap_n lt (length xs) (up lt j xs)"
proof (induction j arbitrary: xs rule: less_induct)
  case (less j)
  show ?case
  proof (cases "parent j = j \<or> \<not> lt (xs ! j) (xs ! parent j)")
    case True
    then have "heap_n lt (length xs) xs"
      using less.prems(3) unfolding heap_n_def defect_up_def by (metis parent_less less_irrefl)
    with True show ?thesis by (simp add: up.simps Let_def)
  next
    case False
    then have j: "0 < j" "parent j < j" by (cases j; auto)+
    have eq: "up lt j xs = up lt (parent j) (hswap (parent j) j xs)"
      using False by (subst up.simps) (simp add: Let_def)
    have "set (hswap (parent j) j xs) \<subseteq> S"
      using mset_eq_set [OF mset_hswap, of "parent j" xs j] j less.prems(1,2) by simp
    with less.IH [OF j(2) this] up_step [OF less.prems(1,2) j(1) _ less.prems(3)] False j less.prems(2)
    show ?thesis by (simp add: eq)
  qed
qed

lemma min_child_least:
  assumes "set xs \<subseteq> S" "n \<le> length xs" "0 < k" "k < n" "parent k = i"
  shows "\<not> lt (xs ! k) (xs ! min_child lt i n xs)"
proof -
  have "k = 2 * i + 1 \<or> k = 2 * i + 2" using assms(3,5) by arith
  moreover have "\<not> lt (xs ! k) (xs ! k)" using nth_asym [of xs k k] assms by auto
  ultimately show ?thesis
    using nth_asym [OF assms(1), of "2 * i + 2" "2 * i + 1"] assms(2,4) by (auto simp: min_child_def)
qed

lemma down_step:
  assumes "set xs \<subseteq> S" "n \<le> length xs" "2 * i + 1 < n" "lt (xs ! min_child lt i n xs) (xs ! i)" "defect_down lt i n xs"
  shows "defect_down lt (min_child lt i n xs) n (hswap i (min_child lt i n xs) xs)"
proof -
  let ?j = "min_child lt i n xs" and ?ys = "hswap i (min_child lt i n xs) xs"
  have j: "i < ?j" "?j < n" "parent ?j = i" using assms(3) by (auto simp: min_child_def)
  have len: "i < length xs" "?j < length xs" using j assms(2) by auto
  note d1 = assms(5) [unfolded defect_down_def, THEN conjunct1, rule_format]
    and d2 = assms(5) [unfolded defect_down_def, THEN conjunct2, rule_format]
  have 1: "\<not> lt (?ys ! k) (?ys ! parent k)" if k: "0 < k" "k < n" "parent k \<noteq> ?j" for k
  proof -
    have pk: "parent k < k" using k(1) by auto
    consider "k = i" | "k = ?j" | "k \<noteq> ?j" "parent k = i" | "k \<noteq> i" "k \<noteq> ?j" "parent k \<noteq> i" by blast
    then show ?thesis
    proof cases
      case 1
      then show ?thesis using d2 [of ?j] k j len pk by (simp add: nth_hswap)
    next
      case 2
      then show ?thesis using nth_asym [OF assms(1) len(2,1) assms(4)] j len by (simp add: nth_hswap)
    next
      case 3
      then show ?thesis
        using min_child_least [OF assms(1,2) k(1,2) 3(2)] pk j len by (simp add: nth_hswap)
    qed (use k len d1 [of k] in \<open>simp add: nth_hswap\<close>)
  qed
  have 2: "\<not> lt (?ys ! k) (?ys ! parent ?j)" if k: "0 < k" "k < n" "parent k = ?j" for k
  proof -
    have pk: "parent k < k" using k(1) by auto
    then show ?thesis using d1 [of k] k j len by (simp add: nth_hswap)
  qed
  from 1 2 show ?thesis unfolding defect_down_def by blast
qed

lemma down_heap:
  "set xs \<subseteq> S \<Longrightarrow> n \<le> length xs \<Longrightarrow> defect_down lt i n xs \<Longrightarrow> heap_n lt n (down lt i n xs)"
proof (induction "n - i" arbitrary: i xs rule: less_induct)
  case less
  let ?j = "min_child lt i n xs"
  show ?case
  proof (cases "2 * i + 1 \<ge> n \<or> \<not> lt (xs ! ?j) (xs ! i)")
    case True
    have "\<not> lt (xs ! k) (xs ! parent k)" if k: "0 < k" "k < n" for k
    proof (cases "parent k = i")
      case i: True
      then have "2 * i + 1 < n" using k by arith
      with True have "\<not> lt (xs ! ?j) (xs ! i)" "?j < length xs" "i < length xs"
        using less.prems(2) min_child_bounds [of i n lt xs] by auto
      with min_child_least [OF less.prems(1,2) k i] nth_trans [OF less.prems(1), of i ?j k] k less.prems(2) i
      show ?thesis by simp
    qed (use less.prems(3) k in \<open>simp add: defect_down_def\<close>)
    with True show ?thesis by (simp add: down.simps Let_def heap_n_def)
  next
    case False
    then have j: "i < ?j" "?j < n" using min_child_bounds [of i n lt xs] by auto
    have eq: "down lt i n xs = down lt ?j n (hswap i ?j xs)"
      using False by (subst down.simps) (simp add: Let_def)
    have "set (hswap i ?j xs) \<subseteq> S"
      using mset_eq_set [OF mset_hswap, of i xs ?j] j less.prems(1,2) by simp
    with less.hyps [of ?j "hswap i ?j xs"] down_step [OF less.prems(1,2) _ _ less.prems(3)] False j less.prems(2)
    show ?thesis by (simp add: eq)
  qed
qed

lemma heap_root_least:
  assumes "set xs \<subseteq> S" "n \<le> length xs" "heap_n lt n xs"
  shows "k < n \<Longrightarrow> \<not> lt (xs ! k) (xs ! 0)"
proof (induction k rule: less_induct)
  case (less k)
  show ?case
  proof (cases "k = 0")
    case True
    then have "0 < length xs" using less.prems assms(2) by linarith
    with True show ?thesis using nth_asym [OF assms(1), of 0 0] by blast
  next
    case False
    then have "parent k < k" by auto
    with less have "\<not> lt (xs ! parent k) (xs ! 0)" by simp
    moreover have "\<not> lt (xs ! k) (xs ! parent k)" using assms(3) False less.prems by (simp add: heap_n_def)
    moreover have "parent k < length xs" "k < length xs" "0 < length xs"
      using less.prems assms(2) by linarith+
    ultimately show ?thesis using nth_trans [OF assms(1), of 0 "parent k" k] by blast
  qed
qed

end

section \<open>The queue refines the pure heap\<close>

definition strip :: "'a Item \<Rightarrow> 'a \<times> int" where
  "strip it = (item_value it, item_sourceId it)"

definition pq_list :: "'a PriorityQueue \<Rightarrow> ('a \<times> int) list" where
  "pq_list pq = map strip (pq_items pq)"

definition indexed :: "'a PriorityQueue \<Rightarrow> bool" where
  "indexed pq \<longleftrightarrow> map item_index (pq_items pq) = map int [0..<length (pq_items pq)]"

definition ltp :: "('a \<Rightarrow> 'a \<Rightarrow> bool) \<Rightarrow> 'a \<times> int \<Rightarrow> 'a \<times> int \<Rightarrow> bool" where
  "ltp lt a b = lt (fst a) (fst b)"

definition pq_ok :: "('a \<Rightarrow> 'a \<Rightarrow> bool go) \<Rightarrow> 'a set \<Rightarrow> 'a PriorityQueue \<Rightarrow> bool" where
  "pq_ok lessFunc S pq \<longleftrightarrow> pq_lessFunc pq = lessFunc \<and> set (pq_list pq) \<subseteq> {p. fst p \<in> S} \<and> indexed pq"

definition pq_inv :: "('a \<Rightarrow> 'a \<Rightarrow> bool go) \<Rightarrow> ('a \<Rightarrow> 'a \<Rightarrow> bool) \<Rightarrow> 'a set \<Rightarrow> 'a PriorityQueue \<Rightarrow> bool" where
  "pq_inv lessFunc lt S pq \<longleftrightarrow> pq_ok lessFunc S pq \<and> heap_n (ltp lt) (length (pq_list pq)) (pq_list pq)"

lemma indexed_iff: "indexed pq \<longleftrightarrow> (\<forall>i<length (pq_items pq). item_index (pq_items pq ! i) = int i)"
  unfolding indexed_def list_eq_iff_nth_eq by simp

locale total_less =
  fixes lessFunc :: "'a \<Rightarrow> 'a \<Rightarrow> bool go"
    and lt :: "'a \<Rightarrow> 'a \<Rightarrow> bool"
    and S :: "'a set"
  assumes less_total: "x \<in> S \<Longrightarrow> y \<in> S \<Longrightarrow> lessFunc x y = Inr (lt x y)"
    and lt_swo: "swo_on S lt"
begin

lemma ltp_swo: "swo_on {p. fst p \<in> S} (ltp lt)"
proof -
  have "swo_on (fst ` {p :: 'a \<times> int. fst p \<in> S}) lt" by (rule swo_on_subset [OF lt_swo]) auto
  then show ?thesis unfolding ltp_def by (rule swo_on_image)
qed

end

sublocale total_less \<subseteq> ho: heap_order "{p. fst p \<in> S}" "ltp lt"
  by unfold_locales (rule ltp_swo)

context total_less
begin

lemma length_pq_list [simp]: "length (pq_list pq) = length (pq_items pq)"
  by (simp add: pq_list_def)

lemma pq_Less_ok:
  assumes "pq_ok lessFunc S pq" "i < length (pq_items pq)" "j < length (pq_items pq)"
  shows "pq_Less pq (int i) (int j) = Inr (ltp lt (pq_list pq ! i) (pq_list pq ! j))"
proof -
  have "item_value (pq_items pq ! k) \<in> S" if "k < length (pq_items pq)" for k
    using assms(1) nth_mem [OF that] by (auto simp: pq_ok_def pq_list_def strip_def)
  with assms show ?thesis
    by (simp add: pq_Less_def pq_ok_def less_total pq_list_def strip_def ltp_def)
qed

lemma pq_Swap_ok:
  assumes "pq_ok lessFunc S pq" "i < length (pq_items pq)" "j < length (pq_items pq)"
  obtains pq' where "pq_Swap (int i) (int j) pq = Inr pq'" "pq_ok lessFunc S pq'" "pq_list pq' = hswap i j (pq_list pq)"
proof -
  let ?a = "pq_items pq ! i" and ?b = "pq_items pq ! j"
  let ?its = "(pq_items pq)[i := ?b\<lparr>item_index := int i\<rparr>, j := ?a\<lparr>item_index := int j\<rparr>]"
  let ?q = "pq\<lparr>pq_items := ?its\<rparr>"
  have eq: "pq_Swap (int i) (int j) pq = Inr ?q"
    using assms(2,3) by (cases "i = j") (auto simp: pq_Swap_def Let_def list_update_swap)
  have l: "pq_list ?q = hswap i j (pq_list pq)"
    using assms(2,3) by (simp add: pq_list_def strip_def hswap_def map_update)
  have "set (pq_list ?q) = set (pq_list pq)"
    unfolding l by (rule mset_eq_set) (use assms in simp)
  moreover have "indexed ?q"
    using assms by (auto simp: pq_ok_def indexed_iff nth_list_update)
  ultimately have "pq_ok lessFunc S ?q" using assms(1) by (simp add: pq_ok_def)
  with eq l that show thesis by blast
qed

lemma heap_up_refines:
  "pq_ok lessFunc S pq \<Longrightarrow> j < length (pq_items pq) \<Longrightarrow>
     \<exists>pq'. heap_up j pq = Inr pq' \<and> pq_ok lessFunc S pq' \<and> pq_list pq' = up (ltp lt) j (pq_list pq)"
proof (induction j arbitrary: pq rule: less_induct)
  case (less j)
  let ?i = "parent j"
  show ?case
  proof (cases "?i = j")
    case True
    then have "j = 0" by arith
    with less.prems show ?thesis by (simp add: heap_up.simps [of 0] up.simps [of _ 0])
  next
    case False
    then have i: "?i < j" by (cases j) auto
    then have il: "?i < length (pq_items pq)" using less.prems(2) by simp
    note l = pq_Less_ok [OF less.prems(1,2) il]
    obtain q where q: "pq_Swap (int ?i) (int j) pq = Inr q" "pq_ok lessFunc S q" "pq_list q = hswap ?i j (pq_list pq)"
      using pq_Swap_ok [OF less.prems(1) il less.prems(2)] by blast
    have "length (pq_items q) = length (pq_items pq)" using arg_cong [OF q(3), of length] by simp
    then obtain q' where "heap_up ?i q = Inr q'" "pq_ok lessFunc S q'" "pq_list q' = up (ltp lt) ?i (pq_list q)"
      using less.IH [OF i q(2)] il by auto
    with False l q less.prems show ?thesis
      by (subst heap_up.simps, subst up.simps) (auto simp: Let_def)
  qed
qed

lemma heap_down_refines:
  "pq_ok lessFunc S pq \<Longrightarrow> n \<le> length (pq_items pq) \<Longrightarrow>
     \<exists>pq'. heap_down i n pq = Inr pq' \<and> pq_ok lessFunc S pq' \<and> pq_list pq' = down (ltp lt) i n (pq_list pq)"
proof (induction "n - i" arbitrary: i pq rule: less_induct)
  case less
  let ?j = "min_child (ltp lt) i n (pq_list pq)"
  show ?case
  proof (cases "2 * i + 1 \<ge> n")
    case True
    with less.prems show ?thesis by (simp add: heap_down.simps down.simps Let_def)
  next
    case False
    then have j: "i < ?j" "?j < n" using min_child_bounds [of i n "ltp lt" "pq_list pq"] by auto
    then have len: "i < length (pq_items pq)" "?j < length (pq_items pq)" using less.prems(2) by auto
    have right: "(if 2 * i + 1 + 1 < n then pq_Less pq (int (2 * i + 1 + 1)) (int (2 * i + 1)) else Inr False) =
        Inr (2 * i + 2 < n \<and> ltp lt (pq_list pq ! (2 * i + 2)) (pq_list pq ! (2 * i + 1)))"
      using pq_Less_ok [OF less.prems(1), of "2 * i + 2" "2 * i + 1"] less.prems(2) by simp
    note l = pq_Less_ok [OF less.prems(1) len(2,1)]
    obtain q where q: "pq_Swap (int i) (int ?j) pq = Inr q" "pq_ok lessFunc S q" "pq_list q = hswap i ?j (pq_list pq)"
      using pq_Swap_ok [OF less.prems(1) len] by blast
    have "length (pq_items q) = length (pq_items pq)" using arg_cong [OF q(3), of length] by simp
    moreover have "n - ?j < n - i" using j by linarith
    ultimately obtain q' where q': "heap_down ?j n q = Inr q'" "pq_ok lessFunc S q'"
        "pq_list q' = down (ltp lt) ?j n (pq_list q)"
      using less.hyps [of ?j q] less.prems(2) q(2) by auto
    have child: "(if 2 * i + 2 < n \<and> ltp lt (pq_list pq ! (2 * i + 2)) (pq_list pq ! (2 * i + 1))
        then 2 * i + 1 + 1 else 2 * i + 1) = ?j"
      by (simp add: min_child_def)
    have "heap_down i n pq = gbind (pq_Less pq (int ?j) (int i)) (\<lambda>b.
          if \<not> b then Inr pq else gbind (pq_Swap (int i) (int ?j) pq) (\<lambda>pq. heap_down ?j n pq))"
      unfolding heap_down.simps [of i n pq] Let_def right gbind_Inr child using False by simp
    moreover have "down (ltp lt) i n (pq_list pq) =
        (if \<not> ltp lt (pq_list pq ! ?j) (pq_list pq ! i) then pq_list pq else down (ltp lt) ?j n (hswap i ?j (pq_list pq)))"
      using False by (subst down.simps) (simp add: Let_def)
    ultimately show ?thesis using l q q' less.prems(1) by auto
  qed
qed

lemma NewPriorityQueue_ok:
  "\<exists>pq. NewPriorityQueue lessFunc = Inr pq \<and> pq_inv lessFunc lt S pq \<and> pq_list pq = []"
  by (simp add: NewPriorityQueue_def heap_Init_def pq_Len_def pq_inv_def pq_ok_def pq_list_def indexed_def heap_n_def)

lemma Enqueue_ok:
  assumes "pq_inv lessFunc lt S pq" "x \<in> S"
  shows "\<exists>pq'. Enqueue x src pq = Inr pq' \<and> pq_inv lessFunc lt S pq' \<and>
    mset (pq_list pq') = add_mset (x, src) (mset (pq_list pq))"
proof -
  let ?n = "length (pq_items pq)"
  define q where "q = pq_Push \<lparr>item_value = x, item_index = 0, item_sourceId = src\<rparr> pq"
  have q: "pq_list q = pq_list pq @ [(x, src)]" by (simp add: q_def pq_Push_def pq_list_def strip_def)
  have len: "length (pq_items q) = Suc ?n" using arg_cong [OF q, of length] by simp
  have ok: "pq_ok lessFunc S q"
    using assms q by (auto simp: pq_inv_def pq_ok_def indexed_def q_def pq_Push_def pq_Len_def)
  have heap: "heap_n (ltp lt) ?n (pq_list pq)" using assms(1) by (simp add: pq_inv_def)
  have "defect_up (ltp lt) ?n (Suc ?n) (pq_list q)"
  proof -
    have "\<not> ltp lt (pq_list q ! k) (pq_list q ! parent k)" if "0 < k" "k < ?n" for k
      using heap that less_trans [OF parent_less [OF that(1)] that(2)] by (simp add: heap_n_def q nth_append)
    moreover have "\<not> (0 < k \<and> k < Suc ?n \<and> parent k = ?n \<and> 0 < ?n)" for k by auto
    ultimately show ?thesis unfolding defect_up_def by auto
  qed
  then have h: "heap_n (ltp lt) (Suc ?n) (up (ltp lt) ?n (pq_list q))"
    using ho.up_heap [of "pq_list q" ?n] ok len by (simp add: pq_ok_def)
  obtain q' where q': "heap_up ?n q = Inr q'" "pq_ok lessFunc S q'" "pq_list q' = up (ltp lt) ?n (pq_list q)"
    using heap_up_refines [OF ok, of ?n] len by auto
  have m: "mset (pq_list q') = add_mset (x, src) (mset (pq_list pq))"
    using q'(3) len by (simp add: mset_up q)
  have "length (pq_items q') = Suc ?n" using mset_eq_length [of "pq_list q'" "pq_list q"] m q by simp
  with q' h m show ?thesis
    using len by (auto simp: Enqueue_def heap_Push_def q_def [symmetric] Let_def pq_Len_def pq_inv_def)
qed

lemma Dequeue_ok:
  assumes "pq_inv lessFunc lt S pq" "pq_list pq \<noteq> []"
  shows "\<exists>pq' x src. Dequeue pq = Inr (pq', x, src) \<and> pq_inv lessFunc lt S pq' \<and> (x, src) = hd (pq_list pq) \<and>
    mset (pq_list pq) = add_mset (x, src) (mset (pq_list pq')) \<and> (\<forall>p\<in>set (pq_list pq). \<not> lt (fst p) x)"
proof -
  define xs where "xs = pq_list pq"
  define m where "m = length xs - 1"
  have len: "length xs = Suc m" "length (pq_items pq) = Suc m" using assms(2) by (simp_all add: m_def xs_def pq_list_def)
  have ok: "pq_ok lessFunc S pq" and heap: "heap_n (ltp lt) (Suc m) xs"
    using assms(1) len by (auto simp: pq_inv_def xs_def)
  have S: "set xs \<subseteq> {p. fst p \<in> S}" using ok by (simp add: pq_ok_def xs_def)
  obtain q where q: "pq_Swap 0 (int m) pq = Inr q" "pq_ok lessFunc S q" "pq_list q = hswap 0 m xs"
    using pq_Swap_ok [OF ok, of 0 m] len by (auto simp: xs_def)
  have ql: "length (pq_items q) = Suc m" using arg_cong [OF q(3), of length] len by simp
  obtain q' where q': "heap_down 0 m q = Inr q'" "pq_ok lessFunc S q'" "pq_list q' = down (ltp lt) 0 m (pq_list q)"
    using heap_down_refines [OF q(2), of m 0] ql by auto
  have "set (hswap 0 m xs) = set xs" by (rule mset_eq_set) (simp add: len)
  then have Sq: "set (pq_list q) \<subseteq> {p. fst p \<in> S}" using S q(3) by simp
  have "defect_down (ltp lt) 0 m (pq_list q)"
    using heap len unfolding defect_down_def heap_n_def q(3) by (auto simp: nth_hswap)
  then have h: "heap_n (ltp lt) m (pq_list q')"
    using ho.down_heap [OF Sq, of m 0] ql q'(3) by simp
  have mq: "mset (pq_list q') = mset xs" using q'(3) q(3) ql by (simp add: mset_down len)
  then have ql': "length (pq_list q') = Suc m" using mset_eq_length len(1) by metis
  have last: "pq_list q' ! m = xs ! 0"
    using q'(3) q(3) ql len by (simp add: nth_down_above nth_hswap)
  let ?r = "q'\<lparr>pq_items := butlast (pq_items q')\<rparr>"
  have it: "item_value (pq_items q' ! m) = fst (xs ! 0)" "item_sourceId (pq_items q' ! m) = snd (xs ! 0)"
    using last ql' by (simp_all add: pq_list_def strip_def flip: last)
  have r: "pq_list ?r = butlast (pq_list q')" by (simp add: pq_list_def map_butlast)
  have split: "pq_list q' = pq_list ?r @ [xs ! 0]"
    unfolding r last [symmetric] using ql' by (metis append_butlast_last_id diff_Suc_1 last_conv_nth length_0_conv nat.distinct(1))
  have "Dequeue pq = Inr (?r, fst (xs ! 0), snd (xs ! 0))"
    using q(1) q'(1) it ql' len
    by (simp add: Dequeue_def heap_Pop_def Let_def pq_Len_def pq_Pop_def go_index_def)
  moreover have "pq_inv lessFunc lt S ?r"
  proof -
    have "heap_n (ltp lt) m (pq_list ?r)"
      using h ql' unfolding heap_n_def r by (auto simp: nth_butlast)
    moreover have "indexed ?r" using q'(2) by (simp add: pq_ok_def indexed_iff nth_butlast)
    ultimately show ?thesis using q'(2) ql' split by (auto simp: pq_inv_def pq_ok_def)
  qed
  moreover have "mset xs = add_mset (xs ! 0) (mset (pq_list ?r))" using mq split by simp
  moreover have "\<not> lt (fst p) (fst (xs ! 0))" if "p \<in> set xs" for p
    using ho.heap_root_least [OF S, of "Suc m"] heap len that by (auto simp: in_set_conv_nth ltp_def)
  moreover have "hd xs = xs ! 0" using len by (simp add: hd_conv_nth flip: length_greater_0_conv)
  ultimately show ?thesis unfolding xs_def by (metis prod.collapse)
qed

lemma Top_ok:
  "pq_list pq \<noteq> [] \<Longrightarrow> Top pq = Inr (fst (hd (pq_list pq)))"
  by (cases "pq_items pq") (auto simp: Top_def pq_list_def strip_def go_index_def)

end

lemma Dequeue_empty: "pq_list pq = [] \<Longrightarrow> Dequeue pq = Inl PanicIndex"
  by (simp add: Dequeue_def heap_Pop_def Let_def pq_Len_def pq_Swap_def pq_list_def go_index_def)

lemma Top_empty: "pq_list pq = [] \<Longrightarrow> Top pq = Inl PanicIndex"
  by (simp add: Top_def pq_list_def go_index_def)

section \<open>The interface its clients use\<close>

fun enqueue_all :: "('a \<Rightarrow> int \<Rightarrow> 'q \<Rightarrow> 'q go) \<Rightarrow> ('a \<times> int) list \<Rightarrow> 'q \<Rightarrow> 'q go" where
  "enqueue_all enq [] q = Inr q"
| "enqueue_all enq ((x, src) # xs) q = gbind (enq x src q) (enqueue_all enq xs)"

fun drain :: "('q \<Rightarrow> ('q \<times> 'a \<times> int) go) \<Rightarrow> nat \<Rightarrow> 'q \<Rightarrow> ('q \<times> 'a list) go" where
  "drain deq 0 q = Inr (q, [])"
| "drain deq (Suc n) q =
     gbind (deq q) (\<lambda>(q, x, _). gbind (drain deq n q) (\<lambda>(q, xs). Inr (q, x # xs)))"

locale min_queue =
  fixes enq :: "'a \<Rightarrow> int \<Rightarrow> 'q \<Rightarrow> 'q go"
    and deq :: "'q \<Rightarrow> ('q \<times> 'a \<times> int) go"
    and inv :: "'q \<Rightarrow> bool"
    and bag :: "'q \<Rightarrow> ('a \<times> int) multiset"
    and lt :: "'a \<Rightarrow> 'a \<Rightarrow> bool"
    and S :: "'a set"
  assumes enq_ok: "inv q \<Longrightarrow> x \<in> S \<Longrightarrow> \<exists>q'. enq x src q = Inr q' \<and> inv q' \<and> bag q' = add_mset (x, src) (bag q)"
    and deq_ok: "inv q \<Longrightarrow> bag q \<noteq> {#} \<Longrightarrow> \<exists>q' x src. deq q = Inr (q', x, src) \<and> inv q' \<and>
      bag q = add_mset (x, src) (bag q') \<and> (\<forall>p\<in>#bag q. \<not> lt (fst p) x)"
begin

lemma enqueue_all_ok:
  "inv q \<Longrightarrow> fst ` set xs \<subseteq> S \<Longrightarrow> \<exists>q'. enqueue_all enq xs q = Inr q' \<and> inv q' \<and> bag q' = mset xs + bag q"
proof (induction xs arbitrary: q)
  case (Cons p xs)
  obtain x src where p: "p = (x, src)" by (cases p)
  from Cons.prems p obtain q1 where q1: "enq x src q = Inr q1" "inv q1" "bag q1 = add_mset (x, src) (bag q)"
    using enq_ok [of q x src] by auto
  from Cons.IH [OF q1(2)] Cons.prems q1 show ?case by (auto simp: p)
qed simp

lemma drain_ok:
  "inv q \<Longrightarrow> size (bag q) = n \<Longrightarrow> \<exists>q' xs. drain deq n q = Inr (q', xs) \<and>
     mset xs = image_mset fst (bag q) \<and> sorted_wrt (\<lambda>x y. \<not> lt y x) xs"
proof (induction n arbitrary: q)
  case (Suc n)
  then obtain q1 x src where q1: "deq q = Inr (q1, x, src)" "inv q1" "bag q = add_mset (x, src) (bag q1)"
      "\<forall>p\<in>#bag q. \<not> lt (fst p) x"
    using deq_ok [of q] by fastforce
  with Suc.IH [of q1] Suc.prems obtain q' xs where
    "drain deq n q1 = Inr (q', xs)" "mset xs = image_mset fst (bag q1)" "sorted_wrt (\<lambda>x y. \<not> lt y x) xs"
    by auto
  moreover from this(2) have "set xs = fst ` set_mset (bag q1)" by (metis set_image_mset set_mset_mset)
  ultimately show ?case using q1 by auto
qed simp

end

sublocale total_less \<subseteq> mq: min_queue Enqueue Dequeue "pq_inv lessFunc lt S" "\<lambda>pq. mset (pq_list pq)" lt S
  using Enqueue_ok Dequeue_ok by unfold_locales (simp, fastforce)

context total_less
begin

lemma enqueue_drain:
  assumes "fst ` set xs \<subseteq> S" "pq_inv lessFunc lt S pq" "pq_list pq = []"
  shows "\<exists>pq' pq'' ys. enqueue_all Enqueue xs pq = Inr pq' \<and> drain Dequeue (length xs) pq' = Inr (pq'', ys) \<and>
    mset ys = mset (map fst xs) \<and> sorted_wrt (\<lambda>x y. \<not> lt y x) ys"
proof -
  from mq.enqueue_all_ok [OF assms(2,1)] assms(3) obtain pq' where
    pq': "enqueue_all Enqueue xs pq = Inr pq'" "pq_inv lessFunc lt S pq'" "mset (pq_list pq') = mset xs" by auto
  from pq'(3) have "size (mset (pq_list pq')) = length xs" by simp
  from mq.drain_ok [OF pq'(2) this] pq' show ?thesis by auto
qed

end

section \<open>Properties\<close>

text \<open>
  \<open>Enqueue\<close> never panics on comparable values, keeps the invariant of the queue (heap order, and every
  item knows its position) and adds exactly the new item.
\<close>

theorem Enqueue_correct:
  assumes "total_less lessFunc lt S" "pq_inv lessFunc lt S pq" "x \<in> S"
  shows "\<exists>pq'. Enqueue x src pq = Inr pq' \<and> pq_inv lessFunc lt S pq' \<and> indexed pq' \<and>
    mset (pq_list pq') = add_mset (x, src) (mset (pq_list pq))"
  using total_less.Enqueue_ok [OF assms] by (auto simp: pq_inv_def pq_ok_def)

lemma total_less_nat: "total_less (\<lambda>x y. Inr ((x :: nat) < y)) (<) UNIV"
  by unfold_locales (auto simp: swo_on_linorder)

lemma pq_inv_empty: "pq_inv lessFunc lt S \<lparr>pq_lessFunc = lessFunc, pq_items = []\<rparr>"
  by (simp add: pq_inv_def pq_ok_def pq_list_def indexed_def heap_n_def)

theorem Enqueue_correct_witness:
  "\<exists>pq'. Enqueue (5 :: nat) 1 \<lparr>pq_lessFunc = (\<lambda>x y. Inr (x < y)), pq_items = []\<rparr> = Inr pq' \<and>
    pq_inv (\<lambda>x y. Inr (x < y)) (<) UNIV pq' \<and> indexed pq' \<and> mset (pq_list pq') = {#(5, 1)#}"
  using Enqueue_correct [OF total_less_nat pq_inv_empty, of 5 1] by (simp add: pq_list_def)

text \<open>
  C22: \<open>Dequeue\<close> on a non-empty queue removes exactly one item and this item is the one \<open>Top\<close> shows: no item
  of the queue is less than it; the invariant is kept.
\<close>

theorem Dequeue_correct:
  assumes "total_less lessFunc lt S" "pq_inv lessFunc lt S pq" "pq_list pq \<noteq> []"
  shows "\<exists>pq' x src. Dequeue pq = Inr (pq', x, src) \<and> Top pq = Inr x \<and> pq_inv lessFunc lt S pq' \<and>
    mset (pq_list pq) = add_mset (x, src) (mset (pq_list pq')) \<and> (\<forall>p\<in>set (pq_list pq). \<not> lt (fst p) x)"
  using total_less.Dequeue_ok [OF assms] total_less.Top_ok [OF assms(1,3)] by (metis fst_conv)

theorem Dequeue_correct_witness:
  "\<exists>pq' x src. Dequeue \<lparr>pq_lessFunc = (\<lambda>x y. Inr (x < y)),
       pq_items = [\<lparr>item_value = 3 :: nat, item_index = 0, item_sourceId = 8\<rparr>, \<lparr>item_value = 4, item_index = 1, item_sourceId = 9\<rparr>]\<rparr>
     = Inr (pq', x, src) \<and> {#(3, 8), (4, 9)#} = add_mset (x, src) (mset (pq_list pq')) \<and> \<not> 3 < x \<and> \<not> 4 < x"
proof -
  let ?q = "\<lparr>pq_lessFunc = (\<lambda>x y. Inr (x < y)), pq_items = [\<lparr>item_value = 3 :: nat, item_index = 0, item_sourceId = 8\<rparr>,
     \<lparr>item_value = 4, item_index = 1, item_sourceId = 9\<rparr>]\<rparr>"
  have "pq_inv (\<lambda>x y. Inr (x < y)) (<) UNIV ?q"
    by (auto simp: pq_inv_def pq_ok_def pq_list_def indexed_def heap_n_def strip_def ltp_def less_Suc_eq)
  from Dequeue_correct [OF total_less_nat this] show ?thesis by (auto simp: pq_list_def strip_def)
qed

text \<open>
  C23: Items put into a new queue in any order come out of it in order: draining the queue gives a
  sorted permutation of what was enqueued.
\<close>

theorem PriorityQueue_sorts:
  assumes "total_less lessFunc lt S" "fst ` set xs \<subseteq> S" "NewPriorityQueue lessFunc = Inr pq"
  shows "\<exists>pq' pq'' ys. enqueue_all Enqueue xs pq = Inr pq' \<and> drain Dequeue (length xs) pq' = Inr (pq'', ys) \<and>
    mset ys = mset (map fst xs) \<and> sorted_wrt (\<lambda>x y. \<not> lt y x) ys"
  using total_less.enqueue_drain [OF assms(1,2)] total_less.NewPriorityQueue_ok [OF assms(1)] assms(3) by auto

theorem PriorityQueue_sorts_witness:
  "\<exists>pq' pq'' ys. enqueue_all Enqueue [(4 :: nat, 0), (1, 1), (3, 2)] \<lparr>pq_lessFunc = (\<lambda>x y. Inr (x < y)), pq_items = []\<rparr> = Inr pq' \<and>
     drain Dequeue 3 pq' = Inr (pq'', ys) \<and> mset ys = {#4, 1, 3#} \<and> sorted_wrt (\<lambda>x y. \<not> y < x) ys"
proof -
  have "NewPriorityQueue (\<lambda>x y. Inr ((x :: nat) < y)) = Inr \<lparr>pq_lessFunc = (\<lambda>x y. Inr (x < y)), pq_items = []\<rparr>"
    by (simp add: NewPriorityQueue_def heap_Init_def pq_Len_def)
  from PriorityQueue_sorts [OF total_less_nat _ this, of "[(4, 0), (1, 1), (3, 2)]"] show ?thesis
    by (simp add: numeral_3_eq_3)
qed

end
