(* ===== verification/Ordering.thy ===== *)
theory Ordering
  imports RowCodec PrioQueue
begin

text \<open>
  What the instructions share: the order of rows by a list of columns (\<^verbatim>\<open>instruction/instruction.go\<close>,
  \<^verbatim>\<open>instruction/local_sort.go\<close>), conversions between Go integers and protobuf fields
  (\<^verbatim>\<open>instruction/utils.go\<close>), the counters, and the sort of the Go library.
\<close>

record OrderBy =
  ob_Index :: int
  ob_Order :: int

definition Ascending :: int where "Ascending = 1"
definition Descending :: int where "Descending = - 1"
definition NoOrder :: int where "NoOrder = 0"

record pb_OrderBy =
  pbo_Index :: int32
  pbo_Order :: int32

definition toInts :: "int32 list \<Rightarrow> int list" where
  "toInts indexes = map sint indexes"

definition toOrderBys :: "pb_OrderBy list \<Rightarrow> OrderBy list" where
  "toOrderBys orderBys = map (\<lambda>p. \<lparr>ob_Index = sint (pbo_Index p), ob_Order = sint (pbo_Order p)\<rparr>) orderBys"

definition getIndexes :: "int list \<Rightarrow> int32 list" where
  "getIndexes storedValues = map word_of_int storedValues"

definition getOrderBys :: "OrderBy list \<Rightarrow> pb_OrderBy list" where
  "getOrderBys storedValues =
     map (\<lambda>b. \<lparr>pbo_Index = word_of_int (ob_Index b), pbo_Order = word_of_int (ob_Order b)\<rparr>) storedValues"

definition getIndexesFromOrderBys :: "OrderBy list \<Rightarrow> int list" where
  "getIndexesFromOrderBys orderBys = map ob_Index orderBys"

definition fields_by :: "OrderBy \<Rightarrow> row \<Rightarrow> row \<Rightarrow> (gval \<times> gval) go" where
  "fields_by order x y =
     (let klen = int (length (row_K x)) in
      if ob_Index order \<le> klen then
        gbind (go_index (row_K x) (ob_Index order - 1)) (\<lambda>a.
        gbind (go_index (row_K y) (ob_Index order - 1)) (\<lambda>b. Inr (a, b)))
      else
        gbind (go_index (row_V x) (ob_Index order - 1 - klen)) (\<lambda>a.
        gbind (go_index (row_V y) (ob_Index order - 1 - klen)) (\<lambda>b. Inr (a, b))))"

fun lessThan :: "OrderBy list \<Rightarrow> row \<Rightarrow> row \<Rightarrow> bool go" where
  "lessThan [] x y = Inr False"
| "lessThan (order # orderBys) x y =
     gbind (fields_by order x y) (\<lambda>(a, b).
     gbind (Compare a b) (\<lambda>compared.
       let normalOrder = (ob_Order order \<ge> 0) in
       if compared < 0 then Inr normalOrder
       else if compared > 0 then Inr (\<not> normalOrder)
       else lessThan orderBys x y))"

record InstructionStat =
  InputCounter :: int64
  OutputCounter :: int64

abbreviation count_in :: "InstructionStat \<Rightarrow> InstructionStat" where
  "count_in stats \<equiv> stats\<lparr>InputCounter := InputCounter stats + 1\<rparr>"

abbreviation count_out :: "InstructionStat \<Rightarrow> InstructionStat" where
  "count_out stats \<equiv> stats\<lparr>OutputCounter := OutputCounter stats + 1\<rparr>"

text \<open>A row written with \<open>WriteTo\<close> and counted, or the error with the message of the caller.\<close>

definition emit :: "msgp_ops \<Rightarrow> string \<Rightarrow> row \<Rightarrow> gwriter \<times> InstructionStat \<Rightarrow>
    (gwriter \<times> InstructionStat) \<times> gerror option" where
  "emit ops msg row s =
     (case WriteTo ops row (fst s) of
        (writer, Some err) \<Rightarrow> ((writer, snd s), Some (Errorf msg (Some err)))
      | (writer, None) \<Rightarrow> ((writer, count_out (snd s)), None))"

fun emit_all :: "msgp_ops \<Rightarrow> string \<Rightarrow> row list \<Rightarrow> gwriter \<times> InstructionStat \<Rightarrow>
    (gwriter \<times> InstructionStat) \<times> gerror option" where
  "emit_all ops msg [] s = (s, None)"
| "emit_all ops msg (row # rows) s =
     (case emit ops msg row s of (s', Some err) \<Rightarrow> (s', Some err) | (s', None) \<Rightarrow> emit_all ops msg rows s')"

section \<open>The sort of the Go library\<close>

text \<open>
  \<^verbatim>\<open>sort.Slice\<close> documents a sorted permutation, without stability. Its insertion sort (which it uses
  below twelve elements) moves an element towards the front while it is less than its neighbour.
\<close>

fun insert_back :: "('a \<Rightarrow> 'a \<Rightarrow> bool go) \<Rightarrow> 'a \<Rightarrow> 'a list \<Rightarrow> 'a list go" where
  "insert_back lessf x [] = Inr [x]"
| "insert_back lessf x (y # ys) =
     gbind (lessf x y) (\<lambda>b.
       if b then gbind (insert_back lessf x ys) (\<lambda>zs. Inr (y # zs)) else Inr (x # y # ys))"

definition insertionSort :: "('a \<Rightarrow> 'a \<Rightarrow> bool go) \<Rightarrow> 'a list \<Rightarrow> 'a list go" where
  "insertionSort lessf xs = gbind (gfold (\<lambda>acc x. insert_back lessf x acc) [] xs) (\<lambda>acc. Inr (rev acc))"

locale sorter =
  fixes sort_Slice :: "('a \<Rightarrow> 'a \<Rightarrow> bool go) \<Rightarrow> 'a list \<Rightarrow> 'a list go"
  assumes sort_sorts: "total_less lessf lt S \<Longrightarrow> set xs \<subseteq> S \<Longrightarrow>
    \<exists>ys. sort_Slice lessf xs = Inr ys \<and> mset ys = mset xs \<and> sorted_wrt (\<lambda>x y. \<not> lt y x) ys"

lemma insert_back_ok:
  assumes "total_less lessf lt S" "x \<in> S" "set ys \<subseteq> S" "sorted_wrt (\<lambda>x y. \<not> lt x y) ys"
  shows "\<exists>zs. insert_back lessf x ys = Inr zs \<and> mset zs = add_mset x (mset ys) \<and> sorted_wrt (\<lambda>x y. \<not> lt x y) zs"
  using assms(3,4)
proof (induction ys)
  case (Cons y ys)
  have xy: "lessf x y = Inr (lt x y)" "y \<in> S"
    using total_less.less_total [OF assms(1,2)] Cons.prems by auto
  note trans = swo_on_trans [OF total_less.lt_swo [OF assms(1)]]
    and asym = swo_on_asym [OF total_less.lt_swo [OF assms(1)]]
  from Cons obtain zs where zs: "insert_back lessf x ys = Inr zs" "mset zs = add_mset x (mset ys)"
      "sorted_wrt (\<lambda>x y. \<not> lt x y) zs" by auto
  have "set zs = insert x (set ys)" using zs(2) by (metis set_mset_add_mset_insert set_mset_mset)
  then have "lt x y \<Longrightarrow> \<forall>z\<in>set zs. \<not> lt y z" using asym [OF assms(2) xy(2)] Cons.prems(2) by auto
  moreover have "\<not> lt x y \<Longrightarrow> \<forall>z\<in>set (y # ys). \<not> lt x z"
    using trans [of _ y x] assms(2) xy(2) Cons.prems by (auto simp: subset_iff)
  ultimately show ?case using xy zs Cons.prems by auto
qed simp

lemma insertionSort_ok:
  assumes "total_less lessf lt S" "set xs \<subseteq> S"
  shows "\<exists>ys. insertionSort lessf xs = Inr ys \<and> mset ys = mset xs \<and> sorted_wrt (\<lambda>x y. \<not> lt y x) ys"
proof -
  have "\<exists>zs. gfold (\<lambda>acc x. insert_back lessf x acc) acc xs = Inr zs \<and> mset zs = mset acc + mset xs \<and>
      sorted_wrt (\<lambda>x y. \<not> lt x y) zs" if "set acc \<subseteq> S" "sorted_wrt (\<lambda>x y. \<not> lt x y) acc" for acc
    using assms(2) that
  proof (induction xs arbitrary: acc)
    case (Cons x xs)
    then obtain zs where zs: "insert_back lessf x acc = Inr zs" "mset zs = add_mset x (mset acc)"
        "sorted_wrt (\<lambda>x y. \<not> lt x y) zs"
      using insert_back_ok [OF assms(1), of x acc] by auto
    have "set zs \<subseteq> S" using zs(2) Cons.prems by (metis insert_subset list.set_intros(1) set_mset_add_mset_insert set_mset_mset subsetD)
    with Cons.IH [of zs] Cons.prems(1) zs show ?case by auto
  qed simp
  from this [of "[]"] show ?thesis by (auto simp: insertionSort_def sorted_wrt_rev)
qed

interpretation go_sort: sorter insertionSort
  by unfold_locales (rule insertionSort_ok)

section \<open>Rows in order\<close>

text \<open>
  Rows that can be ordered by \<open>orderBys\<close>: all have \<open>kl\<close> keys, and each column of the order exists and
  has one kind.
\<close>

definition col :: "int \<Rightarrow> row \<Rightarrow> gval" where
  "col i r = row_fields r ! nat (i - 1)"

definition ok_row :: "nat \<Rightarrow> OrderBy list \<Rightarrow> kind list \<Rightarrow> row \<Rightarrow> bool" where
  "ok_row kl orderBys ks r \<longleftrightarrow> length (row_K r) = kl \<and>
     list_all2 (\<lambda>b k. valid_index r (ob_Index b) \<and> has_kind k (col (ob_Index b) r)) orderBys ks"

fun olt :: "OrderBy list \<Rightarrow> kind list \<Rightarrow> row \<Rightarrow> row \<Rightarrow> bool" where
  "olt (b # bs) (k # ks) x y =
     (let u = col (ob_Index b) x; v = col (ob_Index b) y in
      (if ob_Order b \<ge> 0 then vlt k u v else vlt k v u) \<or> (\<not> vlt k u v \<and> \<not> vlt k v u \<and> olt bs ks x y))"
| "olt bs ks x y = False"

lemma vlt_col_swo:
  assumes "\<And>r. r \<in> S \<Longrightarrow> has_kind k (col i r)"
  shows "swo_on S (\<lambda>x y. vlt k (col i x) (col i y))"
proof -
  have "swo_on (col i ` S) (vlt k)" by (rule swo_on_subset [OF vlt_swo]) (use assms in auto)
  then show ?thesis by (rule swo_on_image)
qed

lemma olt_swo: "swo_on {r. ok_row kl bs ks r} (olt bs ks)"
proof (induction bs arbitrary: ks)
  case Nil
  have "olt [] ks = (\<lambda>x y. False)" by (intro ext) simp
  then show ?case by simp
next
  case (Cons b bs)
  show ?case
  proof (cases ks)
    case Nil
    have "olt (b # bs) [] = (\<lambda>x y. False)" by (intro ext) simp
    with Nil show ?thesis by simp
  next
    case ks: (Cons k ks')
    let ?S = "{r. ok_row kl (b # bs) ks r}"
    let ?v = "\<lambda>x y. vlt k (col (ob_Index b) x) (col (ob_Index b) y)"
    have v: "swo_on ?S ?v" using ks by (intro vlt_col_swo) (auto simp: ok_row_def)
    have "swo_on ?S (if ob_Order b \<ge> 0 then ?v else (\<lambda>x y. ?v y x))"
      using v swo_on_converse [OF v] by auto
    moreover have "swo_on ?S (olt bs ks')"
      using ks by (intro swo_on_subset [OF Cons.IH [of ks']]) (auto simp: ok_row_def)
    ultimately have "swo_on ?S (lex2 (if ob_Order b \<ge> 0 then ?v else (\<lambda>x y. ?v y x)) (olt bs ks'))"
      by (rule swo_on_lex2)
    moreover have "olt (b # bs) ks x y = lex2 (if ob_Order b \<ge> 0 then ?v else (\<lambda>x y. ?v y x)) (olt bs ks') x y"
      if "x \<in> ?S" "y \<in> ?S" for x y
      using swo_on_asym [OF v that] swo_on_asym [OF v that(2,1)] ks by (auto simp: lex2_def Let_def)
    ultimately show ?thesis using swo_on_cong [of ?S "olt (b # bs) ks"] by blast
  qed
qed

lemma fields_by_ok:
  assumes "valid_index x (ob_Index b)" "valid_index y (ob_Index b)" "length (row_K x) = length (row_K y)"
  shows "fields_by b x y = Inr (col (ob_Index b) x, col (ob_Index b) y)"
  using field_at_valid [OF assms(1)] field_at_valid [OF assms(2)] assms(3)
  by (auto simp: fields_by_def field_at_def col_def Let_def split: if_splits)

lemma lessThan_ok:
  assumes "ok_row kl bs ks x" "ok_row kl bs ks y"
  shows "lessThan bs x y = Inr (olt bs ks x y)"
proof -
  have len: "length (row_K x) = length (row_K y)" using assms by (simp add: ok_row_def)
  have "list_all2 (\<lambda>b k. valid_index x (ob_Index b) \<and> has_kind k (col (ob_Index b) x) \<and>
      valid_index y (ob_Index b) \<and> has_kind k (col (ob_Index b) y)) bs ks"
    using assms by (auto simp: ok_row_def list_all2_conv_all_nth)
  then show ?thesis
  proof (induction bs ks rule: list_all2_induct)
    case (Cons b bs k ks)
    then have f: "fields_by b x y = Inr (col (ob_Index b) x, col (ob_Index b) y)"
      using len by (intro fields_by_ok) auto
    from Cons obtain r where "Compare (col (ob_Index b) x) (col (ob_Index b) y) = Inr r"
      "r < 0 \<longleftrightarrow> vlt k (col (ob_Index b) x) (col (ob_Index b) y)" "0 < r \<longleftrightarrow> vlt k (col (ob_Index b) y) (col (ob_Index b) x)"
      using Compare_kind by blast
    with f Cons.IH show ?case by (auto simp: Let_def)
  qed simp
qed

interpretation ol: total_less "lessThan bs" "olt bs ks" "{r. ok_row kl bs ks r}" for bs ks kl
  by unfold_locales (auto simp: lessThan_ok olt_swo)

section \<open>Writing rows\<close>

definition out_rows :: "msgp_ops \<Rightarrow> row list \<Rightarrow> gwriter \<times> InstructionStat \<Rightarrow> gwriter \<times> InstructionStat" where
  "out_rows ops rows s =
     ((fst s)\<lparr>w_data := w_data (fst s) @ rows_bytes ops rows\<rparr>,
      (snd s)\<lparr>OutputCounter := OutputCounter (snd s) + of_nat (length rows)\<rparr>)"

definition in_rows :: "nat \<Rightarrow> InstructionStat \<Rightarrow> InstructionStat" where
  "in_rows n stats = stats\<lparr>InputCounter := InputCounter stats + of_nat n\<rparr>"

lemma out_rows_Nil [simp]: "out_rows ops [] s = s"
  by (simp add: out_rows_def)

lemma out_rows_out_rows [simp]: "out_rows ops rs (out_rows ops rs' s) = out_rows ops (rs' @ rs) s"
  by (simp add: out_rows_def)

lemma w_cap_out_rows [simp]: "w_cap (fst (out_rows ops rs s)) = w_cap (fst s)"
  by (simp add: out_rows_def)

lemma in_rows_simps [simp]:
  "in_rows 0 stats = stats" "in_rows n (in_rows m stats) = in_rows (m + n) stats"
  "in_rows n (count_in stats) = in_rows (Suc n) stats"
  by (simp_all add: in_rows_def algebra_simps)

lemma emit_ok [simp]:
  "wire_ok ops r \<Longrightarrow> w_cap (fst s) = None \<Longrightarrow> emit ops msg r s = (out_rows ops [r] s, None)"
  by (simp add: emit_def out_rows_def)

lemma emit_all_ok [simp]:
  "\<forall>r\<in>set rs. wire_ok ops r \<Longrightarrow> w_cap (fst s) = None \<Longrightarrow> emit_all ops msg rs s = (out_rows ops rs s, None)"
  by (induction rs arbitrary: s) auto

end
