(* ===== verification/MessagePack.thy ===== *)
theory MessagePack
  imports RowCodec
begin

text \<open>
  An instance of the contract \<open>msgp_codec\<close>: an encoder and decoder that follow the MessagePack
  specification, in its formats of full width, for all value types but floats. It shows that the
  laws can hold, and the witnesses of the stream properties run on it.
\<close>

fun le_bytes :: "nat \<Rightarrow> 'a :: len word \<Rightarrow> bytes" where
  "le_bytes 0 w = []"
| "le_bytes (Suc n) w = ucast w # le_bytes n (drop_bit 8 w)"

fun le_word :: "bytes \<Rightarrow> 'a :: len word" where
  "le_word [] = 0"
| "le_word (b # bs) = or (push_bit 8 (le_word bs)) (ucast b)"

definition be32 :: "32 word \<Rightarrow> bytes" where "be32 w = rev (le_bytes 4 w)"
definition be64 :: "64 word \<Rightarrow> bytes" where "be64 w = rev (le_bytes 8 w)"

definition mp_len :: "'a list \<Rightarrow> bytes" where "mp_len xs = be32 (of_nat (length xs))"

fun mp_enc :: "gval \<Rightarrow> gerror + bytes" and mp_encs :: "gval list \<Rightarrow> gerror + bytes" where
  "mp_enc VNil = Inr [0xc0]"
| "mp_enc (VBool b) = Inr [if b then 0xc3 else 0xc2]"
| "mp_enc (VString s) = (if length s < 2 ^ 32 then Inr (0xdb # mp_len s @ s) else Inl ErrEncode)"
| "mp_enc (VBytes s) = (if length s < 2 ^ 32 then Inr (0xc6 # mp_len s @ s) else Inl ErrEncode)"
| "mp_enc (VInt i) = Inr (0xd3 # be64 i)"
| "mp_enc (VInt8 i) = Inr (0xd3 # be64 (scast i))"
| "mp_enc (VInt16 i) = Inr (0xd3 # be64 (scast i))"
| "mp_enc (VInt32 i) = Inr (0xd3 # be64 (scast i))"
| "mp_enc (VInt64 i) = Inr (0xd3 # be64 i)"
| "mp_enc (VUint i) = Inr (0xcf # be64 i)"
| "mp_enc (VUint8 i) = Inr (0xcf # be64 (ucast i))"
| "mp_enc (VUint16 i) = Inr (0xcf # be64 (ucast i))"
| "mp_enc (VUint32 i) = Inr (0xcf # be64 (ucast i))"
| "mp_enc (VUint64 i) = Inr (0xcf # be64 i)"
| "mp_enc (VFloat32 _) = Inl ErrEncode"
| "mp_enc (VFloat64 _) = Inl ErrEncode"
| "mp_enc (VSlice vs) =
     (if length vs < 2 ^ 32
      then case mp_encs vs of Inl e \<Rightarrow> Inl e | Inr bs \<Rightarrow> Inr (0xdd # mp_len vs @ bs)
      else Inl ErrEncode)"
| "mp_encs [] = Inr []"
| "mp_encs (v # vs) =
     (case mp_enc v of Inl e \<Rightarrow> Inl e
      | Inr b \<Rightarrow> (case mp_encs vs of Inl e \<Rightarrow> Inl e | Inr bs \<Rightarrow> Inr (b @ bs)))"

definition take_be32 :: "bytes \<Rightarrow> gerror + 32 word \<times> bytes" where
  "take_be32 bs = (if length bs < 4 then Inl ErrUnexpectedEOF else Inr (le_word (rev (take 4 bs)), drop 4 bs))"

definition take_be64 :: "bytes \<Rightarrow> gerror + 64 word \<times> bytes" where
  "take_be64 bs = (if length bs < 8 then Inl ErrUnexpectedEOF else Inr (le_word (rev (take 8 bs)), drop 8 bs))"

definition take_blob :: "bytes \<Rightarrow> gerror + bytes \<times> bytes" where
  "take_blob bs =
     (case take_be32 bs of Inl e \<Rightarrow> Inl e
      | Inr (n, bs) \<Rightarrow> if length bs < unat n then Inl ErrUnexpectedEOF else Inr (take (unat n) bs, drop (unat n) bs))"

text \<open>The fuel bounds the nesting of slices; every level takes bytes, so the length is enough.\<close>

function (sequential) mp_dec :: "nat \<Rightarrow> bytes \<Rightarrow> gerror + gval \<times> bytes"
  and mp_decs :: "nat \<Rightarrow> nat \<Rightarrow> bytes \<Rightarrow> gerror + gval list \<times> bytes" where
  "mp_dec 0 bs = Inl ErrDecode"
| "mp_dec (Suc k) [] = Inl ErrUnexpectedEOF"
| "mp_dec (Suc k) (t # bs) =
     (if t = 0xc0 then Inr (VNil, bs)
      else if t = 0xc2 then Inr (VBool False, bs)
      else if t = 0xc3 then Inr (VBool True, bs)
      else if t = 0xdb then (case take_blob bs of Inl e \<Rightarrow> Inl e | Inr (s, bs) \<Rightarrow> Inr (VString s, bs))
      else if t = 0xc6 then (case take_blob bs of Inl e \<Rightarrow> Inl e | Inr (s, bs) \<Rightarrow> Inr (VBytes s, bs))
      else if t = 0xd3 then (case take_be64 bs of Inl e \<Rightarrow> Inl e | Inr (i, bs) \<Rightarrow> Inr (VInt64 i, bs))
      else if t = 0xcf then (case take_be64 bs of Inl e \<Rightarrow> Inl e | Inr (i, bs) \<Rightarrow> Inr (VUint64 i, bs))
      else if t = 0xdd then
        (case take_be32 bs of Inl e \<Rightarrow> Inl e
         | Inr (n, bs) \<Rightarrow> (case mp_decs k (unat n) bs of Inl e \<Rightarrow> Inl e | Inr (vs, bs) \<Rightarrow> Inr (VSlice vs, bs)))
      else Inl ErrDecode)"
| "mp_decs k 0 bs = Inr ([], bs)"
| "mp_decs k (Suc n) bs =
     (case mp_dec k bs of Inl e \<Rightarrow> Inl e
      | Inr (v, bs) \<Rightarrow> (case mp_decs k n bs of Inl e \<Rightarrow> Inl e | Inr (vs, bs) \<Rightarrow> Inr (v # vs, bs)))"
  by pat_completeness auto
termination
  by (relation "inv_image (less_than <*lex*> less_than <*lex*> less_than)
      (case_sum (\<lambda>(k, bs). (k, 0, 0)) (\<lambda>(k, n, bs). (k, 1, n)))") auto

fun mp_canon :: "gval \<Rightarrow> bool" and mp_canons :: "gval list \<Rightarrow> bool" where
  "mp_canon (VSlice vs) = (length vs < 2 ^ 32 \<and> mp_canons vs)"
| "mp_canon (VString s) = (length s < 2 ^ 32)"
| "mp_canon (VBytes s) = (length s < 2 ^ 32)"
| "mp_canon VNil = True"
| "mp_canon (VBool b) = True"
| "mp_canon (VInt64 i) = True"
| "mp_canon (VUint64 i) = True"
| "mp_canon _ = False"
| "mp_canons [] = True"
| "mp_canons (v # vs) = (mp_canon v \<and> mp_canons vs)"

fun mp_size :: "gval \<Rightarrow> nat" and mp_sizes :: "gval list \<Rightarrow> nat" where
  "mp_size (VSlice vs) = 5 + mp_sizes vs"
| "mp_size (VString s) = 5 + length s"
| "mp_size (VBytes s) = 5 + length s"
| "mp_size _ = 9"
| "mp_sizes [] = 0"
| "mp_sizes (v # vs) = mp_size v + mp_sizes vs"

definition mp_skip :: "bytes \<Rightarrow> gerror + bytes" where
  "mp_skip bs = (case mp_dec (Suc (length bs)) bs of Inl e \<Rightarrow> Inl e | Inr (v, bs) \<Rightarrow> Inr bs)"

definition mp_ops :: msgp_ops where
  "mp_ops = \<lparr>
     IsNil = (\<lambda>bs. bs \<noteq> [] \<and> hd bs = 0xc0),
     AppendMapHeader = (\<lambda>n. 0xdf # be32 n),
     AppendArrayHeader = (\<lambda>n. 0xdd # be32 n),
     AppendIntf = mp_enc,
     AppendInt64 = (\<lambda>t. 0xd3 # be64 t),
     ReadMapHeaderBytes = (\<lambda>bs. if bs \<noteq> [] \<and> hd bs = 0xdf then take_be32 (tl bs) else Inl ErrDecode),
     ReadMapKeyZC = (\<lambda>bs. if bs \<noteq> [] \<and> hd bs = 0xa6 \<and> 7 \<le> length bs
                          then Inr (take 6 (tl bs), drop 7 bs) else Inl ErrDecode),
     ReadArrayHeaderBytes = (\<lambda>bs. if bs \<noteq> [] \<and> hd bs = 0xdd then take_be32 (tl bs) else Inl ErrDecode),
     ReadIntfBytes = (\<lambda>bs. mp_dec (Suc (length bs)) bs),
     ReadInt64Bytes = (\<lambda>nil bs. if nil then Inr (0, bs)
                                else if bs \<noteq> [] \<and> hd bs = 0xd3 then take_be64 (tl bs) else Inl ErrDecode),
     Skip = mp_skip\<rparr>"

section \<open>The instance keeps the contract\<close>

lemma length_le_bytes [simp]: "length (le_bytes n w) = n"
  by (induction n arbitrary: w) auto

lemma le_word_le_bytes: "le_word (le_bytes n w) = take_bit (8 * n) (w :: 'a :: len word)"
proof (induction n arbitrary: w)
  case (Suc n)
  show ?case
    by (rule bit_word_eqI) (auto simp: Suc bit_simps)
qed simp

lemma take_be32_be32 [simp]: "take_be32 (be32 w @ rest) = Inr (w, rest)"
  using le_word_le_bytes [of 4 w] by (simp add: take_be32_def be32_def take_bit_word_eq_self)

lemma take_be64_be64 [simp]: "take_be64 (be64 w @ rest) = Inr (w, rest)"
  using le_word_le_bytes [of 8 w] by (simp add: take_be64_def be64_def take_bit_word_eq_self)

lemma unat_length: "length xs < 2 ^ 32 \<Longrightarrow> unat (of_nat (length xs) :: 32 word) = length xs"
  by (simp add: unat_of_nat take_bit_nat_eq_self)

lemma take_blob_blob [simp]: "length s < 2 ^ 32 \<Longrightarrow> take_blob (mp_len s @ s @ rest) = Inr (s, rest)"
  by (simp add: take_blob_def mp_len_def unat_length)

lemma mp_dec_enc:
  "mp_canon v \<Longrightarrow> \<exists>bs. mp_enc v = Inr bs \<and> (\<forall>k rest. length bs \<le> k \<longrightarrow> mp_dec k (bs @ rest) = Inr (v, rest))"
  "mp_canons vs \<Longrightarrow> \<exists>bs. mp_encs vs = Inr bs \<and>
     (\<forall>k rest. length bs \<le> k \<longrightarrow> mp_decs k (length vs) (bs @ rest) = Inr (vs, rest))"
proof (induction v and vs rule: mp_canon_mp_canons.induct)
  case (1 vs)
  then obtain bs where bs: "mp_encs vs = Inr bs"
      "\<And>k rest. length bs \<le> k \<Longrightarrow> mp_decs k (length vs) (bs @ rest) = Inr (vs, rest)" by auto
  have "mp_dec k (0xdd # mp_len vs @ bs @ rest) = Inr (VSlice vs, rest)"
    if "length (0xdd # mp_len vs @ bs) \<le> k" for k rest
    using that 1 bs by (cases k) (simp_all add: mp_len_def unat_length)
  with bs 1 show ?case by simp
qed (auto simp: Suc_le_eq gr0_conv_Suc dest!: less_imp_Suc_add)

interpretation mp: msgp_codec mp_ops mp_canon
proof
  fix v bs rest
  assume "mp_canon v" and w: "AppendIntf mp_ops v = Inr bs"
  then show "ReadIntfBytes mp_ops (bs @ rest) = Inr (v, rest)"
    using mp_dec_enc(1) [of v] by (auto simp: mp_ops_def)
next
  fix v assume "mp_canon v"
  then show "\<exists>bs. AppendIntf mp_ops v = Inr bs"
    using mp_dec_enc(1) [of v] by (auto simp: mp_ops_def)
qed (simp_all add: mp_ops_def)

text \<open>Canonical rows of a moderate size survive the trip.\<close>

lemma length_be [simp]: "length (be32 w) = 4" "length (be64 w') = 8" "length (mp_len xs) = 4"
  by (simp_all add: be32_def be64_def mp_len_def)

lemma length_mp_enc:
  "mp_enc v = Inr bs \<Longrightarrow> length bs \<le> mp_size v"
  "mp_encs vs = Inr bs' \<Longrightarrow> length bs' \<le> mp_sizes vs"
  by (induction v and vs arbitrary: bs and bs' rule: mp_enc_mp_encs.induct)
    (fastforce split: sum.splits if_splits)+

lemma length_append_intfs:
  "append_intfs mp_ops vs out = Inr bs \<Longrightarrow> length bs \<le> length out + mp_sizes vs"
proof (induction vs arbitrary: out)
  case (Cons v vs)
  then obtain b where "mp_enc v = Inr b" "append_intfs mp_ops vs (out @ b) = Inr bs"
    by (auto simp: mp_ops_def split: sum.splits)
  with Cons.IH [of "out @ b"] length_mp_enc(1) [of v b] show ?case by simp
qed simp

lemma length_marshal_slice:
  "marshal_slice mp_ops name vs out = Inr bs \<Longrightarrow> length bs \<le> length out + length name + 6 + mp_sizes vs"
  unfolding marshal_slice_def by (drule length_append_intfs) (simp add: mp_ops_def)

lemma length_encodeRow:
  assumes "encodeRow mp_ops r = Inr bs"
  shows "length bs \<le> 45 + mp_sizes (row_K r) + mp_sizes (row_V r)"
proof -
  have names: "length name_K = 6" "length name_V = 6" "length name_T = 6"
    by (simp_all add: name_K_def name_V_def name_T_def)
  from assms show ?thesis
    by (auto simp: encodeRow_def MarshalMsg_def fieldsNotEmpty_def Let_def names mp_ops_def [THEN arg_cong [where f = AppendInt64]]
        mp_ops_def [THEN arg_cong [where f = AppendMapHeader]] split: sum.splits if_splits
        dest!: length_marshal_slice)
qed

lemma mp_canons_iff: "mp_canons vs \<longleftrightarrow> (\<forall>v\<in>set vs. mp_canon v)"
  by (induction vs) auto

lemma length_le_mp_sizes: "length vs \<le> mp_sizes vs"
proof (induction vs)
  case (Cons v vs)
  have "1 \<le> mp_size v" by (cases v) auto
  with Cons show ?case by simp
qed simp

lemma mp_wire_ok:
  assumes "mp_canons (row_K r)" "mp_canons (row_V r)" "mp_sizes (row_K r) + mp_sizes (row_V r) < 2 ^ 30"
  shows "wire_ok mp_ops r"
proof -
  have "length (row_K r) < 2 ^ 32" "length (row_V r) < 2 ^ 32"
    using assms(3) length_le_mp_sizes [of "row_K r"] length_le_mp_sizes [of "row_V r"] by simp_all
  with assms(1,2) mp.row_roundtrip [of r] obtain bs where
    "encodeRow mp_ops r = Inr bs" "DecodeRow mp_ops bs = Inr r" by (auto simp: mp_canons_iff)
  with assms(3) length_encodeRow [of r bs] show ?thesis by (simp add: wire_ok_def)
qed

section \<open>Properties\<close>

text \<open>
  C2: For any MessagePack library that keeps its contract, a row of canonical values is encoded and
  decodes to itself, key fields, value fields and timestamp, with every combination of omitted
  empty fields.
\<close>

theorem DecodeRow_encodeRow:
  assumes "msgp_codec ops canon" "\<forall>v\<in>set (row_K r) \<union> set (row_V r). canon v"
    and "length (row_K r) < 2 ^ 32" "length (row_V r) < 2 ^ 32"
  shows "\<exists>bs. encodeRow ops r = Inr bs \<and> DecodeRow ops bs = Inr r"
  using assms by (rule msgp_codec.row_roundtrip)

theorem DecodeRow_encodeRow_witness:
  "\<exists>bs. encodeRow mp_ops \<lparr>row_K = [VInt64 7], row_V = [VString [104, 105], VSlice [VNil]], row_T = 0\<rparr> = Inr bs \<and>
     DecodeRow mp_ops bs = Inr \<lparr>row_K = [VInt64 7], row_V = [VString [104, 105], VSlice [VNil]], row_T = 0\<rparr>"
  by (rule DecodeRow_encodeRow [OF mp.msgp_codec_axioms]) auto



end
