(* ===== verification/LocalInstructions.thy ===== *)
theory LocalInstructions
  imports Ordering MessagePack
begin

text \<open>
  The instructions that work on one stream of rows: projection, limit, distinct, grouping of a
  sorted stream, sort and top-n (\<^verbatim>\<open>instruction/select.go\<close>, \<^verbatim>\<open>local_limit.go\<close>, \<^verbatim>\<open>local_distinct.go\<close>,
  \<^verbatim>\<open>local_group_by_sorted.go\<close>, \<^verbatim>\<open>local_sort.go\<close>, \<^verbatim>\<open>local_top.go\<close>). An instruction maps its input stream and the
  state (output stream, counters) to the new state and an error value; it may panic.
\<close>

type_synonym io_state = "gwriter \<times> InstructionStat"
type_synonym io_result = "(io_state \<times> gerror option) go"

text \<open>The result of a loop whose closure also captures local variables.\<close>

definition drop_locals :: "((io_state \<times> 'v) \<times> gerror option) go \<Rightarrow> io_result" where
  "drop_locals r = gbind r (\<lambda>((s, _), err). Inr (s, err))"

text \<open>\<^verbatim>\<open>row.WriteTo(writer); stats.OutputCounter++\<close> with the error ignored.\<close>

definition emit_unchecked :: "msgp_ops \<Rightarrow> row \<Rightarrow> io_state \<Rightarrow> io_state" where
  "emit_unchecked ops row s = (fst (WriteTo ops row (fst s)), count_out (snd s))"

section \<open>Select\<close>

definition select_row :: "int list \<Rightarrow> int list \<Rightarrow> row \<Rightarrow> row go" where
  "select_row keyIndexes valueIndexes row =
     gbind (gmap (field_at row) keyIndexes) (\<lambda>keys.
     gbind (gmap (field_at row) valueIndexes) (\<lambda>values.
       Inr (row\<lparr>row_K := keys, row_V := values\<rparr>)))"

definition DoSelect :: "msgp_ops \<Rightarrow> greader \<Rightarrow> int list \<Rightarrow> int list \<Rightarrow> io_state \<Rightarrow> io_result" where
  "DoSelect ops reader keyIndexes valueIndexes =
     ProcessRow ops reader [] (\<lambda>row (writer, stats).
       gbind (select_row keyIndexes valueIndexes row) (\<lambda>row.
         Inr (emit_unchecked ops row (writer, count_in stats), None)))"

section \<open>Limit\<close>

definition DoLocalLimit :: "msgp_ops \<Rightarrow> greader \<Rightarrow> int \<Rightarrow> int \<Rightarrow> io_state \<Rightarrow> io_result" where
  "DoLocalLimit ops reader n offset s =
     drop_locals (ProcessRow ops reader [] (\<lambda>row ((writer, stats), n, offset).
       let s = (writer, count_in stats) in
       Inr (if offset > 0 then (s, n, offset - 1)
            else ((if n > 0 then emit_unchecked ops row s else s), n - 1, offset), None)) (s, n, offset))"

section \<open>Distinct\<close>

definition DoLocalDistinct :: "msgp_ops \<Rightarrow> greader \<Rightarrow> OrderBy list \<Rightarrow> io_state \<Rightarrow> io_result" where
  "DoLocalDistinct ops reader orderBys s =
     (let indexes = getIndexesFromOrderBys orderBys in
      drop_locals (ProcessRow ops reader indexes (\<lambda>row ((writer, stats), prevKeys).
        let s = (writer, count_in stats) in
        gbind (if prevKeys = [] then Inr True
               else gbind (Compare (VSlice (row_K row)) (VSlice prevKeys)) (\<lambda>c. Inr (c \<noteq> 0))) (\<lambda>different.
          Inr (if different then
                 (case emit ops ''Sort>Failed to write'' row s of
                    (s, Some err) \<Rightarrow> ((s, prevKeys), Some err)
                  | (s, None) \<Rightarrow> ((s, row_K row), None))
               else ((s, prevKeys), None)))) (s, [])))"

section \<open>GroupBySorted\<close>

definition max_int64 :: "int64 \<Rightarrow> int64 \<Rightarrow> int64" where
  "max_int64 x y = (if sint x > sint y then x else y)"

definition group_row :: "row \<Rightarrow> row" where
  "group_row row = \<lparr>row_K = row_K row, row_V = [VSlice (row_V row)], row_T = row_T row\<rparr>"

definition group_step :: "msgp_ops \<Rightarrow> row \<Rightarrow> io_state \<times> row \<Rightarrow> ((io_state \<times> row) \<times> gerror option) go" where
  "group_step ops row = (\<lambda>((writer, stats), prev).
     let s = (writer, count_in stats) in
     gbind (if row_K prev \<noteq> []
            then gbind (Compare (VSlice (row_K row)) (VSlice (row_K prev))) (\<lambda>c. Inr (c \<noteq> 0))
            else Inr False) (\<lambda>different.
       Inr (if different then
              (case emit ops ''Sort>Failed to write'' prev s of
                 (s, Some err) \<Rightarrow> ((s, prev), Some err)
               | (s, None) \<Rightarrow> ((s, group_row row), None))
            else if row_K prev = [] then ((s, group_row row), None)
            else ((s, prev\<lparr>row_T := max_int64 (row_T prev) (row_T row),
                           row_V := row_V prev @ [VSlice (row_V row)]\<rparr>), None))))"

definition DoLocalGroupBySorted :: "msgp_ops \<Rightarrow> greader \<Rightarrow> int list \<Rightarrow> io_state \<Rightarrow> io_result" where
  "DoLocalGroupBySorted ops reader indexes s =
     gbind (ProcessRow ops reader indexes (group_step ops) (s, \<lparr>row_K = [], row_V = [], row_T = 0\<rparr>))
       (\<lambda>((s, prev), err).
         if err \<noteq> None then Inr (s, err) else Inr (emit ops ''Sort>Failed to write'' prev s))"

section \<open>Sort\<close>

definition DoLocalSort :: "msgp_ops \<Rightarrow> ((row \<Rightarrow> row \<Rightarrow> bool go) \<Rightarrow> row list \<Rightarrow> row list go) \<Rightarrow>
    greader \<Rightarrow> OrderBy list \<Rightarrow> io_state \<Rightarrow> io_result" where
  "DoLocalSort ops sort_Slice reader orderBys s =
     gbind (ProcessRow ops reader [] (\<lambda>row ((writer, stats), rows).
              Inr (((writer, count_in stats), rows @ [row]), None)) (s, []))
       (\<lambda>((s, rows), err).
         if err \<noteq> None then Inr (s, err)
         else if length rows = 0 then Inr (s, None)
         else gbind (sort_Slice (lessThan orderBys) rows) (\<lambda>rows.
           Inr (emit_all ops ''Sort>Failed to write'' rows s)))"

section \<open>Top\<close>

definition newMinQueueOfPairs :: "OrderBy list \<Rightarrow> row PriorityQueue go" where
  "newMinQueueOfPairs orderBys = NewPriorityQueue (lessThan orderBys)"

definition top_step :: "int \<Rightarrow> OrderBy list \<Rightarrow> row \<Rightarrow> io_state \<times> row PriorityQueue \<Rightarrow>
    ((io_state \<times> row PriorityQueue) \<times> gerror option) go" where
  "top_step n orderBys row = (\<lambda>((writer, stats), pq).
     let s = (writer, count_in stats) in
     if int (pq_Len pq) \<ge> n then
       gbind (Top pq) (\<lambda>top.
       gbind (lessThan orderBys top row) (\<lambda>b.
         if b then
           gbind (Dequeue pq) (\<lambda>(pq, _). gbind (Enqueue row 0 pq) (\<lambda>pq. Inr ((s, pq), None)))
         else Inr ((s, pq), None)))
     else gbind (Enqueue row 0 pq) (\<lambda>pq. Inr ((s, pq), None)))"

definition DoLocalTop :: "msgp_ops \<Rightarrow> greader \<Rightarrow> int \<Rightarrow> OrderBy list \<Rightarrow> io_state \<Rightarrow> io_result" where
  "DoLocalTop ops reader n orderBys s =
     gbind (newMinQueueOfPairs orderBys) (\<lambda>pq.
     gbind (ProcessRow ops reader [] (top_step n orderBys) (s, pq)) (\<lambda>((s, pq), err).
       if err \<noteq> None then Inr (s, err)
       else gbind (drain Dequeue (pq_Len pq) pq) (\<lambda>(pq, itemsToReverse).
         Inr (fold (emit_unchecked ops) (rev itemsToReverse) s, None))))"

section \<open>Loops over rows\<close>

lemma emit_unchecked_ok [simp]:
  "wire_ok ops r \<Longrightarrow> w_cap (fst s) = None \<Longrightarrow> emit_unchecked ops r s = out_rows ops [r] s"
  by (simp add: emit_unchecked_def out_rows_def)

lemma emit_unchecked_all:
  "\<forall>r\<in>set rs. wire_ok ops r \<Longrightarrow> w_cap (fst s) = None \<Longrightarrow> fold (emit_unchecked ops) rs s = out_rows ops rs s"
  by (induction rs arbitrary: s) auto

lemma UseKeys_Nil [simp]: "UseKeys [] r = Inr r"
  by (simp add: UseKeys_def)

text \<open>The state after an instruction has read \<open>n\<close> rows and written the rows \<open>outs\<close>.\<close>

definition io_after :: "msgp_ops \<Rightarrow> nat \<Rightarrow> row list \<Rightarrow> io_state \<Rightarrow> io_state" where
  "io_after ops n outs s = out_rows ops outs (fst s, in_rows n (snd s))"

lemma io_after_0 [simp]: "io_after ops 0 [] s = s"
  by (simp add: io_after_def)

lemma io_after_in [simp]: "(fst (io_after ops n outs s), count_in (snd (io_after ops n outs s))) = io_after ops (Suc n) outs s"
  by (simp add: io_after_def out_rows_def in_rows_def algebra_simps)

lemma io_after_out [simp]: "out_rows ops outs' (io_after ops n outs s) = io_after ops n (outs @ outs') s"
  by (simp add: io_after_def)

lemma io_after_1: "(fst s, count_in (snd s)) = io_after ops (Suc 0) [] s"
  by (simp add: io_after_def in_rows_def)

lemma io_after_first [simp]: "out_rows ops rs (fst s, count_in (snd s)) = io_after ops (Suc 0) rs s"
  by (simp add: io_after_def in_rows_def)

lemma w_cap_io_after [simp]: "w_cap (fst (io_after ops n outs s)) = w_cap (fst s)"
  by (simp add: io_after_def)

lemma fold_msgs_UseKeys:
  "gmap (UseKeys ixs) rows = Inr krows \<Longrightarrow>
     fold_msgs (\<lambda>r s. gbind (UseKeys ixs r) (\<lambda>r. f r s)) rows s = fold_msgs f krows s"
  by (induction rows arbitrary: krows s) (auto simp: gbind_eq_Inr split: sum.split option.split)

lemma ProcessRow_keyed:
  assumes "\<forall>r\<in>set rows. wire_ok ops r" "gmap (UseKeys ixs) rows = Inr krows"
  shows "ProcessRow ops (rows_reader ops rows) ixs f s = fold_msgs f krows s"
  using ProcessRow_rows [OF assms(1)] fold_msgs_UseKeys [OF assms(2)] by metis

lemma ProcessRow_plain:
  assumes "\<forall>r\<in>set rows. wire_ok ops r"
  shows "ProcessRow ops (rows_reader ops rows) [] f s = fold_msgs f rows s"
proof -
  have "gmap (UseKeys []) rows = Inr rows" using gmap_Inr [of rows "UseKeys []" "\<lambda>r. r"] by simp
  from ProcessRow_keyed [OF assms this] show ?thesis .
qed

section \<open>Runs of equal keys\<close>

definition same_key :: "row \<Rightarrow> row \<Rightarrow> bool" where
  "same_key a b = key_eq (row_K a) (row_K b)"

definition runs_step :: "row list list \<Rightarrow> row \<Rightarrow> row list list" where
  "runs_step acc r =
     (if acc = [] \<or> \<not> same_key r (hd (last acc)) then acc @ [[r]] else butlast acc @ [last acc @ [r]])"

definition runs :: "row list \<Rightarrow> row list list" where
  "runs rows = foldl runs_step [] rows"

lemma runs_Nil [simp]: "runs [] = []"
  by (simp add: runs_def)

lemma runs_single [simp]: "runs [r] = [[r]]"
  by (simp add: runs_def runs_step_def)

lemma runs_snoc: "runs (rows @ [r]) = runs_step (runs rows) r"
  by (simp add: runs_def)

lemma runs_eq_Nil [simp]: "runs rows = [] \<longleftrightarrow> rows = []"
  by (cases rows rule: rev_cases) (auto simp: runs_snoc runs_step_def)

lemma concat_runs: "concat (runs rows) = rows"
proof (induction rows rule: rev_induct)
  case (snoc r rows)
  then show ?case
    by (cases "runs rows" rule: rev_cases) (auto simp: runs_snoc runs_step_def)
qed simp

lemma runs_nonempty: "g \<in> set (runs rows) \<Longrightarrow> g \<noteq> []"
  by (induction rows arbitrary: g rule: rev_induct)
    (auto simp: runs_snoc runs_step_def split: if_splits dest: in_set_butlastD)

lemma runs_snoc_same:
  assumes "rows \<noteq> []" "same_key r (hd (last (runs rows)))"
  shows "map hd (runs (rows @ [r])) = map hd (runs rows)"
    "butlast (runs (rows @ [r])) = butlast (runs rows)"
    "last (runs (rows @ [r])) = last (runs rows) @ [r]"
    "hd (last (runs (rows @ [r]))) = hd (last (runs rows))"
proof -
  have "runs rows \<noteq> []" "last (runs rows) \<noteq> []" using assms(1) runs_nonempty [of "last (runs rows)" rows] by auto
  with assms show "map hd (runs (rows @ [r])) = map hd (runs rows)"
    "butlast (runs (rows @ [r])) = butlast (runs rows)"
    "last (runs (rows @ [r])) = last (runs rows) @ [r]"
    "hd (last (runs (rows @ [r]))) = hd (last (runs rows))"
    by (cases "runs rows" rule: rev_cases; simp add: runs_snoc runs_step_def)+
qed

lemma runs_snoc_new:
  "rows = [] \<or> \<not> same_key r (hd (last (runs rows))) \<Longrightarrow> runs (rows @ [r]) = runs rows @ [[r]]"
  by (auto simp: runs_snoc runs_step_def)

text \<open>For keys of fixed kinds, all rows of a run have the key of its first row.\<close>

lemma same_key_refl: "has_kinds ks (row_K r) \<Longrightarrow> same_key r r"
  using key_eq_klt [of ks "row_K r" "row_K r"] swo_on_irrefl [OF klt_swo, of "row_K r" ks]
  by (simp add: same_key_def)

lemma runs_same_key:
  assumes "\<forall>r\<in>set rows. has_kinds ks (row_K r)" "g \<in> set (runs rows)" "r \<in> set g"
  shows "same_key r (hd g)"
  using assms
proof (induction rows arbitrary: g r rule: rev_induct)
  case (snoc x rows)
  show ?case
  proof (cases "rows = [] \<or> \<not> same_key x (hd (last (runs rows)))")
    case True
    then have "g \<in> set (runs rows) \<or> g = [x]"
      using snoc.prems(2) by (auto simp: runs_snoc runs_step_def)
    then show ?thesis using snoc same_key_refl [of ks x] by auto
  next
    case False
    then have l: "last (runs rows) \<in> set (runs rows)" by simp
    from False have "g \<in> set (runs rows) \<or> g = last (runs rows) @ [x]"
      using snoc.prems(2) by (auto simp: runs_snoc runs_step_def dest: in_set_butlastD)
    then show ?thesis
      using snoc.IH [OF _ l] snoc.IH [of g r] snoc.prems False runs_nonempty [OF l] by auto
  qed
qed simp

lemma klt_strict_trans:
  assumes "has_kinds ks x" "has_kinds ks y" "has_kinds ks z" "klt ks x y" "klt ks y z"
  shows "klt ks x z"
  using swo_on_trans [OF klt_swo, of z ks x y] swo_on_asym [OF klt_swo, of x ks y] assms by auto

lemma runs_sorted:
  assumes "\<forall>r\<in>set rows. has_kinds ks (row_K r)" "sorted_wrt (\<lambda>a b. \<not> klt ks (row_K b) (row_K a)) rows"
  shows "sorted_wrt (\<lambda>g h. klt ks (row_K (hd g)) (row_K (hd h))) (runs rows)"
  using assms
proof (induction rows rule: rev_induct)
  case (snoc x rows)
  have kx: "has_kinds ks (row_K x)" using snoc.prems(1) by simp
  have kg: "hd g \<in> set rows" if "g \<in> set (runs rows)" for g
    using that runs_nonempty [OF that] by (subst concat_runs [symmetric]) (auto intro: hd_in_set)
  have IH: "sorted_wrt (\<lambda>g h. klt ks (row_K (hd g)) (row_K (hd h))) (runs rows)"
    using snoc by (simp add: sorted_wrt_append)
  show ?case
  proof (cases "rows = []")
    case False
    then have ne: "runs rows \<noteq> []" by simp
    let ?l = "last (runs rows)"
    have bl: "runs rows = butlast (runs rows) @ [?l]" using ne by simp
    have l: "?l \<in> set (runs rows)" using ne by simp
    have hl: "hd (?l @ [x]) = hd ?l" using runs_nonempty [OF l] by simp
    show ?thesis
    proof (cases "same_key x (hd ?l)")
      case True
      with ne have eq: "runs (rows @ [x]) = butlast (runs rows) @ [?l @ [x]]"
        by (simp add: runs_snoc runs_step_def)
      from IH show ?thesis unfolding eq by (subst (asm) bl) (simp add: sorted_wrt_append hl)
    next
      case new: False
      have "\<not> klt ks (row_K x) (row_K (hd ?l))"
        using snoc.prems(2) kg [OF l] by (simp add: sorted_wrt_append)
      then have lx: "klt ks (row_K (hd ?l)) (row_K x)"
        using new key_eq_klt [OF kx, of "row_K (hd ?l)"] kg [OF l] snoc.prems(1) by (auto simp: same_key_def)
      have "klt ks (row_K (hd g)) (row_K x)" if g: "g \<in> set (runs rows)" for g
      proof (cases "g = ?l")
        case False
        then have "g \<in> set (butlast (runs rows))" using g bl by (metis Un_iff empty_iff insert_iff list.set(1,2) set_append)
        then have "klt ks (row_K (hd g)) (row_K (hd ?l))" using IH by (subst (asm) bl) (simp add: sorted_wrt_append)
        moreover have "has_kinds ks (row_K (hd g))" "has_kinds ks (row_K (hd ?l))"
          using kg [OF g] kg [OF l] snoc.prems(1) by simp_all
        ultimately show ?thesis using klt_strict_trans lx kx by blast
      qed (use lx in simp)
      with IH new show ?thesis by (simp add: runs_snoc runs_step_def sorted_wrt_append)
    qed
  qed (simp add: runs_snoc runs_step_def)
qed simp

text \<open>Concrete rows and a fresh state for the witnesses.\<close>

definition io_start :: io_state where
  "io_start = (\<lparr>w_data = [], w_cap = None\<rparr>, \<lparr>InputCounter = 0, OutputCounter = 0\<rparr>)"

definition kv :: "int64 \<Rightarrow> int64 \<Rightarrow> row" where
  "kv k v = \<lparr>row_K = [VInt64 k], row_V = [VInt64 v], row_T = 0\<rparr>"

lemma w_cap_io_start [simp]: "w_cap (fst io_start) = None"
  by (simp add: io_start_def)

lemma kv_simps [simp]: "row_K (kv k v) = [VInt64 k]" "row_V (kv k v) = [VInt64 v]" "row_T (kv k v) = 0"
  by (simp_all add: kv_def)

lemma kv_wire_ok [simp]: "wire_ok mp_ops (kv k v)"
  by (rule mp_wire_ok) simp_all

lemma UseKeys_kv [simp]: "UseKeys [1] (kv k v) = Inr (kv k v)"
  by (simp add: UseKeys_def field_at_def go_index_def mark_used_def kv_def)

section \<open>Properties\<close>

definition project :: "int list \<Rightarrow> int list \<Rightarrow> row \<Rightarrow> row" where
  "project keyIndexes valueIndexes r =
     r\<lparr>row_K := map (\<lambda>x. col x r) keyIndexes, row_V := map (\<lambda>x. col x r) valueIndexes\<rparr>"

lemma select_row_ok:
  "list_all (valid_index r) (kis @ vis) \<Longrightarrow> select_row kis vis r = Inr (project kis vis r)"
  using gmap_Inr [of kis "field_at r" "\<lambda>x. col x r"] gmap_Inr [of vis "field_at r" "\<lambda>x. col x r"]
  by (auto simp: select_row_def project_def list_all_iff col_def)

text \<open>
  \<open>DoSelect\<close> writes, for every input row and in the same order, the row made of the chosen key and
  value columns, and counts every row read and written.
\<close>

theorem DoSelect_correct:
  assumes "\<forall>r\<in>set rows. wire_ok ops r \<and> list_all (valid_index r) (kis @ vis) \<and> wire_ok ops (project kis vis r)"
    and "w_cap (fst s) = None"
  shows "DoSelect ops (rows_reader ops rows) kis vis s =
    Inr (io_after ops (length rows) (map (project kis vis) rows) s, None)"
proof -
  let ?f = "\<lambda>row (writer, stats). gbind (select_row kis vis row) (\<lambda>row.
         Inr (emit_unchecked ops row (writer, count_in stats), None))"
  have "\<exists>s'. fold_msgs ?f rows s = Inr (s', None) \<and> s' = io_after ops (length rows) (map (project kis vis) rows) s"
  proof (rule fold_msgs_inv)
    fix pre r post s'
    assume "rows = pre @ r # post" "s' = io_after ops (length pre) (map (project kis vis) pre) s"
    then show "\<exists>s''. ?f r s' = Inr (s'', None) \<and> s'' = io_after ops (length (pre @ [r])) (map (project kis vis) (pre @ [r])) s"
      using assms select_row_ok [of r kis vis] by (simp add: case_prod_beta)
  qed simp
  then have "fold_msgs ?f rows s = Inr (io_after ops (length rows) (map (project kis vis) rows) s, None)" by blast
  then show ?thesis using assms(1) by (simp add: DoSelect_def ProcessRow_plain)
qed

theorem DoSelect_correct_witness:
  "DoSelect mp_ops (rows_reader mp_ops [kv 10 20]) [2] [1, 2] io_start =
   Inr (io_after mp_ops 1 [\<lparr>row_K = [VInt64 20], row_V = [VInt64 10, VInt64 20], row_T = 0\<rparr>] io_start, None)"
  by (subst DoSelect_correct)
    (auto intro!: mp_wire_ok simp: project_def col_def row_fields_def valid_index_def kv_def)

text \<open>
  \<open>DoLocalLimit\<close> skips \<open>offset\<close> rows and writes the next \<open>n\<close>; it still reads the whole input.
\<close>

theorem DoLocalLimit_correct:
  assumes "\<forall>r\<in>set rows. wire_ok ops r" "w_cap (fst s) = None"
  shows "DoLocalLimit ops (rows_reader ops rows) n offset s =
    Inr (io_after ops (length rows) (take (nat n) (drop (nat offset) rows)) s, None)"
proof -
  let ?o = "nat offset"
  let ?f = "\<lambda>row ((writer, stats), n, offset). let s = (writer, count_in stats) in
       Inr (if offset > 0 then (s, n, offset - 1)
            else ((if n > 0 then emit_unchecked ops row s else s), n - 1, offset), None)"
  let ?I = "\<lambda>pre (s', n', off'). s' = io_after ops (length pre) (take (nat n) (drop ?o pre)) s \<and>
      n' = n - int (length pre - ?o) \<and> off' = offset - int (min (length pre) ?o)"
  have "\<exists>s'. fold_msgs ?f rows (s, n, offset) = Inr (s', None) \<and> ?I rows s'"
  proof (rule fold_msgs_inv)
    fix pre r post z
    assume rows: "rows = pre @ r # post" and "?I pre z"
    then obtain s' n' off' where z: "z = (s', n', off')" "s' = io_after ops (length pre) (take (nat n) (drop ?o pre)) s"
      "n' = n - int (length pre - ?o)" "off' = offset - int (min (length pre) ?o)" by (cases z) auto
    have r: "wire_ok ops r" using assms(1) rows by simp
    show "\<exists>z'. ?f r z = Inr (z', None) \<and> ?I (pre @ [r]) z'"
    proof (cases "off' > 0")
      case True
      then have "length pre < ?o" using z(4) by linarith
      with True z show ?thesis by (auto simp: case_prod_beta Let_def)
    next
      case False
      then have "?o \<le> length pre" using z(4) by linarith
      moreover have "n' > 0 \<longleftrightarrow> length pre - ?o < nat n" using z(3) by linarith
      ultimately show ?thesis using False z r assms(2) by (auto simp: case_prod_beta Let_def)
    qed
  qed simp
  then show ?thesis using assms(1) by (auto simp: DoLocalLimit_def drop_locals_def ProcessRow_plain)
qed

theorem DoLocalLimit_correct_witness:
  "DoLocalLimit mp_ops (rows_reader mp_ops [kv 1 1, kv 2 2, kv 3 3]) 1 1 io_start =
   Inr (io_after mp_ops 3 [kv 2 2] io_start, None)"
  by (subst DoLocalLimit_correct) (simp_all add: numeral_3_eq_3)

text \<open>The comparison of neighbouring keys in the loops of distinct and group-by.\<close>

lemma Compare_same_key:
  assumes "has_kinds ks (row_K a)" "has_kinds ks (row_K b)"
  shows "gbind (Compare (VSlice (row_K a)) (VSlice (row_K b))) (\<lambda>c. Inr (c \<noteq> 0)) = Inr (\<not> same_key a b)"
proof -
  obtain r where "Compare (VSlice (row_K a)) (VSlice (row_K b)) = Inr r" using Compare_kinds [OF assms] by blast
  then show ?thesis by (simp add: same_key_def key_eq_def)
qed

lemma hd_run_kinds:
  assumes "\<forall>r\<in>set rows. has_kinds ks (row_K r)" "rows \<noteq> []"
  shows "has_kinds ks (row_K (hd (last (runs rows))))"
proof -
  have l: "last (runs rows) \<in> set (runs rows)" using assms(2) by simp
  then have "hd (last (runs rows)) \<in> set rows"
    using runs_nonempty [OF l] by (subst concat_runs [symmetric]) (auto intro: hd_in_set)
  with assms(1) show ?thesis by simp
qed

lemma has_kinds_nonempty: "has_kinds ks xs \<Longrightarrow> ks \<noteq> [] \<Longrightarrow> xs \<noteq> []"
  by auto

text \<open>
  C31: On a stream whose keys are sorted, \<open>DoLocalDistinct\<close> writes the first row of every run of equal keys:
  the keys of its output increase strictly, and every input row has the key of some output row.
\<close>

theorem DoLocalDistinct_correct:
  assumes "\<forall>r\<in>set rows. wire_ok ops r" "gmap (UseKeys (getIndexesFromOrderBys orderBys)) rows = Inr krows"
    and "\<forall>r\<in>set krows. wire_ok ops r \<and> has_kinds ks (row_K r)" "ks \<noteq> []"
    and "sorted_wrt (\<lambda>a b. \<not> klt ks (row_K b) (row_K a)) krows" "w_cap (fst s) = None"
  shows "\<exists>outs. DoLocalDistinct ops (rows_reader ops rows) orderBys s = Inr (io_after ops (length rows) outs s, None) \<and>
    subseq outs krows \<and> sorted_wrt (\<lambda>a b. klt ks (row_K a) (row_K b)) outs \<and>
    (\<forall>r\<in>set krows. \<exists>q\<in>set outs. same_key r q)"
proof -
  let ?f = "\<lambda>row ((writer, stats), prevKeys). let s = (writer, count_in stats) in
        gbind (if prevKeys = [] then Inr True
               else gbind (Compare (VSlice (row_K row)) (VSlice prevKeys)) (\<lambda>c. Inr (c \<noteq> 0))) (\<lambda>different.
          Inr (if different then
                 (case emit ops ''Sort>Failed to write'' row s of
                    (s, Some err) \<Rightarrow> ((s, prevKeys), Some err)
                  | (s, None) \<Rightarrow> ((s, row_K row), None))
               else ((s, prevKeys), None)))"
  let ?I = "\<lambda>pre (s', prevKeys). s' = io_after ops (length pre) (map hd (runs pre)) s \<and>
      prevKeys = (if pre = [] then [] else row_K (hd (last (runs pre))))"
  have kinds: "\<forall>r\<in>set krows. has_kinds ks (row_K r)" using assms(3) by blast
  have "\<exists>s'. fold_msgs ?f krows (s, []) = Inr (s', None) \<and> ?I krows s'"
  proof (rule fold_msgs_inv)
    fix pre r post z
    assume rows: "krows = pre @ r # post" and "?I pre z"
    then obtain s' prev where z: "z = (s', prev)" "s' = io_after ops (length pre) (map hd (runs pre)) s"
      "prev = (if pre = [] then [] else row_K (hd (last (runs pre))))" by (cases z) auto
    have r: "wire_ok ops r" "has_kinds ks (row_K r)" and pre: "\<forall>x\<in>set pre. has_kinds ks (row_K x)"
      using assms(3) rows by auto
    show "\<exists>z'. ?f r z = Inr (z', None) \<and> ?I (pre @ [r]) z'"
    proof (cases "pre = []")
      case True
      then show ?thesis using z r assms(6) by (simp add: case_prod_beta Let_def)
    next
      case False
      note k = hd_run_kinds [OF pre False]
      show ?thesis
        using z r False assms(6) Compare_same_key [OF r(2) k] has_kinds_nonempty [OF k assms(4)]
          runs_nonempty [of "last (runs pre)" pre]
        by (cases "same_key r (hd (last (runs pre)))")
          (auto simp: case_prod_beta Let_def runs_snoc_same runs_snoc_new)
    qed
  qed simp
  then have run: "DoLocalDistinct ops (rows_reader ops rows) orderBys s =
      Inr (io_after ops (length krows) (map hd (runs krows)) s, None)"
    using assms(1,2) by (auto simp: DoLocalDistinct_def drop_locals_def ProcessRow_keyed)
  have "subseq (map hd (runs krows)) krows"
  proof -
    have "subseq (map hd gs) (concat gs)" if "\<forall>g\<in>set gs. g \<noteq> []" for gs :: "row list list"
      using that
    proof (induction gs)
      case (Cons g gs)
      then have "subseq ([hd g] @ map hd gs) (g @ concat gs)"
        by (intro list_emb_append_mono) (auto simp: subseq_singleton_left)
      then show ?case by simp
    qed simp
    from this [of "runs krows"] show ?thesis using runs_nonempty concat_runs by metis
  qed
  moreover have "sorted_wrt (\<lambda>a b. klt ks (row_K a) (row_K b)) (map hd (runs krows))"
    using runs_sorted [OF kinds assms(5)] by (simp add: sorted_wrt_map)
  moreover have "\<exists>q\<in>set (map hd (runs krows)). same_key r q" if "r \<in> set krows" for r
    using that runs_same_key [OF kinds, of _ r] concat_runs [of krows] by (metis UN_E imageI set_concat set_map)
  ultimately show ?thesis using run gmap_eq_Inr_length [OF assms(2)] by auto
qed

lemma kv_kinds: "- (2 ^ 62) \<le> sint k \<Longrightarrow> sint k < 2 ^ 62 \<Longrightarrow> has_kinds [KInt] (row_K (kv k v))"
  by (simp add: ToInt64_def)

theorem DoLocalDistinct_correct_witness:
  "\<exists>outs. DoLocalDistinct mp_ops (rows_reader mp_ops [kv 1 1, kv 1 2, kv 3 3]) [\<lparr>ob_Index = 1, ob_Order = 1\<rparr>] io_start =
     Inr (io_after mp_ops 3 outs io_start, None) \<and> subseq outs [kv 1 1, kv 1 2, kv 3 3] \<and>
     sorted_wrt (\<lambda>a b. klt [KInt] (row_K a) (row_K b)) outs \<and>
     (\<forall>r\<in>set [kv 1 1, kv 1 2, kv 3 3]. \<exists>q\<in>set outs. same_key r q)"
  using DoLocalDistinct_correct [of "[kv 1 1, kv 1 2, kv 3 3]" mp_ops "[\<lparr>ob_Index = 1, ob_Order = 1\<rparr>]"
      "[kv 1 1, kv 1 2, kv 3 3]" "[KInt]" io_start]
  by (simp add: getIndexesFromOrderBys_def kv_kinds ToInt64_def numeral_3_eq_3)

subsection \<open>Group by\<close>

definition group_of :: "row list \<Rightarrow> row" where
  "group_of g = \<lparr>row_K = row_K (hd g), row_V = map (\<lambda>r. VSlice (row_V r)) g,
     row_T = foldl (\<lambda>t r. max_int64 t (row_T r)) (row_T (hd g)) (tl g)\<rparr>"

lemma group_of_single: "group_of [r] = group_row r"
  by (simp add: group_of_def group_row_def)

lemma group_of_snoc:
  "g \<noteq> [] \<Longrightarrow> group_of (g @ [r]) = (group_of g)\<lparr>row_T := max_int64 (row_T (group_of g)) (row_T r),
     row_V := row_V (group_of g) @ [VSlice (row_V r)]\<rparr>"
  by (simp add: group_of_def)

lemma runs_stable: "set (butlast (runs xs)) \<subseteq> set (butlast (runs (xs @ ys)))"
proof (induction ys rule: rev_induct)
  case (snoc y ys)
  have "set (butlast acc) \<subseteq> set (butlast (runs_step acc y))" for acc
    by (auto simp: runs_step_def dest: in_set_butlastD)
  then have "set (butlast (runs (xs @ ys))) \<subseteq> set (butlast (runs ((xs @ ys) @ [y])))" by (simp only: runs_snoc)
  with snoc show ?case by simp
qed simp

lemma group_step_run:
  assumes "ks \<noteq> []" "\<forall>x\<in>set (pre @ [r]). has_kinds ks (row_K x)" "w_cap (fst s) = None"
    and "\<forall>g\<in>set (butlast (runs (pre @ [r]))). wire_ok ops (group_of g)"
    and "pre \<noteq> []"
  shows "group_step ops r (io_after ops (length pre) (map group_of (butlast (runs pre))) s, group_of (last (runs pre))) =
    Inr ((io_after ops (length (pre @ [r])) (map group_of (butlast (runs (pre @ [r])))) s,
          group_of (last (runs (pre @ [r])))), None)"
proof -
  let ?l = "last (runs pre)"
  have ne: "runs pre \<noteq> []" "?l \<noteq> []" using assms(5) runs_nonempty [of ?l pre] by auto
  have k: "has_kinds ks (row_K (hd ?l))" using assms(2,5) by (intro hd_run_kinds) auto
  have K: "row_K (group_of ?l) = row_K (hd ?l)" by (simp add: group_of_def)
  have c: "gbind (Compare (VSlice (row_K r)) (VSlice (row_K (hd ?l)))) (\<lambda>c. Inr (c \<noteq> 0)) = Inr (\<not> same_key r (hd ?l))"
    using Compare_same_key [OF _ k] assms(2) by simp
  have K0: "row_K (hd ?l) \<noteq> []" by (rule has_kinds_nonempty [OF k assms(1)])
  show ?thesis
  proof (cases "same_key r (hd ?l)")
    case True
    then show ?thesis
      using runs_snoc_same [OF assms(5) True] ne group_of_snoc [OF ne(2), of r]
      by (simp add: group_step_def case_prod_beta Let_def K K0 c)
  next
    case False
    have bl: "runs pre = butlast (runs pre) @ [?l]" using ne(1) by simp
    have "wire_ok ops (group_of ?l)" using assms(4) False ne(1) by (simp add: runs_snoc_new)
    moreover have "map group_of (runs pre) = map group_of (butlast (runs pre)) @ [group_of ?l]"
      by (subst bl) simp
    ultimately show ?thesis
      using False assms(3) by (simp add: group_step_def case_prod_beta Let_def K K0 c runs_snoc_new group_of_single)
  qed
qed

text \<open>
  C30: On a non-empty stream whose keys are sorted, \<open>DoLocalGroupBySorted\<close> writes one row per key: the input
  splits into consecutive groups of equal keys, whose keys increase strictly, and each output row
  collects the values of one group in order, with the latest timestamp of the group.
\<close>

theorem DoLocalGroupBySorted_correct:
  assumes "\<forall>r\<in>set rows. wire_ok ops r" "gmap (UseKeys indexes) rows = Inr krows" "krows \<noteq> []"
    and "\<forall>r\<in>set krows. has_kinds ks (row_K r)" "ks \<noteq> []"
    and "sorted_wrt (\<lambda>a b. \<not> klt ks (row_K b) (row_K a)) krows"
    and "\<forall>g\<in>set (runs krows). wire_ok ops (group_of g)" "w_cap (fst s) = None"
  shows "\<exists>gs. DoLocalGroupBySorted ops (rows_reader ops rows) indexes s =
      Inr (io_after ops (length rows) (map group_of gs) s, None) \<and> concat gs = krows \<and>
    (\<forall>g\<in>set gs. g \<noteq> [] \<and> (\<forall>r\<in>set g. same_key r (hd g))) \<and>
    sorted_wrt (\<lambda>g h. klt ks (row_K (hd g)) (row_K (hd h))) gs"
proof -
  let ?e = "\<lparr>row_K = [], row_V = [], row_T = 0\<rparr>"
  let ?I = "\<lambda>pre (s', prev). s' = io_after ops (length pre) (map group_of (butlast (runs pre))) s \<and>
      prev = (if pre = [] then ?e else group_of (last (runs pre)))"
  have ok: "wire_ok ops (group_of g)" if "g \<in> set (butlast (runs krows))" for g
    using that assms(7) by (auto dest: in_set_butlastD)
  have "\<exists>z. fold_msgs (group_step ops) krows (s, ?e) = Inr (z, None) \<and> ?I krows z"
  proof (rule fold_msgs_inv)
    fix pre r post z
    assume rows: "krows = pre @ r # post" and I: "?I pre z"
    have st: "\<forall>g\<in>set (butlast (runs (pre @ [r]))). wire_ok ops (group_of g)"
      using runs_stable [of "pre @ [r]" post] ok rows by auto
    show "\<exists>z'. group_step ops r z = Inr (z', None) \<and> ?I (pre @ [r]) z'"
    proof (cases "pre = []")
      case True
      then show ?thesis using I
        by (cases z) (simp add: group_step_def case_prod_beta Let_def group_of_single io_after_1 [of s ops])
    next
      case False
      then have z: "z = (io_after ops (length pre) (map group_of (butlast (runs pre))) s, group_of (last (runs pre)))"
        using I by (cases z) auto
      have "group_step ops r z = Inr ((io_after ops (length (pre @ [r])) (map group_of (butlast (runs (pre @ [r])))) s,
          group_of (last (runs (pre @ [r])))), None)"
        unfolding z by (rule group_step_run [OF assms(5) _ assms(8) st False]) (use assms(4) rows in auto)
      then show ?thesis by simp
    qed
  qed simp
  then have f: "fold_msgs (group_step ops) krows (s, ?e) =
      Inr ((io_after ops (length krows) (map group_of (butlast (runs krows))) s, group_of (last (runs krows))), None)"
    using assms(3) by auto
  have last: "wire_ok ops (group_of (last (runs krows)))" using assms(3,7) by simp
  have "map group_of (butlast (runs krows)) @ [group_of (last (runs krows))] = map group_of (butlast (runs krows) @ [last (runs krows)])"
    by simp
  also have "\<dots> = map group_of (runs krows)" using assms(3) by (subst append_butlast_last_id) simp_all
  finally have "DoLocalGroupBySorted ops (rows_reader ops rows) indexes s =
      Inr (io_after ops (length krows) (map group_of (runs krows)) s, None)"
    using f last assms(8) by (simp add: DoLocalGroupBySorted_def ProcessRow_keyed [OF assms(1,2)])
  then show ?thesis
    using concat_runs runs_nonempty runs_same_key [OF assms(4)] runs_sorted [OF assms(4,6)] gmap_eq_Inr_length [OF assms(2)]
    by (intro exI [of _ "runs krows"]) auto
qed

theorem DoLocalGroupBySorted_correct_witness:
  "\<exists>gs. DoLocalGroupBySorted mp_ops (rows_reader mp_ops [kv 1 5, kv 1 6, kv 3 7]) [1] io_start =
     Inr (io_after mp_ops 3 (map group_of gs) io_start, None) \<and> concat gs = [kv 1 5, kv 1 6, kv 3 7] \<and>
     (\<forall>g\<in>set gs. g \<noteq> [] \<and> (\<forall>r\<in>set g. same_key r (hd g)))"
proof -
  let ?rows = "[kv 1 5, kv 1 6, kv 3 7]"
  have kinds: "\<forall>r\<in>set ?rows. has_kinds [KInt] (row_K r)" by (simp add: ToInt64_def)
  have "same_key (kv 1 6) (kv 1 5)" "\<not> same_key (kv 3 7) (kv 1 5)"
    using key_eq_klt [of "[KInt]"] kinds by (auto simp: same_key_def ToInt64_def)
  then have runs: "runs ?rows = [[kv 1 5, kv 1 6], [kv 3 7]]" by (simp add: runs_def runs_step_def)
  have "\<forall>g\<in>set (runs ?rows). wire_ok mp_ops (group_of g)"
    unfolding runs by (auto intro!: mp_wire_ok simp: group_of_def)
  with DoLocalGroupBySorted_correct [of ?rows mp_ops "[1]" ?rows "[KInt]" io_start] kinds show ?thesis
    by (auto simp: ToInt64_def numeral_3_eq_3)
qed

text \<open>
  On an empty input \<open>DoLocalGroupBySorted\<close> still writes a row, without keys and values, and counts it:
  the number of output rows is not the number of groups.
\<close>

theorem DoLocalGroupBySorted_empty:
  assumes "wire_ok ops \<lparr>row_K = [], row_V = [], row_T = 0\<rparr>" "w_cap (fst s) = None"
  shows "DoLocalGroupBySorted ops (rows_reader ops []) indexes s =
    Inr (io_after ops 0 [\<lparr>row_K = [], row_V = [], row_T = 0\<rparr>] s, None)"
proof -
  have "ProcessRow ops (rows_reader ops []) indexes f z = Inr (z, None)" for f :: "row \<Rightarrow> io_state \<times> row \<Rightarrow> _" and z
    using ProcessRow_rows [of "[]" ops indexes f z] by simp
  then show ?thesis using assms by (simp add: DoLocalGroupBySorted_def io_after_def)
qed

theorem DoLocalGroupBySorted_empty_witness:
  "DoLocalGroupBySorted mp_ops (rows_reader mp_ops []) [1] io_start =
     Inr (io_after mp_ops 0 [\<lparr>row_K = [], row_V = [], row_T = 0\<rparr>] io_start, None)"
  by (rule DoLocalGroupBySorted_empty) (auto intro: mp_wire_ok)

subsection \<open>Sort and top\<close>

text \<open>
  C28: \<open>DoLocalSort\<close> writes a sorted permutation of its input, for any sort function that keeps the contract
  of \<^verbatim>\<open>sort.Slice\<close> and rows whose order columns exist and have one kind each.
\<close>

theorem DoLocalSort_correct:
  assumes "sorter sort_Slice" "\<forall>r\<in>set rows. wire_ok ops r \<and> ok_row kl orderBys ks r" "w_cap (fst s) = None"
  shows "\<exists>outs. DoLocalSort ops sort_Slice (rows_reader ops rows) orderBys s =
      Inr (io_after ops (length rows) outs s, None) \<and>
    mset outs = mset rows \<and> sorted_wrt (\<lambda>x y. \<not> olt orderBys ks y x) outs"
proof -
  let ?f = "\<lambda>row ((writer, stats), rows). Inr (((writer, count_in stats), rows @ [row]), None)"
  have "\<exists>z. fold_msgs ?f rows (s, []) = Inr (z, None) \<and> z = (io_after ops (length rows) [] s, rows)"
    by (rule fold_msgs_inv) (simp_all add: case_prod_beta)
  then have f: "fold_msgs ?f rows (s, []) = Inr ((io_after ops (length rows) [] s, rows), None)" by blast
  obtain outs where outs: "sort_Slice (lessThan orderBys) rows = Inr outs" "mset outs = mset rows"
      "sorted_wrt (\<lambda>x y. \<not> olt orderBys ks y x) outs"
    using sorter.sort_sorts [OF assms(1) ol.total_less_axioms, of rows kl orderBys ks] assms(2) by auto
  have "\<forall>r\<in>set outs. wire_ok ops r" using mset_eq_set [OF outs(2)] assms(2) by simp
  then have "DoLocalSort ops sort_Slice (rows_reader ops rows) orderBys s =
      Inr (io_after ops (length rows) outs s, None)"
    using f outs assms(2,3) by (auto simp: DoLocalSort_def ProcessRow_plain)
  with outs show ?thesis by blast
qed

theorem DoLocalSort_correct_witness:
  "\<exists>outs. DoLocalSort mp_ops insertionSort (rows_reader mp_ops [kv 3 1, kv 1 2]) [\<lparr>ob_Index = 1, ob_Order = 1\<rparr>] io_start =
      Inr (io_after mp_ops 2 outs io_start, None) \<and>
    mset outs = {#kv 3 1, kv 1 2#} \<and> sorted_wrt (\<lambda>x y. \<not> olt [\<lparr>ob_Index = 1, ob_Order = 1\<rparr>] [KInt] y x) outs"
  using DoLocalSort_correct [OF go_sort.sorter_axioms, of "[kv 3 1, kv 1 2]" mp_ops 1 "[\<lparr>ob_Index = 1, ob_Order = 1\<rparr>]" "[KInt]" io_start]
  by (auto simp: ok_row_def col_def row_fields_def valid_index_def ToInt64_def numeral_2_eq_2)

text \<open>
  The queue of \<open>DoLocalTop\<close> holds the \<open>n\<close> greatest rows so far: what was dropped (\<open>D\<close>) is not greater
  than anything it holds.
\<close>

definition top_inv :: "nat \<Rightarrow> OrderBy list \<Rightarrow> kind list \<Rightarrow> nat \<Rightarrow> row list \<Rightarrow> row PriorityQueue \<Rightarrow> bool" where
  "top_inv kl orderBys ks n pre pq \<longleftrightarrow>
     pq_inv (lessThan orderBys) (olt orderBys ks) {r. ok_row kl orderBys ks r} pq \<and>
     length (pq_list pq) = min n (length pre) \<and>
     (\<exists>D. image_mset fst (mset (pq_list pq)) + D = mset pre \<and>
        (\<forall>a\<in>#image_mset fst (mset (pq_list pq)). \<forall>d\<in>#D. \<not> olt orderBys ks a d))"

lemma top_step_inv:
  assumes "top_inv kl bs ks n pre pq" "0 < n" "\<forall>x\<in>set (pre @ [r]). ok_row kl bs ks x"
  shows "\<exists>pq'. top_step (int n) bs r (s, pq) = Inr (((fst s, count_in (snd s)), pq'), None) \<and>
    top_inv kl bs ks n (pre @ [r]) pq'"
proof -
  let ?S = "{r. ok_row kl bs ks r}" and ?lt = "olt bs ks"
  let ?inv = "pq_inv (lessThan bs) ?lt ?S" and ?A = "\<lambda>q. image_mset fst (mset (pq_list q))"
  from assms(1) obtain D where inv: "?inv pq" and len: "length (pq_list pq) = min n (length pre)"
    and D: "?A pq + D = mset pre" "\<forall>a\<in>#?A pq. \<forall>d\<in>#D. \<not> ?lt a d" by (auto simp: top_inv_def)
  have r: "r \<in> ?S" using assms(3) by simp
  have ok: "a \<in> ?S" if "a \<in># ?A pq + D" for a using assms(3) that unfolding D(1) by simp
  note trans = swo_on_trans [OF olt_swo [of kl bs ks]] and asym = swo_on_asym [OF olt_swo [of kl bs ks]]
  have Len: "pq_Len pq = length (pq_list pq)" by (simp add: pq_Len_def pq_list_def)
  show ?thesis
  proof (cases "int (pq_Len pq) \<ge> int n")
    case False
    obtain pq' where pq': "Enqueue r 0 pq = Inr pq'" "?inv pq'" "mset (pq_list pq') = add_mset (r, 0) (mset (pq_list pq))"
      using ol.Enqueue_ok [OF inv r] by blast
    have "D = {#}"
    proof -
      have "length (pq_list pq) = length pre" using False Len len by simp
      then show ?thesis using arg_cong [OF D(1), of size] by simp
    qed
    moreover have "length (pq_list pq') = Suc (length (pq_list pq))"
      using arg_cong [OF pq'(3), of size] by simp
    ultimately have "top_inv kl bs ks n (pre @ [r]) pq'"
      using pq' D False Len len unfolding top_inv_def by (intro conjI exI [of _ "{#}"]) auto
    with False pq'(1) show ?thesis by (simp add: top_step_def case_prod_beta Let_def)
  next
    case True
    then have ne: "pq_list pq \<noteq> []" using assms(2) by (auto simp: pq_list_def pq_Len_def)
    let ?t = "fst (hd (pq_list pq))"
    obtain q x src where q: "Dequeue pq = Inr (q, x, src)" "?inv q" "(x, src) = hd (pq_list pq)"
        "mset (pq_list pq) = add_mset (x, src) (mset (pq_list q))" "\<forall>p\<in>set (pq_list pq). \<not> ?lt (fst p) x"
      using ol.Dequeue_ok [OF inv ne] by blast
    have t: "Top pq = Inr x" using ol.Top_ok [OF ne] q(3) by (metis fst_conv)
    have xA: "x \<in># ?A pq" and A: "?A pq = add_mset x (?A q)" using q(4) by simp_all
    have x: "x \<in> ?S" using ok xA by simp
    have min: "\<not> ?lt a x" if "a \<in># ?A pq" for a using q(5) that by auto
    have cmp: "lessThan bs x r = Inr (?lt x r)" using ol.less_total [OF x r] .
    show ?thesis
    proof (cases "?lt x r")
      case lt: True
      obtain q' where q': "Enqueue r 0 q = Inr q'" "?inv q'" "mset (pq_list q') = add_mset (r, 0) (mset (pq_list q))"
        using ol.Enqueue_ok [OF q(2) r] by blast
      have "\<not> ?lt r d" if "d \<in># D" for d
        using trans [of d x r] asym [OF x r lt] D(2) xA that ok [of d] x r by auto
      then have "\<forall>a\<in>#?A q'. \<forall>d\<in>#add_mset x D. \<not> ?lt a d"
        using q'(3) D(2) A min asym [OF x r lt] by auto
      moreover have "?A q' + add_mset x D = mset (pre @ [r])" using q'(3) D(1) A by simp
      moreover have "length (pq_list q') = length (pq_list pq)"
        using arg_cong [OF q'(3), of size] arg_cong [OF q(4), of size] by simp
      ultimately have "top_inv kl bs ks n (pre @ [r]) q'"
        using q'(2) True Len len unfolding top_inv_def by (intro conjI exI [of _ "add_mset x D"]) auto
      with True t cmp lt q(1) q'(1) show ?thesis by (simp add: top_step_def case_prod_beta Let_def)
    next
      case False
      have "\<not> ?lt a r" if "a \<in># ?A pq" for a
        using trans [of r x a] False min [OF that] ok [of a] that x r by auto
      then have "\<forall>a\<in>#?A pq. \<forall>d\<in>#add_mset r D. \<not> ?lt a d" using D(2) by auto
      moreover have "?A pq + add_mset r D = mset (pre @ [r])" using D(1) by simp
      ultimately have "top_inv kl bs ks n (pre @ [r]) pq"
        using inv True Len len unfolding top_inv_def by (intro conjI exI [of _ "add_mset r D"]) auto
      with True t cmp False show ?thesis by (simp add: top_step_def case_prod_beta Let_def)
    qed
  qed
qed

text \<open>
  C29: \<open>DoLocalTop\<close> writes the \<open>n\<close> greatest rows (or all, if there are fewer), in descending order, and no row
  that it drops is greater than one it writes.
\<close>

theorem DoLocalTop_correct:
  assumes "0 < n" "\<forall>r\<in>set rows. wire_ok ops r \<and> ok_row kl orderBys ks r" "w_cap (fst s) = None"
  shows "\<exists>outs dropped. DoLocalTop ops (rows_reader ops rows) (int n) orderBys s =
      Inr (io_after ops (length rows) outs s, None) \<and>
    mset outs + dropped = mset rows \<and> length outs = min n (length rows) \<and>
    sorted_wrt (\<lambda>x y. \<not> olt orderBys ks x y) outs \<and> (\<forall>a\<in>set outs. \<forall>d\<in>#dropped. \<not> olt orderBys ks a d)"
proof -
  let ?I = "\<lambda>pre (s', pq). s' = io_after ops (length pre) [] s \<and> top_inv kl orderBys ks n pre pq"
  obtain pq where pq: "newMinQueueOfPairs orderBys = Inr pq" "top_inv kl orderBys ks n [] pq"
    using ol.NewPriorityQueue_ok [of orderBys ks kl] by (auto simp: newMinQueueOfPairs_def top_inv_def pq_list_def)
  have "\<exists>z. fold_msgs (top_step (int n) orderBys) rows (s, pq) = Inr (z, None) \<and> ?I rows z"
  proof (rule fold_msgs_inv)
    fix pre r post z
    assume rows: "rows = pre @ r # post" and "?I pre z"
    then obtain q where z: "z = (io_after ops (length pre) [] s, q)" "top_inv kl orderBys ks n pre q" by (cases z) auto
    have "\<forall>x\<in>set (pre @ [r]). ok_row kl orderBys ks x" using rows assms(2) by auto
    from top_step_inv [OF z(2) assms(1) this, of "io_after ops (length pre) [] s"]
    show "\<exists>z'. top_step (int n) orderBys r z = Inr (z', None) \<and> ?I (pre @ [r]) z'"
      unfolding z(1) by (auto simp del: split_paired_Ex)
  qed (use pq in simp)
  then obtain q where f: "fold_msgs (top_step (int n) orderBys) rows (s, pq) = Inr ((io_after ops (length rows) [] s, q), None)"
    and q: "top_inv kl orderBys ks n rows q" by auto
  from q have qi: "pq_inv (lessThan orderBys) (olt orderBys ks) {r. ok_row kl orderBys ks r} q"
    and len: "length (pq_list q) = min n (length rows)" by (simp_all add: top_inv_def)
  from q obtain D where D: "image_mset fst (mset (pq_list q)) + D = mset rows"
      "\<forall>a\<in>#image_mset fst (mset (pq_list q)). \<forall>d\<in>#D. \<not> olt orderBys ks a d" by (auto simp: top_inv_def)
  obtain q' ys where ys: "drain Dequeue (pq_Len q) q = Inr (q', ys)" "mset ys = image_mset fst (mset (pq_list q))"
      "sorted_wrt (\<lambda>x y. \<not> olt orderBys ks y x) ys"
    using ol.mq.drain_ok [OF qi, of "pq_Len q"] by (auto simp: pq_Len_def pq_list_def)
  have sub: "set ys \<subseteq> set rows" using ys(2) D(1) by (metis mset_subset_eq_add_left set_mset_mono set_mset_mset)
  have w: "fold (emit_unchecked ops) (rev ys) (io_after ops (length rows) [] s) = io_after ops (length rows) (rev ys) s"
    using emit_unchecked_all [of "rev ys" ops "io_after ops (length rows) [] s"] sub assms(2,3) by auto
  have "DoLocalTop ops (rows_reader ops rows) (int n) orderBys s = Inr (io_after ops (length rows) (rev ys) s, None)"
    using pq(1) f ys(1) w assms(2) by (simp add: DoLocalTop_def ProcessRow_plain)
  moreover have "length ys = min n (length rows)" using arg_cong [OF ys(2), of size] len by simp
  moreover have "\<forall>a\<in>set ys. \<forall>d\<in>#D. \<not> olt orderBys ks a d" using D(2) unfolding ys(2) [symmetric] by simp
  ultimately show ?thesis
    using ys(2,3) D(1) by (intro exI [of _ "rev ys"] exI [of _ D]) (simp add: sorted_wrt_rev)
qed

theorem DoLocalTop_correct_witness:
  "\<exists>outs dropped. DoLocalTop mp_ops (rows_reader mp_ops [kv 3 1, kv 1 2]) (int 1) [\<lparr>ob_Index = 1, ob_Order = 1\<rparr>] io_start =
      Inr (io_after mp_ops 2 outs io_start, None) \<and> mset outs + dropped = {#kv 3 1, kv 1 2#} \<and> length outs = 1"
proof -
  have "\<forall>r\<in>set [kv 3 1, kv 1 2]. wire_ok mp_ops r \<and> ok_row 1 [\<lparr>ob_Index = 1, ob_Order = 1\<rparr>] [KInt] r"
    by (simp add: ok_row_def col_def row_fields_def valid_index_def ToInt64_def)
  from DoLocalTop_correct [OF _ this, of 1 io_start] show ?thesis by (auto simp: numeral_2_eq_2)
qed

text \<open>
  With \<open>n = 0\<close> (or a negative \<open>n\<close>) and any input row, \<open>DoLocalTop\<close> looks at the top of an empty queue and
  panics instead of writing nothing.
\<close>

theorem DoLocalTop_zero_panics:
  assumes "n \<le> 0" "rows \<noteq> []" "\<forall>r\<in>set rows. wire_ok ops r"
  shows "DoLocalTop ops (rows_reader ops rows) n orderBys s = Inl PanicIndex"
proof -
  obtain r rs where rows: "rows = r # rs" using assms(2) by (cases rows) auto
  let ?pq = "\<lparr>pq_lessFunc = lessThan orderBys, pq_items = []\<rparr>"
  have "newMinQueueOfPairs orderBys = Inr ?pq"
    by (simp add: newMinQueueOfPairs_def NewPriorityQueue_def heap_Init_def pq_Len_def)
  moreover have "Top ?pq = Inl PanicIndex" by (rule Top_empty) (simp add: pq_list_def)
  ultimately show ?thesis
    using assms by (simp add: DoLocalTop_def ProcessRow_plain rows top_step_def case_prod_beta Let_def pq_Len_def)
qed

theorem DoLocalTop_zero_panics_witness:
  "DoLocalTop mp_ops (rows_reader mp_ops [kv 1 1]) 0 [\<lparr>ob_Index = 1, ob_Order = 1\<rparr>] io_start = Inl PanicIndex"
  by (rule DoLocalTop_zero_panics) simp_all

end
