(* ===== verification/MergeInstructions.thy ===== *)
theory MergeInstructions
  imports LocalInstructions
begin

text \<open>
  Instructions that merge several input streams into one: \<^verbatim>\<open>merge_sorted_to.go\<close> (a k-way merge with the
  priority queue) and \<^verbatim>\<open>merge_to.go\<close> (one stream after the other). A reader that is read step by step
  is part of the state of the loop.
\<close>

lemma ReadRow_ReadMessage:
  assumes "ReadRow ops rd = Inr (res, rd')"
  shows "\<exists>res'. ReadMessage rd = Inr (res', rd') \<and> (\<forall>row. res = Inr row \<longrightarrow> (\<exists>m. res' = Inr m))"
proof (cases "ReadMessage rd")
  case (Inr p)
  then show ?thesis using assms
    by (cases p; cases "fst p") (auto simp: ReadRow_def split: sum.splits)
qed (use assms in \<open>simp add: ReadRow_def\<close>)

lemma ReadRow_shrinks:
  "ReadRow ops rd = Inr (Inr row, rd') \<Longrightarrow> length (r_data rd') < length (r_data rd)"
  using ReadRow_ReadMessage [of ops rd "Inr row" rd'] ReadMessage_shrinks [of rd _ rd'] by auto

lemma io_ReadFull_no_growth: "io_ReadFull n rd = (res, rd') \<Longrightarrow> length (r_data rd') \<le> length (r_data rd)"
  by (auto simp: io_ReadFull_def split: if_splits)

lemma ReadMessage_no_growth:
  "ReadMessage rd = Inr (res, rd') \<Longrightarrow> length (r_data rd') \<le> length (r_data rd)"
  by (fastforce simp: ReadMessage_def Let_def split: if_splits prod.splits sum.splits dest: io_ReadFull_no_growth)

lemma ReadRow_no_growth:
  "ReadRow ops rd = Inr (res, rd') \<Longrightarrow> length (r_data rd') \<le> length (r_data rd)"
  using ReadRow_ReadMessage [of ops rd res rd'] ReadMessage_no_growth [of rd _ rd'] by auto

text \<open>The queue operations change the number of items by one, whatever the comparison does.\<close>

lemma pq_Swap_length: "pq_Swap i j pq = Inr pq' \<Longrightarrow> pq_Len pq' = pq_Len pq"
  by (auto simp: pq_Swap_def pq_Len_def gbind_eq_Inr Let_def)

lemma heap_up_length: "heap_up j pq = Inr pq' \<Longrightarrow> pq_Len pq' = pq_Len pq"
proof (induction j arbitrary: pq rule: less_induct)
  case (less j)
  then show ?case
    by (subst (asm) heap_up.simps) (auto simp: Let_def gbind_eq_Inr split: if_splits dest!: pq_Swap_length less.IH [rotated])
qed

lemma heap_down_length: "heap_down i n pq = Inr pq' \<Longrightarrow> pq_Len pq' = pq_Len pq"
proof (induction "n - i" arbitrary: i pq rule: less_induct)
  case less
  from less.prems show ?case
    by (subst (asm) heap_down.simps)
      (auto simp: Let_def gbind_eq_Inr split: if_splits dest!: pq_Swap_length less.hyps [rotated])
qed

lemma Enqueue_length: "Enqueue x src pq = Inr pq' \<Longrightarrow> pq_Len pq' = Suc (pq_Len pq)"
  by (auto simp: Enqueue_def heap_Push_def Let_def pq_Push_def pq_Len_def dest!: heap_up_length)

lemma Dequeue_length: "Dequeue pq = Inr (pq', x, src) \<Longrightarrow> Suc (pq_Len pq') = pq_Len pq"
  by (auto simp: Dequeue_def heap_Pop_def Let_def gbind_eq_Inr pq_Pop_def go_index_eq_Inr pq_Len_def
      dest!: pq_Swap_length heap_down_length)

section \<open>MergeSortedTo\<close>

fun merge_start :: "msgp_ops \<Rightarrow> int list \<Rightarrow> int \<Rightarrow> greader list \<Rightarrow> row PriorityQueue \<Rightarrow> io_state \<Rightarrow>
    ((greader list \<times> row PriorityQueue \<times> io_state) \<times> gerror option) go" where
  "merge_start ops indexes shardId [] pq s = Inr (([], pq, s), None)"
| "merge_start ops indexes shardId (reader # readers) pq s =
     gbind (ReadRow ops reader) (\<lambda>(res, reader').
       case res of
         Inr row \<Rightarrow>
           gbind (UseKeys indexes row) (\<lambda>row.
           gbind (Enqueue row shardId pq) (\<lambda>pq.
           gbind (merge_start ops indexes (shardId + 1) readers pq (fst s, count_in (snd s)))
             (\<lambda>((readers', pq, s), err). Inr ((reader' # readers', pq, s), err))))
       | Inl err \<Rightarrow>
           if err \<noteq> EOF then Inr ((reader' # readers, pq, s), Some err)
           else gbind (merge_start ops indexes (shardId + 1) readers pq s)
             (\<lambda>((readers', pq, s), err). Inr ((reader' # readers', pq, s), err)))"

definition reader_bytes :: "greader list \<Rightarrow> nat" where
  "reader_bytes readers = sum_list (map (\<lambda>rd. length (r_data rd)) readers)"

lemma reader_bytes_update:
  "i < length readers \<Longrightarrow>
     reader_bytes (readers[i := rd]) + length (r_data (readers ! i)) = reader_bytes readers + length (r_data rd)"
  unfolding reader_bytes_def by (induction readers arbitrary: i) (auto split: nat.split)

function merge_loop :: "msgp_ops \<Rightarrow> int list \<Rightarrow> greader list \<Rightarrow> row PriorityQueue \<Rightarrow> io_state \<Rightarrow> io_result" where
  "merge_loop ops indexes readers pq s =
     (if pq_Len pq = 0 then Inr (s, None)
      else gbind (Dequeue pq) (\<lambda>(pq, row, shardId).
        case WriteTo ops row (fst s) of
          (writer, Some err) \<Rightarrow> Inr ((writer, snd s), Some err)
        | (writer, None) \<Rightarrow>
           gbind (go_index readers shardId) (\<lambda>reader.
           gbind (ReadRow ops reader) (\<lambda>(res, reader').
             let readers = readers[nat shardId := reader']; s = (writer, count_out (snd s)) in
             case res of
               Inr row \<Rightarrow>
                 gbind (UseKeys indexes row) (\<lambda>row.
                 gbind (Enqueue row shardId pq) (\<lambda>pq.
                   merge_loop ops indexes readers pq (fst s, count_in (snd s))))
             | Inl err \<Rightarrow>
                 if err \<noteq> EOF then Inr (s, Some err) else merge_loop ops indexes readers pq s))))"
  by pat_completeness auto
termination
proof (relation "measure (\<lambda>(ops, ixs, readers, pq, s). 2 * reader_bytes readers + pq_Len pq)", goal_cases)
  case (2 ops ixs readers pq s d pq1 p row shardId wr we reader rr res reader')
  then have "nat shardId < length readers" "reader = readers ! nat shardId" by (simp_all add: go_index_eq_Inr)
  moreover have "length (r_data reader') \<le> length (r_data reader)" using 2 ReadRow_no_growth by metis
  moreover have "Suc (pq_Len pq1) = pq_Len pq" using 2 Dequeue_length by metis
  ultimately show ?case using 2 reader_bytes_update [of "nat shardId" readers reader'] by simp
next
  case (3 ops ixs readers pq s d pq1 p row shardId wr we reader rr res reader')
  then have "nat shardId < length readers" "reader = readers ! nat shardId" by (simp_all add: go_index_eq_Inr)
  moreover have "length (r_data reader') < length (r_data reader)" using 3 ReadRow_shrinks by metis
  moreover have "Suc (pq_Len pq1) = pq_Len pq" using 3 Dequeue_length by metis
  ultimately show ?case using 3 reader_bytes_update [of "nat shardId" readers reader'] Enqueue_length by fastforce
qed simp

declare merge_loop.simps [simp del]

definition DoMergeSortedTo :: "msgp_ops \<Rightarrow> greader list \<Rightarrow> OrderBy list \<Rightarrow> io_state \<Rightarrow> io_result" where
  "DoMergeSortedTo ops readers orderBys s =
     (let indexes = getIndexesFromOrderBys orderBys in
      gbind (newMinQueueOfPairs orderBys) (\<lambda>pq.
      gbind (merge_start ops indexes 0 readers pq s) (\<lambda>((readers, pq, s), err).
        if err \<noteq> None then Inr (s, err) else merge_loop ops indexes readers pq s)))"

section \<open>MergeTo\<close>

function copy_messages :: "greader \<Rightarrow> io_state \<Rightarrow> io_result" where
  "copy_messages reader s =
     gbind (ReadMessage reader) (\<lambda>(res, reader').
       case res of
         Inl err \<Rightarrow> Inr (s, Some err)
       | Inr x \<Rightarrow>
           (case WriteMessage x (fst s) of
              (writer, Some err) \<Rightarrow> Inr ((writer, count_in (snd s)), Some err)
            | (writer, None) \<Rightarrow> copy_messages reader' (writer, count_out (count_in (snd s)))))"
  by pat_completeness auto
termination
  by (relation "measure (\<lambda>(reader, _). length (r_data reader))") (auto dest: ReadMessage_shrinks)

declare copy_messages.simps [simp del]

fun DoMergeTo :: "greader list \<Rightarrow> io_state \<Rightarrow> io_result" where
  "DoMergeTo [] s = Inr (s, None)"
| "DoMergeTo (reader # readers) s =
     gbind (copy_messages reader s) (\<lambda>(s, err).
       if err \<noteq> Some EOF then Inr (s, err) else DoMergeTo readers s)"

section \<open>Correctness of the k-way merge\<close>

text \<open>
  The state of the merge: the rows still to be read from each shard (\<open>rss\<close>, and \<open>krss\<close> with their keys
  chosen) are sorted, and a shard that has rows left has an item in the queue that is not after them.
\<close>

definition merge_inv :: "msgp_ops \<Rightarrow> nat \<Rightarrow> OrderBy list \<Rightarrow> kind list \<Rightarrow> int list \<Rightarrow>
    row list list \<Rightarrow> row list list \<Rightarrow> row PriorityQueue \<Rightarrow> bool" where
  "merge_inv ops kl bs ks ixs rss krss pq \<longleftrightarrow>
     pq_inv (lessThan bs) (olt bs ks) {r. ok_row kl bs ks r} pq \<and> length krss = length rss \<and>
     (\<forall>i<length rss. gmap (UseKeys ixs) (rss ! i) = Inr (krss ! i) \<and> (\<forall>r\<in>set (rss ! i). wire_ok ops r) \<and>
        (\<forall>r\<in>set (krss ! i). wire_ok ops r \<and> ok_row kl bs ks r) \<and> sorted_wrt (\<lambda>x y. \<not> olt bs ks y x) (krss ! i)) \<and>
     (\<forall>p\<in>set (pq_list pq). 0 \<le> snd p \<and> nat (snd p) < length rss \<and> wire_ok ops (fst p)) \<and>
     (\<forall>i<length rss. krss ! i \<noteq> [] \<longrightarrow>
        (\<exists>x. (x, int i) \<in> set (pq_list pq) \<and> (\<forall>y\<in>set (krss ! i). \<not> olt bs ks y x)))"

lemma merge_inv_head:
  "merge_inv ops kl bs ks ixs rss krss pq \<Longrightarrow> i < length rss \<Longrightarrow> krss ! i \<noteq> [] \<Longrightarrow>
     \<exists>x. (x, int i) \<in> set (pq_list pq) \<and> (\<forall>y\<in>set (krss ! i). \<not> olt bs ks y x)"
  unfolding merge_inv_def by blast

lemma merge_inv_shard:
  assumes "merge_inv ops kl bs ks ixs rss krss pq" "i < length rss"
  shows "gmap (UseKeys ixs) (rss ! i) = Inr (krss ! i)" "\<forall>r\<in>set (rss ! i). wire_ok ops r"
    "\<forall>r\<in>set (krss ! i). wire_ok ops r \<and> ok_row kl bs ks r" "sorted_wrt (\<lambda>x y. \<not> olt bs ks y x) (krss ! i)"
  using assms unfolding merge_inv_def by blast+

lemma merge_inv_queue:
  assumes "merge_inv ops kl bs ks ixs rss krss pq"
  shows "pq_inv (lessThan bs) (olt bs ks) {r. ok_row kl bs ks r} pq" "length krss = length rss"
    "(x, i) \<in> set (pq_list pq) \<Longrightarrow> 0 \<le> i \<and> nat i < length rss \<and> wire_ok ops x \<and> ok_row kl bs ks x"
  using assms unfolding merge_inv_def pq_inv_def pq_ok_def by (blast, blast, fastforce)

lemma concat_update:
  assumes "i < length xss" "xss ! i = x # xs"
  shows "mset (concat xss) = add_mset x (mset (concat (xss[i := xs])))"
    "length (concat xss) = Suc (length (concat (xss[i := xs])))"
proof -
  have xss: "xss = take i xss @ (x # xs) # drop (Suc i) xss" using assms by (metis id_take_nth_drop)
  have up: "xss[i := xs] = take i xss @ xs # drop (Suc i) xss" using assms(1) by (simp add: upd_conv_take_nth_drop)
  have "mset (concat (take i xss @ (x # xs) # drop (Suc i) xss)) =
      add_mset x (mset (concat (take i xss @ xs # drop (Suc i) xss)))" by simp
  then show m: "mset (concat xss) = add_mset x (mset (concat (xss[i := xs])))" using xss up by metis
  show "length (concat xss) = Suc (length (concat (xss[i := xs])))" using arg_cong [OF m, of size] by simp
qed

text \<open>Whatever the queue shows first is not after anything that is still to come.\<close>

lemma merge_inv_first:
  assumes "merge_inv ops kl bs ks ixs rss krss pq" "\<forall>p\<in>set (pq_list pq). \<not> olt bs ks (fst p) x" "ok_row kl bs ks x"
    and "y \<in> fst ` set (pq_list pq) \<or> y \<in> set (concat krss)"
  shows "\<not> olt bs ks y x"
  using assms(4)
proof
  assume "y \<in> set (concat krss)"
  then obtain i where i: "i < length krss" "y \<in> set (krss ! i)" by (metis UN_E in_set_conv_nth set_concat)
  then have kr: "krss ! i \<noteq> []" "i < length rss" using merge_inv_queue(2) [OF assms(1)] by auto
  then obtain z where z: "(z, int i) \<in> set (pq_list pq)" "\<not> olt bs ks y z"
    using merge_inv_head [OF assms(1)] i(2) by blast
  have "ok_row kl bs ks z" using merge_inv_queue(3) [OF assms(1) z(1)] by blast
  moreover have "ok_row kl bs ks y" using merge_inv_shard(3) [OF assms(1) kr(2)] i(2) by blast
  moreover have "\<not> olt bs ks z x" using assms(2) z(1) by fastforce
  ultimately show ?thesis using swo_on_trans [OF olt_swo [of kl bs ks], of x z y] z(2) assms(3) by blast
qed (use assms(2) in auto)

lemma io_after_out_first: "io_after ops n outs (out_rows ops [x] s) = io_after ops n (x # outs) s"
  by (simp add: io_after_def out_rows_def in_rows_def algebra_simps)

lemma merge_loop_ok:
  assumes "merge_inv ops kl bs ks ixs rss krss pq" "w_cap (fst s) = None"
  shows "\<exists>outs. merge_loop ops ixs (map (rows_reader ops) rss) pq s = Inr (io_after ops (length (concat rss)) outs s, None) \<and>
    mset outs = image_mset fst (mset (pq_list pq)) + mset (concat krss) \<and> sorted_wrt (\<lambda>x y. \<not> olt bs ks y x) outs"
  using assms
proof (induction "2 * length (concat rss) + length (pq_list pq)" arbitrary: rss krss pq s rule: less_induct)
  case less
  note inv = less.prems(1)
  note shard = merge_inv_shard [OF inv] and queue = merge_inv_queue [OF inv]
  have Len: "pq_Len pq = length (pq_list pq)" by (simp add: pq_Len_def pq_list_def)
  show ?case
  proof (cases "pq_list pq = []")
    case True
    have k: "krss ! i = []" if "i < length rss" for i using merge_inv_head [OF inv that] True by auto
    then have "\<forall>ys\<in>set krss. ys = []" using queue(2) by (metis in_set_conv_nth)
    moreover have "rss ! i = []" if "i < length rss" for i
      using gmap_eq_Inr_length [OF shard(1) [OF that]] k [OF that] by simp
    then have "\<forall>ys\<in>set rss. ys = []" by (metis in_set_conv_nth)
    ultimately have c: "concat krss = []" "concat rss = []" by auto
    show ?thesis unfolding c using True Len by (subst merge_loop.simps) (simp add: exI [of _ "[]"])
  next
    case False
    obtain q x i where q: "Dequeue pq = Inr (q, x, i)" "pq_inv (lessThan bs) (olt bs ks) {r. ok_row kl bs ks r} q"
        "(x, i) = hd (pq_list pq)" "mset (pq_list pq) = add_mset (x, i) (mset (pq_list q))"
        "\<forall>p\<in>set (pq_list pq). \<not> olt bs ks (fst p) x"
      using ol.Dequeue_ok [OF queue(1) False] by blast
    have xi: "(x, i) \<in> set (pq_list pq)" using q(3) False by simp
    then have i: "0 \<le> i" "nat i < length rss" "wire_ok ops x" "ok_row kl bs ks x"
      using queue(3) by blast+
    have sub: "set (pq_list pq) = insert (x, i) (set (pq_list q))" using q(4) by (metis set_mset_add_mset_insert set_mset_mset)
    have lenq: "length (pq_list pq) = Suc (length (pq_list q))" using arg_cong [OF q(4), of size] by simp
    have ne: "pq_Len pq \<noteq> 0" using False by (simp add: pq_Len_def pq_list_def)
    let ?s = "out_rows ops [x] s"
    have wr: "WriteTo ops x (fst s) = (fst ?s, None)" "snd ?s = count_out (snd s)"
      using i(3) less.prems(2) by (simp_all add: out_rows_def)
    have rd: "go_index (map (rows_reader ops) rss) i = Inr (rows_reader ops (rss ! nat i))"
      using i by (simp add: go_index_def)
    have first: "\<not> olt bs ks y x" if "y \<in> fst ` set (pq_list pq) \<or> y \<in> set (concat krss)" for y
      using merge_inv_first [OF less.prems(1) q(5) i(4) that] .
    show ?thesis
    proof (cases "rss ! nat i")
      case Nil
      then have k: "krss ! nat i = []" using gmap_eq_Inr_length [OF shard(1) [OF i(2)]] by simp
      have inv': "merge_inv ops kl bs ks ixs rss krss q"
        unfolding merge_inv_def
      proof (intro conjI allI impI)
        fix j assume "j < length rss" "krss ! j \<noteq> []"
        then show "\<exists>z. (z, int j) \<in> set (pq_list q) \<and> (\<forall>y\<in>set (krss ! j). \<not> olt bs ks y z)"
          using merge_inv_head [OF inv] sub k by fastforce
      next
        show "\<forall>p\<in>set (pq_list q). 0 \<le> snd p \<and> nat (snd p) < length rss \<and> wire_ok ops (fst p)"
          using queue(3) sub by fastforce
      qed (use shard queue(2) q(2) in auto)
      have eq: "merge_loop ops ixs (map (rows_reader ops) rss) pq s = merge_loop ops ixs (map (rows_reader ops) rss) q ?s"
      proof -
        have "rss[nat i := []] = rss" using Nil by (metis list_update_id)
        moreover have "(fst ?s, count_out (snd s)) = ?s" by (simp flip: wr(2))
        ultimately show ?thesis
          using ne q(1) wr(1) rd Nil by (subst merge_loop.simps) (simp add: Let_def map_update [symmetric])
      qed
      obtain outs where "merge_loop ops ixs (map (rows_reader ops) rss) q ?s = Inr (io_after ops (length (concat rss)) outs ?s, None)"
          "mset outs = image_mset fst (mset (pq_list q)) + mset (concat krss)" "sorted_wrt (\<lambda>x y. \<not> olt bs ks y x) outs"
        using less.hyps [OF _ inv', of ?s] lenq less.prems(2) by auto
      moreover from this(2) have "set outs = fst ` set (pq_list q) \<union> set (concat krss)"
        by (metis set_image_mset set_mset_mset set_mset_union)
      ultimately show ?thesis
        using eq first sub q(4) by (intro exI [of _ "x # outs"]) (auto simp: io_after_out_first)
    next
      case (Cons r rs)
      then obtain k kss where k: "UseKeys ixs r = Inr k" "gmap (UseKeys ixs) rs = Inr kss" "krss ! nat i = k # kss"
        using shard(1) [OF i(2)] by (auto simp: gbind_eq_Inr)
      have okk: "wire_ok ops k" "ok_row kl bs ks k" "wire_ok ops r"
        using shard(2,3) [OF i(2)] k(3) Cons by simp_all
      obtain q' where q': "Enqueue k i q = Inr q'" "pq_inv (lessThan bs) (olt bs ks) {r. ok_row kl bs ks r} q'"
          "mset (pq_list q') = add_mset (k, i) (mset (pq_list q))"
        using ol.Enqueue_ok [OF q(2), of k i] okk by auto
      have sub': "set (pq_list q') = insert (k, i) (set (pq_list q))" using q'(3) by (metis set_mset_add_mset_insert set_mset_mset)
      let ?rss = "rss[nat i := rs]" and ?krss = "krss[nat i := kss]"
      have inv': "merge_inv ops kl bs ks ixs ?rss ?krss q'"
        unfolding merge_inv_def
      proof (intro conjI allI impI)
        fix j assume "j < length ?rss" "?krss ! j \<noteq> []"
        then show "\<exists>z. (z, int j) \<in> set (pq_list q') \<and> (\<forall>y\<in>set (?krss ! j). \<not> olt bs ks y z)"
        proof (cases "j = nat i")
          case True
          then have "\<forall>y\<in>set (?krss ! j). \<not> olt bs ks y k"
            using shard(4) [OF i(2)] queue(2) i(2) k(3) by simp
          then show ?thesis using sub' True i(1) by (intro exI [of _ k]) simp
        next
          case ne: False
          then have j: "j < length rss" "krss ! j \<noteq> []" "?krss ! j = krss ! j"
            using \<open>j < length ?rss\<close> \<open>?krss ! j \<noteq> []\<close> by simp_all
          then obtain z where "(z, int j) \<in> set (pq_list pq)" "\<forall>y\<in>set (krss ! j). \<not> olt bs ks y z"
            using merge_inv_head [OF inv] by blast
          then show ?thesis using sub sub' ne j(3) by (intro exI [of _ z]) auto
        qed
      next
        fix j assume "j < length ?rss"
        then have j: "j < length rss" by simp
        show "gmap (UseKeys ixs) (?rss ! j) = Inr (?krss ! j)" "\<forall>r\<in>set (?rss ! j). wire_ok ops r"
          "\<forall>r\<in>set (?krss ! j). wire_ok ops r \<and> ok_row kl bs ks r" "sorted_wrt (\<lambda>x y. \<not> olt bs ks y x) (?krss ! j)"
          using shard [OF j] k Cons queue(2) j by (cases "j = nat i"; simp)+
      next
        show "\<forall>p\<in>set (pq_list q'). 0 \<le> snd p \<and> nat (snd p) < length ?rss \<and> wire_ok ops (fst p)"
          using queue(3) sub sub' okk(1) i(1,2) by fastforce
      qed (use queue(2) q'(2) in auto)
      have eq: "merge_loop ops ixs (map (rows_reader ops) rss) pq s =
          merge_loop ops ixs (map (rows_reader ops) ?rss) q' (fst ?s, count_in (snd ?s))"
        using ne q(1) wr rd Cons okk(3) k(1) q'(1) by (subst merge_loop.simps) (simp add: Let_def map_update)
      note cr = concat_update [OF i(2) Cons]
      have ki: "nat i < length krss" using queue(2) i(2) by simp
      note ck = concat_update [OF ki k(3)]
      have "2 * length (concat ?rss) + length (pq_list q') < 2 * length (concat rss) + length (pq_list pq)"
        using cr(2) lenq arg_cong [OF q'(3), of size] by simp
      then obtain outs where o: "merge_loop ops ixs (map (rows_reader ops) ?rss) q' (fst ?s, count_in (snd ?s)) =
            Inr (io_after ops (length (concat ?rss)) outs (fst ?s, count_in (snd ?s)), None)"
          "mset outs = image_mset fst (mset (pq_list q')) + mset (concat ?krss)" "sorted_wrt (\<lambda>x y. \<not> olt bs ks y x) outs"
        using less.hyps [OF _ inv', of "(fst ?s, count_in (snd ?s))"] less.prems(2) by auto
      have m: "mset outs = image_mset fst (mset (pq_list q)) + mset (concat krss)" using o(2) q'(3) ck(1) by simp
      then have "set outs = fst ` set (pq_list q) \<union> set (concat krss)"
        by (metis set_image_mset set_mset_mset set_mset_union)
      then have "\<forall>y\<in>set outs. \<not> olt bs ks y x" using first sub by auto
      moreover have "io_after ops (length (concat ?rss)) outs (fst ?s, count_in (snd ?s)) =
          io_after ops (length (concat rss)) (x # outs) s"
        using cr(2) by (simp add: io_after_def out_rows_def in_rows_def algebra_simps)
      ultimately show ?thesis using eq o m q(4) by (intro exI [of _ "x # outs"]) simp
    qed
  qed
qed

text \<open>The first rows of all shards, with the shard they come from.\<close>

fun heads :: "int \<Rightarrow> 'a list list \<Rightarrow> ('a \<times> int) list" where
  "heads j [] = []"
| "heads j (xs # xss) = (case xs of [] \<Rightarrow> [] | x # _ \<Rightarrow> [(x, j)]) @ heads (j + 1) xss"

lemma in_heads: "(x, k) \<in> set (heads j xss) \<longleftrightarrow> (\<exists>i<length xss. k = j + int i \<and> xss ! i \<noteq> [] \<and> x = hd (xss ! i))"
proof (induction xss arbitrary: j)
  case (Cons xs xss)
  have "(\<exists>i<length (xs # xss). k = j + int i \<and> (xs # xss) ! i \<noteq> [] \<and> x = hd ((xs # xss) ! i)) \<longleftrightarrow>
      (k = j \<and> xs \<noteq> [] \<and> x = hd xs) \<or> (\<exists>i<length xss. k = j + 1 + int i \<and> xss ! i \<noteq> [] \<and> x = hd (xss ! i))"
    by (simp add: Ex_less_Suc2 algebra_simps)
  then show ?case using Cons.IH [of "j + 1"] by (cases xs) auto
qed simp

lemma heads_tl:
  "image_mset fst (mset (heads j xss)) + mset (concat (map tl xss)) = mset (concat xss)"
  "length (heads j xss) + length (concat (map tl xss)) = length (concat xss)"
  by (induction xss arbitrary: j) (auto split: list.split)

lemma merge_start_ok:
  assumes "list_all2 (\<lambda>rows krows. gmap (UseKeys ixs) rows = Inr krows) rss krss"
    and "\<forall>rows\<in>set rss. \<forall>r\<in>set rows. wire_ok ops r" "\<forall>krows\<in>set krss. \<forall>r\<in>set krows. ok_row kl bs ks r"
    and "pq_inv (lessThan bs) (olt bs ks) {r. ok_row kl bs ks r} pq"
  shows "\<exists>pq'. merge_start ops ixs j (map (rows_reader ops) rss) pq (io_after ops n [] s) =
      Inr ((map (rows_reader ops) (map tl rss), pq', io_after ops (n + length (heads j krss)) [] s), None) \<and>
    pq_inv (lessThan bs) (olt bs ks) {r. ok_row kl bs ks r} pq' \<and>
    mset (pq_list pq') = mset (pq_list pq) + mset (heads j krss)"
  using assms
proof (induction rss krss arbitrary: j pq n rule: list_all2_induct)
  case (Cons rows rss krows krss)
  show ?case
  proof (cases rows)
    case Nil
    then have "krows = []" using Cons.hyps(1) by simp
    with Nil Cons.IH [of pq "j + 1" n] Cons.prems show ?thesis by auto
  next
    case r: (Cons r rs)
    then obtain k kss where k: "UseKeys ixs r = Inr k" "krows = k # kss" using Cons.hyps(1) by (auto simp: gbind_eq_Inr)
    have ok: "wire_ok ops r" "ok_row kl bs ks k" using r k Cons.prems by auto
    obtain q where q: "Enqueue k j pq = Inr q" "pq_inv (lessThan bs) (olt bs ks) {r. ok_row kl bs ks r} q"
        "mset (pq_list q) = add_mset (k, j) (mset (pq_list pq))"
      using ol.Enqueue_ok [OF Cons.prems(3), of k j] ok by auto
    from Cons.IH [OF _ _ q(2), of "j + 1" "Suc n"] Cons.prems r k ok q show ?thesis by auto
  qed
qed simp

lemma DoMergeSortedTo_ok:
  assumes "list_all2 (\<lambda>rows krows. gmap (UseKeys (getIndexesFromOrderBys bs)) rows = Inr krows) rss krss"
    and "\<forall>rows\<in>set rss. \<forall>r\<in>set rows. wire_ok ops r"
    and "\<forall>krows\<in>set krss. (\<forall>r\<in>set krows. wire_ok ops r \<and> ok_row kl bs ks r) \<and> sorted_wrt (\<lambda>x y. \<not> olt bs ks y x) krows"
    and "w_cap (fst s) = None"
  shows "\<exists>outs. DoMergeSortedTo ops (map (rows_reader ops) rss) bs s =
      Inr (io_after ops (length (concat rss)) outs s, None) \<and>
    mset outs = mset (concat krss) \<and> sorted_wrt (\<lambda>x y. \<not> olt bs ks y x) outs"
proof -
  let ?ixs = "getIndexesFromOrderBys bs"
  obtain pq0 where pq0: "newMinQueueOfPairs bs = Inr pq0" "pq_list pq0 = []"
      "pq_inv (lessThan bs) (olt bs ks) {r. ok_row kl bs ks r} pq0"
    using ol.NewPriorityQueue_ok [of bs ks kl] by (auto simp: newMinQueueOfPairs_def)
  have len: "length krss = length rss" using assms(1) by (simp add: list_all2_lengthD)
  obtain pq where start: "merge_start ops ?ixs 0 (map (rows_reader ops) rss) pq0 s =
        Inr ((map (rows_reader ops) (map tl rss), pq, io_after ops (length (heads 0 krss)) [] s), None)"
      and pq: "pq_inv (lessThan bs) (olt bs ks) {r. ok_row kl bs ks r} pq" "mset (pq_list pq) = mset (heads 0 krss)"
    using merge_start_ok [OF assms(1,2) _ pq0(3), of 0 0 s] assms(3) pq0(2) by auto
  have items: "(x, k) \<in> set (pq_list pq) \<longleftrightarrow> (\<exists>i<length krss. k = int i \<and> krss ! i \<noteq> [] \<and> x = hd (krss ! i))" for x k
    using mset_eq_set [OF pq(2)] in_heads [of x k 0 krss] by simp
  have shard: "gmap (UseKeys ?ixs) (rss ! i) = Inr (krss ! i)" "\<forall>r\<in>set (rss ! i). wire_ok ops r"
      "\<forall>r\<in>set (krss ! i). wire_ok ops r \<and> ok_row kl bs ks r" "sorted_wrt (\<lambda>x y. \<not> olt bs ks y x) (krss ! i)"
    if "i < length rss" for i
    using assms(1-3) that len by (auto simp: list_all2_conv_all_nth)
  have inv: "merge_inv ops kl bs ks ?ixs (map tl rss) (map tl krss) pq"
    unfolding merge_inv_def
  proof (intro conjI allI impI)
    fix i assume i: "i < length (map tl rss)"
    then have i': "i < length rss" by simp
    show "gmap (UseKeys ?ixs) (map tl rss ! i) = Inr (map tl krss ! i)" "\<forall>r\<in>set (map tl rss ! i). wire_ok ops r"
        "\<forall>r\<in>set (map tl krss ! i). wire_ok ops r \<and> ok_row kl bs ks r"
        "sorted_wrt (\<lambda>x y. \<not> olt bs ks y x) (map tl krss ! i)"
      using shard [OF i'] i' len
      by (cases "rss ! i"; cases "krss ! i"; auto simp: gbind_eq_Inr)+
    assume "map tl krss ! i \<noteq> []"
    then have "krss ! i \<noteq> []" "(hd (krss ! i), int i) \<in> set (pq_list pq)"
      using items [of "hd (krss ! i)" "int i"] i' len by auto
    then show "\<exists>x. (x, int i) \<in> set (pq_list pq) \<and> (\<forall>y\<in>set (map tl krss ! i). \<not> olt bs ks y x)"
      using shard(4) [OF i'] i' len by (intro exI [of _ "hd (krss ! i)"]) (cases "krss ! i"; simp)
  next
    show "\<forall>p\<in>set (pq_list pq). 0 \<le> snd p \<and> nat (snd p) < length (map tl rss) \<and> wire_ok ops (fst p)"
      using items shard(3) len by fastforce
  qed (use pq len in auto)
  obtain outs where outs: "merge_loop ops ?ixs (map (rows_reader ops) (map tl rss)) pq (io_after ops (length (heads 0 krss)) [] s) =
        Inr (io_after ops (length (concat (map tl rss))) outs (io_after ops (length (heads 0 krss)) [] s), None)"
      "mset outs = image_mset fst (mset (pq_list pq)) + mset (concat (map tl krss))" "sorted_wrt (\<lambda>x y. \<not> olt bs ks y x) outs"
    using merge_loop_ok [OF inv, of "io_after ops (length (heads 0 krss)) [] s"] assms(4) by auto
  have "length (concat (map tl rss)) = length (concat (map tl krss))" "length (concat rss) = length (concat krss)"
    using len shard(1) [THEN gmap_eq_Inr_length] by (auto simp: length_concat intro!: arg_cong [where f = sum_list] nth_equalityI)
  then have "io_after ops (length (concat (map tl rss))) outs (io_after ops (length (heads 0 krss)) [] s) =
      io_after ops (length (concat rss)) outs s"
    using heads_tl(2) [of 0 krss] by (simp add: io_after_def out_rows_def)
  with pq0(1) start outs show ?thesis
    using heads_tl(1) [of 0 krss] pq(2) by (auto simp: DoMergeSortedTo_def)
qed

text \<open>
  C7: If the rows of every shard, with the keys chosen by the order's columns, are sorted, then
  \<open>DoMergeSortedTo\<close> reads all of them and writes a sorted permutation of all rows.
\<close>

theorem DoMergeSortedTo_correct:
  assumes "list_all2 (\<lambda>rows krows. gmap (UseKeys (getIndexesFromOrderBys bs)) rows = Inr krows) rss krss"
    and "\<forall>rows\<in>set rss. \<forall>r\<in>set rows. wire_ok ops r"
    and "\<forall>krows\<in>set krss. (\<forall>r\<in>set krows. wire_ok ops r \<and> ok_row kl bs ks r) \<and> sorted_wrt (\<lambda>x y. \<not> olt bs ks y x) krows"
    and "w_cap (fst s) = None"
  shows "\<exists>outs. DoMergeSortedTo ops (map (rows_reader ops) rss) bs s =
      Inr (io_after ops (length (concat rss)) outs s, None) \<and>
    mset outs = mset (concat krss) \<and> sorted_wrt (\<lambda>x y. \<not> olt bs ks y x) outs"
  using assms by (rule DoMergeSortedTo_ok)

theorem DoMergeSortedTo_correct_witness:
  "\<exists>outs. DoMergeSortedTo mp_ops (map (rows_reader mp_ops) [[kv 1 1, kv 3 3], [kv 2 2]]) [\<lparr>ob_Index = 1, ob_Order = 1\<rparr>] io_start =
      Inr (io_after mp_ops 3 outs io_start, None) \<and>
    mset outs = {#kv 1 1, kv 3 3, kv 2 2#} \<and> sorted_wrt (\<lambda>x y. \<not> olt [\<lparr>ob_Index = 1, ob_Order = 1\<rparr>] [KInt] y x) outs"
  using DoMergeSortedTo_correct [of "[\<lparr>ob_Index = 1, ob_Order = 1\<rparr>]" "[[kv 1 1, kv 3 3], [kv 2 2]]" "[[kv 1 1, kv 3 3], [kv 2 2]]"
      mp_ops 1 "[KInt]" io_start]
  by (simp add: getIndexesFromOrderBys_def ok_row_def col_def row_fields_def valid_index_def ToInt64_def numeral_3_eq_3)

text \<open>
  When the order uses a column other than the first ones, the merge orders the rows by the wrong
  column: \<open>UseKeys\<close> moves the columns of the order to the front, and the comparison still uses their old
  numbers. Two shards that are each sorted by column 2 come out in descending order of that column.
\<close>

theorem DoMergeSortedTo_wrong_column:
  "\<exists>outs. DoMergeSortedTo mp_ops (map (rows_reader mp_ops) [[kv 1 9], [kv 2 5]]) [\<lparr>ob_Index = 2, ob_Order = 1\<rparr>] io_start =
      Inr (io_after mp_ops 2 outs io_start, None) \<and> map row_K outs = [[VInt64 9], [VInt64 5]]"
proof -
  let ?b = "[\<lparr>ob_Index = 2, ob_Order = 1\<rparr>]"
  have u: "UseKeys [2] (kv k v) = Inr (kv v k)" for k v
    by (simp add: UseKeys_def field_at_def go_index_def mark_used_def kv_def)
  have lt: "olt ?b [KInt] (kv k v) (kv k' v') \<longleftrightarrow> sint v < sint v'" for k v k' v'
    by (simp add: col_def row_fields_def ToInt64_def)
  have "ok_row 1 ?b [KInt] (kv 9 1)" "ok_row 1 ?b [KInt] (kv 5 2)"
    by (simp_all add: ok_row_def col_def row_fields_def valid_index_def ToInt64_def)
  with u DoMergeSortedTo_ok [of ?b "[[kv 1 9], [kv 2 5]]" "[[kv 9 1], [kv 5 2]]" mp_ops 1 "[KInt]" io_start]
  obtain outs where o: "DoMergeSortedTo mp_ops (map (rows_reader mp_ops) [[kv 1 9], [kv 2 5]]) ?b io_start =
      Inr (io_after mp_ops 2 outs io_start, None)" "mset outs = {#kv 9 1, kv 5 2#}"
      "sorted_wrt (\<lambda>x y. \<not> olt ?b [KInt] y x) outs"
    by (auto simp: getIndexesFromOrderBys_def numeral_2_eq_2)
  have "length outs = 2" using arg_cong [OF o(2), of size] by simp
  then obtain a b where ab: "outs = [a, b]" by (auto simp: numeral_2_eq_2 length_Suc_conv)
  have "outs = [kv 9 1, kv 5 2] \<or> outs = [kv 5 2, kv 9 1]"
    using o(2) unfolding ab by (auto simp: add_eq_conv_ex)
  then have "outs = [kv 9 1, kv 5 2]" using o(3) lt by auto
  with o(1) show ?thesis by auto
qed

section \<open>MergeTo\<close>

definition msgs_reader :: "bytes list \<Rightarrow> greader" where
  "msgs_reader ms = \<lparr>r_data = concat (map frame ms), r_end = EOF\<rparr>"

definition msgs_after :: "nat \<Rightarrow> bytes list \<Rightarrow> io_state \<Rightarrow> io_state" where
  "msgs_after n ms s =
     ((fst s)\<lparr>w_data := w_data (fst s) @ concat (map frame ms)\<rparr>,
      (in_rows n (snd s))\<lparr>OutputCounter := OutputCounter (snd s) + of_nat (length ms)\<rparr>)"

lemma copy_messages_ok:
  assumes "\<forall>m\<in>set ms. fits m" "w_cap (fst s) = None"
  shows "copy_messages (msgs_reader ms) s = Inr (msgs_after (length ms) ms s, Some EOF)"
  using assms
proof (induction ms arbitrary: s)
  case Nil
  then show ?case by (subst copy_messages.simps) (simp add: msgs_reader_def msgs_after_def)
next
  case (Cons m ms)
  let ?s = "((fst s)\<lparr>w_data := w_data (fst s) @ frame m\<rparr>, count_out (count_in (snd s)))"
  have "copy_messages (msgs_reader (m # ms)) s = copy_messages (msgs_reader ms) ?s"
    using Cons.prems by (subst copy_messages.simps) (simp add: msgs_reader_def)
  also have "\<dots> = Inr (msgs_after (length ms) ms ?s, Some EOF)" using Cons by simp
  also have "msgs_after (length ms) ms ?s = msgs_after (length (m # ms)) (m # ms) s"
    by (simp add: msgs_after_def in_rows_def algebra_simps)
  finally show ?case .
qed

text \<open>
  \<open>DoMergeTo\<close> writes the messages of all its inputs, unchanged, one input after the other.
\<close>

theorem DoMergeTo_correct:
  assumes "\<forall>ms\<in>set mss. \<forall>m\<in>set ms. fits m" "w_cap (fst s) = None"
  shows "DoMergeTo (map msgs_reader mss) s = Inr (msgs_after (length (concat mss)) (concat mss) s, None)"
  using assms
proof (induction mss arbitrary: s)
  case (Cons ms mss)
  have "msgs_after (length (concat mss)) (concat mss) (msgs_after (length ms) ms s) =
      msgs_after (length (concat (ms # mss))) (concat (ms # mss)) s"
    by (simp add: msgs_after_def in_rows_def algebra_simps)
  with Cons copy_messages_ok [of ms s] show ?case by (simp add: msgs_after_def)
qed (simp add: msgs_after_def)

theorem DoMergeTo_correct_witness:
  "DoMergeTo [msgs_reader [[1], [2, 3]], msgs_reader [[4]]] io_start =
     Inr (msgs_after 3 [[1], [2, 3], [4]] io_start, None)"
  using DoMergeTo_correct [of "[[[1], [2, 3]], [[4]]]" io_start] by (simp add: numeral_3_eq_3)

end
