(* ===== verification/JoinInstructions.thy ===== *)
theory JoinInstructions
  imports LocalInstructions MergeInstructions "HOL-Library.AList"
begin

text \<open>
  Joins of two streams that are partitioned and sorted by key (\<^verbatim>\<open>join_partitioned_sorted.go\<close>,
  \<^verbatim>\<open>cogroup_partitioned_sorted.go\<close>), and the hash join of a small with a big stream
  (\<^verbatim>\<open>local_hash_and_join_with.go\<close>). The channel that \<^verbatim>\<open>newChannelOfValuesWithSameKey\<close> (\<^verbatim>\<open>utils.go\<close>) fills from
  its goroutine delivers its rows in order to a single receiver, so it is the list of these rows.
\<close>

section \<open>Groups of rows with the same key\<close>

function same_key_loop :: "msgp_ops \<Rightarrow> int list \<Rightarrow> greader \<Rightarrow> row \<Rightarrow> row list go" where
  "same_key_loop ops indexes reader row =
     gbind (ReadRow ops reader) (\<lambda>(res, reader').
       case res of
         Inl err \<Rightarrow> Inr [row]
       | Inr newRow \<Rightarrow>
           gbind (UseKeys indexes newRow) (\<lambda>newRow.
           gbind (Compare (VSlice (row_K row)) (VSlice (row_K newRow))) (\<lambda>x.
             if x = 0 then
               same_key_loop ops indexes reader'
                 (row\<lparr>row_V := row_V row @ [VSlice (row_V newRow)], row_T := max_int64 (row_T row) (row_T newRow)\<rparr>)
             else
               gbind (same_key_loop ops indexes reader'
                   \<lparr>row_K = row_K newRow, row_V = [VSlice (row_V newRow)], row_T = max_int64 (row_T row) (row_T newRow)\<rparr>)
                 (\<lambda>rows. Inr (row # rows)))))"
  by pat_completeness auto
termination
  by (relation "measure (\<lambda>(ops, indexes, reader, row). length (r_data reader))") (auto dest: ReadRow_shrinks)

declare same_key_loop.simps [simp del]

definition newChannelOfValuesWithSameKey :: "msgp_ops \<Rightarrow> greader \<Rightarrow> int list \<Rightarrow> row list go" where
  "newChannelOfValuesWithSameKey ops sortedChan indexes =
     gbind (ReadRow ops sortedChan) (\<lambda>(res, reader).
       case res of
         Inl err \<Rightarrow> Inr []
       | Inr firstRow \<Rightarrow>
           gbind (UseKeys indexes firstRow) (\<lambda>firstRow.
             same_key_loop ops indexes reader
               \<lparr>row_K = row_K firstRow, row_V = [VSlice (row_V firstRow)], row_T = row_T firstRow\<rparr>))"

definition as_slice :: "gval \<Rightarrow> gval list go" where
  "as_slice v = (case v of VSlice xs \<Rightarrow> Inr xs | _ \<Rightarrow> Inl PanicTypeAssert)"

section \<open>Join\<close>

definition addNils :: "gval list \<Rightarrow> nat \<Rightarrow> gval list" where
  "addNils target nilCount = target @ replicate nilCount VNil"

definition join_pairs :: "int64 \<Rightarrow> row \<Rightarrow> row \<Rightarrow> row list go" where
  "join_pairs ts l r =
     gbind (gmap as_slice (row_V l)) (\<lambda>as.
     gbind (gmap as_slice (row_V r)) (\<lambda>bs.
       Inr (concat (map (\<lambda>a. map (\<lambda>b.
         AppendValue b (AppendValue a (AppendKey (row_K l) (NewRow ts [])))) bs) as))))"

definition left_rows :: "int64 \<Rightarrow> nat \<Rightarrow> row \<Rightarrow> row list go" where
  "left_rows ts rightValueLength l =
     gbind (gmap as_slice (row_V l)) (\<lambda>as.
       Inr (map (\<lambda>a. AppendValue (addNils a rightValueLength) (AppendKey (row_K l) (NewRow ts []))) as))"

definition right_rows :: "int64 \<Rightarrow> nat \<Rightarrow> row \<Rightarrow> row list go" where
  "right_rows ts leftValueLength r =
     gbind (gmap as_slice (row_V r)) (\<lambda>bs.
       Inr (map (\<lambda>b. AppendValue (addNils [] leftValueLength @ b) (AppendKey (row_K r) (NewRow ts []))) bs))"

definition add_in :: "nat \<Rightarrow> io_state \<Rightarrow> io_state" where
  "add_in n s = (fst s, in_rows n (snd s))"

fun outer_rest :: "msgp_ops \<Rightarrow> (int64 \<Rightarrow> row \<Rightarrow> row list go) \<Rightarrow> bool \<Rightarrow> row list \<Rightarrow> io_state \<Rightarrow> io_state go" where
  "outer_rest ops rows_of isOuter [] s = Inr s"
| "outer_rest ops rows_of isOuter (g # gs) s =
     gbind (if isOuter then rows_of (row_T g) g else Inr []) (\<lambda>rows.
       outer_rest ops rows_of isOuter gs (fold (emit_unchecked ops) rows (add_in 1 s)))"

definition outer_tail :: "msgp_ops \<Rightarrow> (int64 \<Rightarrow> row \<Rightarrow> row list go) \<Rightarrow> bool \<Rightarrow> row list \<Rightarrow> io_state \<Rightarrow> io_state go" where
  "outer_tail ops rows_of isOuter gs s =
     (case gs of
        [] \<Rightarrow> Inr s
      | g # gs \<Rightarrow>
          gbind (if isOuter then rows_of (row_T g) g else Inr []) (\<lambda>rows.
            outer_rest ops rows_of isOuter gs (fold (emit_unchecked ops) rows s)))"

fun join_loop :: "msgp_ops \<Rightarrow> bool \<Rightarrow> bool \<Rightarrow> nat \<Rightarrow> nat \<Rightarrow> row list \<Rightarrow> row list \<Rightarrow> io_state \<Rightarrow> io_state go" where
  "join_loop ops isLeftOuterJoin isRightOuterJoin leftLen rightLen (l # ls) (r # rs) s =
     gbind (Compare (VSlice (row_K l)) (VSlice (row_K r))) (\<lambda>x.
       let ts = max_int64 (row_T l) (row_T r) in
       if x = 0 then
         gbind (join_pairs ts l r) (\<lambda>rows.
           join_loop ops isLeftOuterJoin isRightOuterJoin leftLen rightLen ls rs
             (add_in 2 (fold (emit_unchecked ops) rows s)))
       else if x < 0 then
         gbind (if isLeftOuterJoin then left_rows ts rightLen l else Inr []) (\<lambda>rows.
           join_loop ops isLeftOuterJoin isRightOuterJoin leftLen rightLen ls (r # rs)
             (add_in 1 (fold (emit_unchecked ops) rows s)))
       else
         gbind (if isRightOuterJoin then right_rows ts leftLen r else Inr []) (\<lambda>rows.
           join_loop ops isLeftOuterJoin isRightOuterJoin leftLen rightLen (l # ls) rs
             (add_in 1 (fold (emit_unchecked ops) rows s))))"
| "join_loop ops isLeftOuterJoin isRightOuterJoin leftLen rightLen ls rs s =
     gbind (outer_tail ops (\<lambda>ts. left_rows ts rightLen) isLeftOuterJoin ls s)
       (outer_tail ops (\<lambda>ts. right_rows ts leftLen) isRightOuterJoin rs)"

definition value_length :: "row list \<Rightarrow> nat go" where
  "value_length gs =
     (case gs of
        [] \<Rightarrow> Inr 0
      | g # _ \<Rightarrow> gbind (go_index (row_V g) 0) (\<lambda>v. gbind (as_slice v) (\<lambda>xs. Inr (length xs))))"

definition DoJoinPartitionedSorted :: "msgp_ops \<Rightarrow> greader \<Rightarrow> greader \<Rightarrow> int list \<Rightarrow> bool \<Rightarrow> bool \<Rightarrow> io_state \<Rightarrow> io_result" where
  "DoJoinPartitionedSorted ops leftRawChan rightRawChan indexes isLeftOuterJoin isRightOuterJoin s =
     gbind (newChannelOfValuesWithSameKey ops leftRawChan indexes) (\<lambda>ls.
     gbind (newChannelOfValuesWithSameKey ops rightRawChan indexes) (\<lambda>rs.
     gbind (value_length ls) (\<lambda>leftLen.
     gbind (value_length rs) (\<lambda>rightLen.
     gbind (join_loop ops isLeftOuterJoin isRightOuterJoin leftLen rightLen ls rs s) (\<lambda>s. Inr (s, None))))))"

section \<open>CoGroup\<close>

definition cogroup_row :: "int64 \<Rightarrow> gval list \<Rightarrow> gval list \<Rightarrow> gval list \<Rightarrow> row" where
  "cogroup_row ts keys leftV rightV =
     AppendValue [VSlice rightV] (AppendValue [VSlice leftV] (AppendKey keys (NewRow ts [])))"

fun cogroup_loop :: "msgp_ops \<Rightarrow> row list \<Rightarrow> row list \<Rightarrow> io_state \<Rightarrow> io_state go" where
  "cogroup_loop ops (l # ls) (r # rs) s =
     gbind (Compare (VSlice (row_K l)) (VSlice (row_K r))) (\<lambda>x.
       let ts = max_int64 (row_T l) (row_T r) in
       if x = 0 then
         cogroup_loop ops ls rs (add_in 2 (emit_unchecked ops (cogroup_row ts (row_K l) (row_V l) (row_V r)) s))
       else if x < 0 then
         cogroup_loop ops ls (r # rs) (add_in 1 (emit_unchecked ops (cogroup_row ts (row_K l) (row_V l) []) s))
       else
         cogroup_loop ops (l # ls) rs (add_in 1 (emit_unchecked ops (cogroup_row ts (row_K l) [] (row_V r)) s)))"
| "cogroup_loop ops (l # ls) [] s =
     cogroup_loop ops ls [] (add_in 1 (emit_unchecked ops (cogroup_row (row_T l) (row_K l) (row_V l) []) s))"
| "cogroup_loop ops [] (r # rs) s =
     cogroup_loop ops [] rs (add_in 1 (emit_unchecked ops (cogroup_row (row_T r) (row_K r) [] (row_V r)) s))"
| "cogroup_loop ops [] [] s = Inr s"

definition DoCoGroupPartitionedSorted :: "msgp_ops \<Rightarrow> greader \<Rightarrow> greader \<Rightarrow> int list \<Rightarrow> io_state \<Rightarrow> io_result" where
  "DoCoGroupPartitionedSorted ops leftRawChan rightRawChan indexes s =
     gbind (newChannelOfValuesWithSameKey ops leftRawChan indexes) (\<lambda>ls.
     gbind (newChannelOfValuesWithSameKey ops rightRawChan indexes) (\<lambda>rs.
     gbind (cogroup_loop ops ls rs s) (\<lambda>s. Inr (s, None))))"

section \<open>Hash join\<close>

text \<open>
  \<^verbatim>\<open>EncodeKeys\<close> (\<^verbatim>\<open>util/row_read_write.go\<close>) writes the keys to a \<^verbatim>\<open>msgp.Writer\<close> over a byte buffer and returns
  the buffer, without flushing the writer: \<open>reached b\<close> are the bytes of \<open>b\<close> that have then left the
  buffer of that writer, which is part of the library.
\<close>

definition EncodeKeys :: "msgp_ops \<Rightarrow> (bytes \<Rightarrow> bytes) \<Rightarrow> gval list \<Rightarrow> gerror + bytes" where
  "EncodeKeys ops reached anyObject =
     (case append_intfs ops anyObject [] of
        Inl err \<Rightarrow> Inl (Errorf ''Failed to encode key'' (Some err))
      | Inr bs \<Rightarrow> Inr (reached bs))"

definition key_bytes :: "gerror + bytes \<Rightarrow> bytes" where
  "key_bytes r = (case r of Inl _ \<Rightarrow> [] | Inr bs \<Rightarrow> bs)"

definition hash_build :: "msgp_ops \<Rightarrow> (bytes \<Rightarrow> bytes) \<Rightarrow> row \<Rightarrow> io_state \<times> (bytes \<times> row) list \<Rightarrow>
    ((io_state \<times> (bytes \<times> row) list) \<times> gerror option) go" where
  "hash_build ops reached row = (\<lambda>((writer, stats), hashmap).
     Inr (((writer, count_in stats), AList.update (key_bytes (EncodeKeys ops reached (row_K row))) row hashmap), None))"

definition hash_probe :: "msgp_ops \<Rightarrow> (bytes \<Rightarrow> bytes) \<Rightarrow> (bytes \<times> row) list \<Rightarrow> row \<Rightarrow> io_state \<Rightarrow> io_result" where
  "hash_probe ops reached hashmap row = (\<lambda>(writer, stats).
     case EncodeKeys ops reached (row_K row) of
       Inl err \<Rightarrow> Inr ((writer, count_in stats), Some (Errorf ''Failed to encoded keys'' (Some err)))
     | Inr keyBytes \<Rightarrow>
        (case map_of hashmap keyBytes of
           Some mappedRow \<Rightarrow>
             Inr (emit_unchecked ops (AppendValue (row_V mappedRow) row) (writer, count_in stats), None)
         | None \<Rightarrow> Inr ((writer, count_in stats), None)))"

definition DoLocalHashAndJoinWith :: "msgp_ops \<Rightarrow> (bytes \<Rightarrow> bytes) \<Rightarrow> greader \<Rightarrow> greader \<Rightarrow> int list \<Rightarrow> io_state \<Rightarrow> io_result" where
  "DoLocalHashAndJoinWith ops reached leftReader rightReader indexes s =
     gbind (ProcessRow ops leftReader indexes (hash_build ops reached) (s, []))
       (\<lambda>((s, hashmap), err).
         if err \<noteq> None then Inr (s, err)
         else if length hashmap = 0 then Inr (s, None)
         else ProcessRow ops rightReader indexes (hash_probe ops reached hashmap) s)"

section \<open>What the channel of groups delivers\<close>

definition kv_of :: "row \<Rightarrow> gval list \<times> gval list" where
  "kv_of r = (row_K r, row_V r)"

definition kv_group :: "row list \<Rightarrow> gval list \<times> gval list" where
  "kv_group g = (row_K (hd g), map (\<lambda>r. VSlice (row_V r)) g)"

fun key_groups :: "row \<Rightarrow> row list \<Rightarrow> row list" where
  "key_groups row [] = [row]"
| "key_groups row (newRow # rows) =
     (if same_key row newRow
      then key_groups (row\<lparr>row_V := row_V row @ [VSlice (row_V newRow)], row_T := max_int64 (row_T row) (row_T newRow)\<rparr>) rows
      else row # key_groups \<lparr>row_K = row_K newRow, row_V = [VSlice (row_V newRow)],
             row_T = max_int64 (row_T row) (row_T newRow)\<rparr> rows)"

lemma same_key_sym:
  "has_kinds ks (row_K a) \<Longrightarrow> has_kinds ks (row_K b) \<Longrightarrow> same_key a b = same_key b a"
  by (auto simp: same_key_def key_eq_klt)

lemma same_key_loop_ok:
  assumes "\<forall>r\<in>set rows. wire_ok ops r" "gmap (UseKeys ixs) rows = Inr krows"
    and "\<forall>r\<in>set krows. has_kinds ks (row_K r)" "has_kinds ks (row_K row)"
  shows "same_key_loop ops ixs (rows_reader ops rows) row = Inr (key_groups row krows)"
  using assms
proof (induction rows arbitrary: krows row)
  case Nil
  then show ?case by (subst same_key_loop.simps) simp
next
  case (Cons r rows)
  then obtain k kss where k: "UseKeys ixs r = Inr k" "gmap (UseKeys ixs) rows = Inr kss" "krows = k # kss"
    by (auto simp: gbind_eq_Inr)
  have "has_kinds ks (row_K k)" using Cons.prems(3) k(3) by simp
  from Compare_kinds [OF Cons.prems(4) this] obtain x where x: "Compare (VSlice (row_K row)) (VSlice (row_K k)) = Inr x"
    by blast
  then have "x = 0 \<longleftrightarrow> same_key row k" by (simp add: same_key_def key_eq_def)
  with x k Cons show ?case by (subst same_key_loop.simps) simp
qed

lemma map_butlast_last: "xs \<noteq> [] \<Longrightarrow> map f (butlast xs) @ [f (last xs)] = map f xs"
  by (cases xs rule: rev_cases) auto

text \<open>Up to the timestamps, the channel delivers the runs of equal keys.\<close>

lemma key_groups_runs:
  assumes "pre \<noteq> []" "kv_of row = kv_group (last (runs pre))" "\<forall>r\<in>set (pre @ rows). has_kinds ks (row_K r)"
  shows "map kv_group (butlast (runs pre)) @ map kv_of (key_groups row rows) = map kv_group (runs (pre @ rows))"
  using assms
proof (induction rows arbitrary: pre row)
  case Nil
  then have "runs pre \<noteq> []" by simp
  then have "map kv_group (runs pre) = map kv_group (butlast (runs pre)) @ [kv_group (last (runs pre))]"
    by (simp add: map_butlast_last)
  with Nil show ?case by simp
next
  case (Cons r rows)
  let ?l = "last (runs pre)"
  have l: "?l \<in> set (runs pre)" "?l \<noteq> []" using Cons.prems(1) runs_nonempty [of ?l pre] by auto
  have K: "row_K row = row_K (hd ?l)" "row_V row = map (\<lambda>r. VSlice (row_V r)) ?l"
    using Cons.prems(2) by (simp_all add: kv_of_def kv_group_def)
  have kl: "has_kinds ks (row_K (hd ?l))" by (rule hd_run_kinds) (use Cons.prems in auto)
  have sk: "same_key row r \<longleftrightarrow> same_key r (hd ?l)"
    using same_key_sym [of ks r "hd ?l"] kl Cons.prems(3) K(1) by (simp add: same_key_def)
  show ?case
  proof (cases "same_key r (hd ?l)")
    case True
    note same = runs_snoc_same [OF Cons.prems(1) True]
    let ?row = "row\<lparr>row_V := row_V row @ [VSlice (row_V r)], row_T := max_int64 (row_T row) (row_T r)\<rparr>"
    have "kv_of ?row = kv_group (last (runs (pre @ [r])))"
      using K l(2) same(3) by (simp add: kv_of_def kv_group_def)
    with Cons.IH [of "pre @ [r]" ?row] Cons.prems(3) True sk same(2) show ?thesis by simp
  next
    case False
    let ?row = "\<lparr>row_K = row_K r, row_V = [VSlice (row_V r)], row_T = max_int64 (row_T row) (row_T r)\<rparr>"
    have new: "runs (pre @ [r]) = runs pre @ [[r]]" using False by (simp add: runs_snoc_new)
    have "map kv_group (runs pre) = map kv_group (butlast (runs pre)) @ [kv_of row]"
      using map_butlast_last [of "runs pre" kv_group] Cons.prems(1,2) by simp
    moreover have "kv_of ?row = kv_group (last (runs (pre @ [r])))" by (simp add: new kv_of_def kv_group_def)
    ultimately show ?thesis using Cons.IH [of "pre @ [r]" ?row] Cons.prems(3) False sk new by simp
  qed
qed

lemma channel_ok:
  assumes "\<forall>r\<in>set rows. wire_ok ops r" "gmap (UseKeys ixs) rows = Inr krows" "\<forall>r\<in>set krows. has_kinds ks (row_K r)"
  shows "\<exists>gs. newChannelOfValuesWithSameKey ops (rows_reader ops rows) ixs = Inr gs \<and> map kv_of gs = map kv_group (runs krows)"
proof (cases rows)
  case Nil
  with assms(2) show ?thesis by (auto simp: newChannelOfValuesWithSameKey_def)
next
  case (Cons r rs)
  then obtain k kss where k: "UseKeys ixs r = Inr k" "gmap (UseKeys ixs) rs = Inr kss" "krows = k # kss"
    using assms(2) by (auto simp: gbind_eq_Inr)
  let ?row = "\<lparr>row_K = row_K k, row_V = [VSlice (row_V k)], row_T = row_T k\<rparr>"
  have "same_key_loop ops ixs (rows_reader ops rs) ?row = Inr (key_groups ?row kss)"
    by (rule same_key_loop_ok) (use assms k Cons in auto)
  moreover have "map kv_of (key_groups ?row kss) = map kv_group (runs krows)"
    using key_groups_runs [of "[k]" ?row kss ks] assms(3) k(3) by (simp add: kv_of_def kv_group_def)
  ultimately show ?thesis using Cons k(1) assms(1) by (simp add: newChannelOfValuesWithSameKey_def)
qed

section \<open>The join against its specification\<close>

text \<open>
  The reference: all pairs of matching groups, and for the outer joins the groups without a partner.
\<close>

definition jspec :: "('l \<Rightarrow> 'r \<Rightarrow> bool) \<Rightarrow> ('l \<Rightarrow> 'r \<Rightarrow> 'x list) \<Rightarrow> ('l \<Rightarrow> 'x list) \<Rightarrow> ('r \<Rightarrow> 'x list) \<Rightarrow> 'l list \<Rightarrow> 'r list \<Rightarrow> 'x list" where
  "jspec M f gl gr ls rs =
     concat (map (\<lambda>l. concat (map (\<lambda>r. if M l r then f l r else []) rs)) ls) @
     concat (map (\<lambda>l. if list_ex (M l) rs then [] else gl l) ls) @
     concat (map (\<lambda>r. if list_ex (\<lambda>l. M l r) ls then [] else gr r) rs)"

lemma jspec_match:
  assumes "M l r" "\<forall>r'\<in>set rs. \<not> M l r'" "\<forall>l'\<in>set ls. \<not> M l' r"
  shows "mset (jspec M f gl gr (l # ls) (r # rs)) = mset (f l r) + mset (jspec M f gl gr ls rs)"
  using assms by (simp add: jspec_def list_ex_iff cong: map_cong)

lemma jspec_left:
  assumes "\<forall>r\<in>set rs. \<not> M l r"
  shows "mset (jspec M f gl gr (l # ls) rs) = mset (gl l) + mset (jspec M f gl gr ls rs)"
  using assms by (auto simp: jspec_def list_ex_iff cong: map_cong)

lemma jspec_right:
  assumes "\<forall>l\<in>set ls. \<not> M l r"
  shows "mset (jspec M f gl gr ls (r # rs)) = mset (gr r) + mset (jspec M f gl gr ls rs)"
  using assms by (auto simp: jspec_def list_ex_iff cong: map_cong)

lemma jspec_Nil:
  "jspec M f gl gr ls [] = concat (map gl ls)" "jspec M f gl gr [] rs = concat (map gr rs)"
  by (simp_all add: jspec_def)

definition join_match :: "row list \<Rightarrow> row list \<Rightarrow> bool" where
  "join_match g h = same_key (hd g) (hd h)"

definition join_both :: "row list \<Rightarrow> row list \<Rightarrow> (gval list \<times> gval list) list" where
  "join_both g h = concat (map (\<lambda>a. map (\<lambda>b. (row_K (hd g), row_V a @ row_V b)) h) g)"

definition join_left :: "bool \<Rightarrow> nat \<Rightarrow> row list \<Rightarrow> (gval list \<times> gval list) list" where
  "join_left outer m g = (if outer then map (\<lambda>a. (row_K (hd g), row_V a @ replicate m VNil)) g else [])"

definition join_right :: "bool \<Rightarrow> nat \<Rightarrow> row list \<Rightarrow> (gval list \<times> gval list) list" where
  "join_right outer n h = (if outer then map (\<lambda>b. (row_K (hd h), replicate n VNil @ row_V b)) h else [])"

definition join_spec :: "bool \<Rightarrow> bool \<Rightarrow> nat \<Rightarrow> nat \<Rightarrow> row list list \<Rightarrow> row list list \<Rightarrow> (gval list \<times> gval list) list" where
  "join_spec lo ro n m Ls Rs = jspec join_match join_both (join_left lo m) (join_right ro n) Ls Rs"

definition wire_kv :: "msgp_ops \<Rightarrow> gval list \<times> gval list \<Rightarrow> bool" where
  "wire_kv ops p \<longleftrightarrow> (\<forall>t. wire_ok ops \<lparr>row_K = fst p, row_V = snd p, row_T = t\<rparr>)"

lemma emit_kv:
  assumes "map kv_of rows = ps" "\<forall>p\<in>set ps. wire_kv ops p" "w_cap (fst s) = None"
  shows "fold (emit_unchecked ops) rows s = out_rows ops rows s"
proof (rule emit_unchecked_all)
  show "\<forall>r\<in>set rows. wire_ok ops r"
  proof
    fix r assume "r \<in> set rows"
    then have "wire_kv ops (kv_of r)" using assms(1,2) by auto
    then show "wire_ok ops r" unfolding wire_kv_def kv_of_def by (cases r) auto
  qed
qed (rule assms(3))

lemma gmap_as_slice: "gmap as_slice (map (\<lambda>r. VSlice (row_V r)) g) = Inr (map row_V g)"
  by (induction g) (simp_all add: as_slice_def)

lemma join_rows_kv:
  assumes "kv_of l = kv_group g"
  shows "kv_of r = kv_group h \<Longrightarrow> \<exists>rows. join_pairs ts l r = Inr rows \<and> map kv_of rows = join_both g h"
    and "\<exists>rows. left_rows ts m l = Inr rows \<and> map kv_of rows = join_left True m g"
    and "\<exists>rows. right_rows ts n l = Inr rows \<and> map kv_of rows = join_right True n g"
  using assms by (auto simp: kv_of_def kv_group_def join_pairs_def left_rows_def right_rows_def gmap_as_slice
      join_both_def join_left_def join_right_def NewRow_def AppendKey_def AppendValue_def addNils_def map_concat comp_def)

lemma io_after_add_in: "io_after ops k outs (add_in j (out_rows ops rows s)) = io_after ops (j + k) (rows @ outs) s"
  by (simp add: io_after_def out_rows_def in_rows_def add_in_def algebra_simps)

lemma outer_rest_ok:
  assumes "map kv_of gs = map kv_group Gs" "\<forall>p\<in>set (concat (map F Gs)). wire_kv ops p" "w_cap (fst s) = None"
    and "\<And>ts g G. kv_of g = kv_group G \<Longrightarrow> \<exists>rows. (if outer then rows_of ts g else Inr []) = Inr rows \<and> map kv_of rows = F G"
  shows "\<exists>k outs. outer_rest ops rows_of outer gs s = Inr (io_after ops k outs s) \<and> map kv_of outs = concat (map F Gs)"
  using assms(1-3)
proof (induction gs arbitrary: Gs s)
  case (Cons g gs)
  then obtain G Gs' where G: "Gs = G # Gs'" "kv_of g = kv_group G" "map kv_of gs = map kv_group Gs'" by (cases Gs) auto
  obtain rows where rows: "(if outer then rows_of (row_T g) g else Inr []) = Inr rows" "map kv_of rows = F G"
    using assms(4) [OF G(2)] by blast
  have e: "fold (emit_unchecked ops) rows (add_in 1 s) = out_rows ops rows (add_in 1 s)"
    using Cons.prems(2,3) G(1) rows(2) by (intro emit_kv) (auto simp: add_in_def)
  obtain k outs where "outer_rest ops rows_of outer gs (out_rows ops rows (add_in 1 s)) =
      Inr (io_after ops k outs (out_rows ops rows (add_in 1 s)))" "map kv_of outs = concat (map F Gs')"
    using Cons.IH [OF G(3), of "out_rows ops rows (add_in 1 s)"] Cons.prems(2,3) G(1) by (auto simp: add_in_def)
  moreover have "io_after ops k outs (out_rows ops rows (add_in 1 s)) = io_after ops (Suc k) (rows @ outs) s"
    by (simp add: io_after_def out_rows_def in_rows_def add_in_def algebra_simps)
  ultimately show ?case using rows e G(1) by (intro exI [of _ "Suc k"] exI [of _ "rows @ outs"]) simp
qed (auto intro!: exI [of _ 0] exI [of _ "[]"])

lemma outer_tail_ok:
  assumes "map kv_of gs = map kv_group Gs" "\<forall>p\<in>set (concat (map F Gs)). wire_kv ops p" "w_cap (fst s) = None"
    and "\<And>ts g G. kv_of g = kv_group G \<Longrightarrow> \<exists>rows. (if outer then rows_of ts g else Inr []) = Inr rows \<and> map kv_of rows = F G"
  shows "\<exists>k outs. outer_tail ops rows_of outer gs s = Inr (io_after ops k outs s) \<and> map kv_of outs = concat (map F Gs)"
proof (cases gs)
  case Nil
  with assms(1) show ?thesis by (auto simp: outer_tail_def intro!: exI [of _ 0] exI [of _ "[]"])
next
  case (Cons g gs')
  then obtain G Gs' where G: "Gs = G # Gs'" "kv_of g = kv_group G" "map kv_of gs' = map kv_group Gs'"
    using assms(1) by (cases Gs) auto
  obtain rows where rows: "(if outer then rows_of (row_T g) g else Inr []) = Inr rows" "map kv_of rows = F G"
    using assms(4) [OF G(2)] by blast
  have e: "fold (emit_unchecked ops) rows s = out_rows ops rows s"
    using assms(2,3) G(1) rows(2) by (intro emit_kv) auto
  obtain k outs where "outer_rest ops rows_of outer gs' (out_rows ops rows s) =
      Inr (io_after ops k outs (out_rows ops rows s))" "map kv_of outs = concat (map F Gs')"
    using outer_rest_ok [where s = "out_rows ops rows s" and ops = ops and F = F and rows_of = rows_of and outer = outer, OF G(3) _ _ assms(4)] assms(2,3) G(1) by auto
  moreover have "io_after ops k outs (out_rows ops rows s) = io_after ops k (rows @ outs) s"
    by (simp add: io_after_def out_rows_def in_rows_def algebra_simps)
  ultimately show ?thesis
    using rows e G(1) Cons by (intro exI [of _ k] exI [of _ "rows @ outs"]) (simp add: outer_tail_def)
qed

text \<open>Groups in strictly increasing order of their keys, as the runs of a sorted stream are.\<close>

definition sorted_groups :: "kind list \<Rightarrow> row list list \<Rightarrow> bool" where
  "sorted_groups ks Gs \<longleftrightarrow> (\<forall>g\<in>set Gs. has_kinds ks (row_K (hd g))) \<and>
     sorted_wrt (\<lambda>g h. klt ks (row_K (hd g)) (row_K (hd h))) Gs"

lemma sorted_groups_Cons:
  "sorted_groups ks (g # Gs) \<longleftrightarrow> has_kinds ks (row_K (hd g)) \<and>
     (\<forall>h\<in>set Gs. klt ks (row_K (hd g)) (row_K (hd h))) \<and> sorted_groups ks Gs"
  by (auto simp: sorted_groups_def)

lemma join_match_klt:
  assumes "has_kinds ks (row_K (hd g))" "has_kinds ks (row_K (hd h))"
  shows "join_match g h \<longleftrightarrow> \<not> klt ks (row_K (hd g)) (row_K (hd h)) \<and> \<not> klt ks (row_K (hd h)) (row_K (hd g))"
  using key_eq_klt [OF assms] by (simp add: join_match_def same_key_def)

lemma sorted_groups_after:
  assumes "sorted_groups ks (h # Hs)" "has_kinds ks (row_K (hd g))" "\<not> klt ks (row_K (hd h)) (row_K (hd g))"
  shows "\<forall>h'\<in>set Hs. \<not> join_match g h' \<and> \<not> join_match h' g"
proof
  fix h' assume h': "h' \<in> set Hs"
  with assms(1) have k: "has_kinds ks (row_K (hd h'))" "has_kinds ks (row_K (hd h))" "klt ks (row_K (hd h)) (row_K (hd h'))"
    by (auto simp: sorted_groups_def)
  then have "klt ks (row_K (hd g)) (row_K (hd h'))"
    using swo_on_trans [OF klt_swo, of "row_K (hd h')" ks "row_K (hd g)" "row_K (hd h)"] assms(2,3) by auto
  then show "\<not> join_match g h' \<and> \<not> join_match h' g"
    using join_match_klt [OF assms(2) k(1)] join_match_klt [OF k(1) assms(2)] by blast
qed

lemma jspec_wire_sub:
  assumes "mset ps = mset qs + mset ps'" "\<forall>p\<in>set ps. wire_kv ops p"
  shows "\<forall>p\<in>set qs. wire_kv ops p" "\<forall>p\<in>set ps'. wire_kv ops p"
  using assms by (metis UnCI set_mset_mset set_mset_union)+

definition join_done :: "msgp_ops \<Rightarrow> io_state go \<Rightarrow> (gval list \<times> gval list) list \<Rightarrow> io_state \<Rightarrow> bool" where
  "join_done ops res spec s \<longleftrightarrow>
     (\<exists>k outs. res = Inr (io_after ops k outs s) \<and> mset (map kv_of outs) = mset spec)"

text \<open>One iteration: it emits the rows \<open>qs\<close> stands for and leaves the rest to the next.\<close>

lemma join_done_step:
  assumes "mset spec = mset qs + mset spec'" "\<forall>p\<in>set spec. wire_kv ops p" "w_cap (fst s) = None"
    and "\<exists>rows. res = Inr rows \<and> map kv_of rows = qs"
    and "\<And>s'. w_cap (fst s') = None \<Longrightarrow> \<forall>p\<in>set spec'. wire_kv ops p \<Longrightarrow> join_done ops (next_it s') spec' s'"
  shows "join_done ops (gbind res (\<lambda>rows. next_it (add_in j (fold (emit_unchecked ops) rows s)))) spec s"
proof -
  note w = jspec_wire_sub [OF assms(1,2)]
  obtain rows where rows: "res = Inr rows" "map kv_of rows = qs" using assms(4) by blast
  have e: "fold (emit_unchecked ops) rows s = out_rows ops rows s" by (rule emit_kv [OF rows(2) w(1) assms(3)])
  have "w_cap (fst (add_in j (out_rows ops rows s))) = None" using assms(3) by (simp add: add_in_def)
  from assms(5) [OF this w(2)] obtain k outs where
    "next_it (add_in j (out_rows ops rows s)) = Inr (io_after ops k outs (add_in j (out_rows ops rows s)))"
    "mset (map kv_of outs) = mset spec'" unfolding join_done_def by blast
  then show ?thesis unfolding join_done_def io_after_add_in using rows e assms(1)
    by (intro exI [of _ "j + k"] exI [of _ "rows @ outs"]) simp
qed

lemma join_tail_ok:
  assumes "map kv_of ls = map kv_group Ls" "map kv_of rs = map kv_group Rs" "ls = [] \<or> rs = []"
    and "\<forall>p\<in>set (join_spec lo ro n m Ls Rs). wire_kv ops p" "w_cap (fst s) = None"
  shows "join_done ops (gbind (outer_tail ops (\<lambda>ts. left_rows ts m) lo ls s)
           (outer_tail ops (\<lambda>ts. right_rows ts n) ro rs)) (join_spec lo ro n m Ls Rs) s"
proof -
  have spec: "join_spec lo ro n m Ls Rs = concat (map (join_left lo m) Ls) @ concat (map (join_right ro n) Rs)"
    using assms(1-3) by (auto simp: join_spec_def jspec_Nil)
  have L: "\<exists>rows. (if lo then left_rows ts m g else Inr []) = Inr rows \<and> map kv_of rows = join_left lo m G"
    if "kv_of g = kv_group G" for ts g G using join_rows_kv(2) [OF that] by (auto simp: join_left_def)
  have R: "\<exists>rows. (if ro then right_rows ts n g else Inr []) = Inr rows \<and> map kv_of rows = join_right ro n G"
    if "kv_of g = kv_group G" for ts g G using join_rows_kv(3) [OF that] by (auto simp: join_right_def)
  obtain k outs where 1: "outer_tail ops (\<lambda>ts. left_rows ts m) lo ls s = Inr (io_after ops k outs s)"
    "map kv_of outs = concat (map (join_left lo m) Ls)"
    using outer_tail_ok [where ops = ops and F = "join_left lo m" and rows_of = "\<lambda>ts. left_rows ts m" and outer = lo, OF assms(1) _ assms(5) L] assms(4) unfolding spec by auto
  have c: "w_cap (fst (io_after ops k outs s)) = None" using assms(5) by (simp add: io_after_def)
  obtain k' outs' where 2: "outer_tail ops (\<lambda>ts. right_rows ts n) ro rs (io_after ops k outs s) =
      Inr (io_after ops k' outs' (io_after ops k outs s))" "map kv_of outs' = concat (map (join_right ro n) Rs)"
    using outer_tail_ok [where ops = ops and F = "join_right ro n" and rows_of = "\<lambda>ts. right_rows ts n" and outer = ro, OF assms(2) _ c R] assms(4) unfolding spec by auto
  have "io_after ops k' outs' (io_after ops k outs s) = io_after ops (k + k') (outs @ outs') s"
    by (simp add: io_after_def out_rows_def in_rows_def algebra_simps)
  with 1 2 spec show ?thesis unfolding join_done_def
    by (intro exI [of _ "k + k'"] exI [of _ "outs @ outs'"]) simp
qed

lemma join_loop_ok:
  assumes "map kv_of ls = map kv_group Ls" "map kv_of rs = map kv_group Rs"
    and "sorted_groups ks Ls" "sorted_groups ks Rs"
    and "\<forall>p\<in>set (join_spec lo ro n m Ls Rs). wire_kv ops p" "w_cap (fst s) = None"
  shows "join_done ops (join_loop ops lo ro n m ls rs s) (join_spec lo ro n m Ls Rs) s"
  using assms
proof (induction "length ls + length rs" arbitrary: ls rs Ls Rs s rule: less_induct)
  case less
  show ?case
  proof (cases "ls = [] \<or> rs = []")
    case True
    then have "join_loop ops lo ro n m ls rs s = gbind (outer_tail ops (\<lambda>ts. left_rows ts m) lo ls s)
           (outer_tail ops (\<lambda>ts. right_rows ts n) ro rs)" by (cases ls; cases rs) auto
    then show ?thesis using join_tail_ok [OF less.prems(1,2) True less.prems(5,6)] by simp
  next
    case False
    then obtain l ls' r rs' where lr: "ls = l # ls'" "rs = r # rs'" by (auto simp: neq_Nil_conv)
    then obtain G Ls' H Rs' where GH: "Ls = G # Ls'" "kv_of l = kv_group G" "map kv_of ls' = map kv_group Ls'"
      "Rs = H # Rs'" "kv_of r = kv_group H" "map kv_of rs' = map kv_group Rs'"
      using less.prems(1,2) by (cases Ls; cases Rs) auto
    have K: "row_K l = row_K (hd G)" "row_K r = row_K (hd H)" using GH by (simp_all add: kv_of_def kv_group_def)
    have s: "sorted_groups ks Ls'" "sorted_groups ks Rs'" "has_kinds ks (row_K (hd G))" "has_kinds ks (row_K (hd H))"
      using less.prems(3,4) GH by (auto simp: sorted_groups_Cons)
    obtain x where x: "Compare (VSlice (row_K l)) (VSlice (row_K r)) = Inr x"
      "x < 0 \<longleftrightarrow> klt ks (row_K (hd G)) (row_K (hd H))" "0 < x \<longleftrightarrow> klt ks (row_K (hd H)) (row_K (hd G))"
      using Compare_kinds [OF s(3,4)] K by metis
    note afterL = sorted_groups_after [OF less.prems(3) [unfolded GH(1)] s(4)]
    note afterR = sorted_groups_after [OF less.prems(4) [unfolded GH(4)] s(3)]
    have M: "join_match G H \<longleftrightarrow> x = 0" using join_match_klt [OF s(3,4)] x(2,3) by auto
    let ?S = "join_spec lo ro n m"
    consider "x = 0" | "x < 0" | "0 < x" by linarith
    then show ?thesis
    proof cases
      case 1
      have spec: "mset (?S Ls Rs) = mset (join_both G H) + mset (?S Ls' Rs')" unfolding join_spec_def GH(1,4)
        by (rule jspec_match) (use M 1 afterL afterR x(2,3) in auto)
      have eq: "join_loop ops lo ro n m ls rs s = gbind (join_pairs (max_int64 (row_T l) (row_T r)) l r)
          (\<lambda>rows. join_loop ops lo ro n m ls' rs' (add_in 2 (fold (emit_unchecked ops) rows s)))"
        using 1 x(1) by (simp add: lr Let_def)
      show ?thesis unfolding eq
      proof (rule join_done_step [OF spec less.prems(5,6) join_rows_kv(1) [OF GH(2,5)]])
        fix s' :: io_state
        assume "w_cap (fst s') = None" "\<forall>p\<in>set (?S Ls' Rs'). wire_kv ops p"
        then show "join_done ops (join_loop ops lo ro n m ls' rs' s') (?S Ls' Rs') s'"
          using less.hyps [OF _ GH(3,6) s(1,2)] by (simp add: lr)
      qed
    next
      case 2
      have spec: "mset (?S Ls Rs) = mset (join_left lo m G) + mset (?S Ls' Rs)" unfolding join_spec_def GH(1)
        by (rule jspec_left) (use M 2 afterR x(2,3) GH(4) in auto)
      have row: "\<exists>rows. (if lo then left_rows ts m l else Inr []) = Inr rows \<and> map kv_of rows = join_left lo m G" for ts
        using join_rows_kv(2) [OF GH(2)] by (auto simp: join_left_def)
      have eq: "join_loop ops lo ro n m ls rs s = gbind (if lo then left_rows (max_int64 (row_T l) (row_T r)) m l else Inr [])
          (\<lambda>rows. join_loop ops lo ro n m ls' rs (add_in 1 (fold (emit_unchecked ops) rows s)))"
        using 2 x(1) by (simp add: lr Let_def)
      show ?thesis unfolding eq
      proof (rule join_done_step [OF spec less.prems(5,6) row])
        fix s' :: io_state
        assume "w_cap (fst s') = None" "\<forall>p\<in>set (?S Ls' Rs). wire_kv ops p"
        then show "join_done ops (join_loop ops lo ro n m ls' rs s') (?S Ls' Rs) s'"
          using less.hyps [OF _ GH(3) less.prems(2) s(1) less.prems(4)] by (simp add: lr)
      qed
    next
      case 3
      have spec: "mset (?S Ls Rs) = mset (join_right ro n H) + mset (?S Ls Rs')" unfolding join_spec_def GH(4)
        by (rule jspec_right) (use M 3 afterL x(2,3) GH(1) in auto)
      have row: "\<exists>rows. (if ro then right_rows ts n r else Inr []) = Inr rows \<and> map kv_of rows = join_right ro n H" for ts
        using join_rows_kv(3) [OF GH(5)] by (auto simp: join_right_def)
      have eq: "join_loop ops lo ro n m ls rs s = gbind (if ro then right_rows (max_int64 (row_T l) (row_T r)) n r else Inr [])
          (\<lambda>rows. join_loop ops lo ro n m ls rs' (add_in 1 (fold (emit_unchecked ops) rows s)))"
        using 3 x(1) by (simp add: lr Let_def)
      show ?thesis unfolding eq
      proof (rule join_done_step [OF spec less.prems(5,6) row])
        fix s' :: io_state
        assume "w_cap (fst s') = None" "\<forall>p\<in>set (?S Ls Rs'). wire_kv ops p"
        then show "join_done ops (join_loop ops lo ro n m ls rs' s') (?S Ls Rs') s'"
          using less.hyps [OF _ less.prems(1) GH(6) less.prems(3) s(2)] by (simp add: lr)
      qed
    qed
  qed
qed

definition first_width :: "row list \<Rightarrow> nat" where
  "first_width rows = (case rows of [] \<Rightarrow> 0 | r # _ \<Rightarrow> length (row_V r))"

lemma hd_runs:
  assumes "rows \<noteq> []"
  obtains g Gs where "runs rows = (hd rows # g) # Gs"
proof -
  obtain g Gs where g: "runs rows = g # Gs" using assms by (cases "runs rows") auto
  then have "g \<noteq> []" using runs_nonempty [of g rows] by simp
  moreover have "hd rows = hd g" using concat_runs [of rows] g \<open>g \<noteq> []\<close> by (metis concat.simps(2) hd_append2)
  ultimately show thesis using that g by (cases g) auto
qed

lemma value_length_ok:
  assumes "map kv_of gs = map kv_group (runs rows)"
  shows "value_length gs = Inr (first_width rows)"
proof (cases rows)
  case (Cons r rs)
  then obtain g Gs where g: "runs rows = (r # g) # Gs" using hd_runs [of rows] by auto
  then obtain x xs where "gs = x # xs" "kv_of x = kv_group (r # g)" using assms by (cases gs) auto
  with Cons show ?thesis by (simp add: value_length_def first_width_def kv_of_def kv_group_def as_slice_def go_index_def)
qed (use assms in \<open>simp add: value_length_def first_width_def\<close>)

lemma sorted_groups_runs:
  assumes "\<forall>r\<in>set rows. has_kinds ks (row_K r)" "sorted_wrt (\<lambda>a b. \<not> klt ks (row_K b) (row_K a)) rows"
  shows "sorted_groups ks (runs rows)"
proof -
  have "has_kinds ks (row_K (hd g))" if "g \<in> set (runs rows)" for g
    using that assms(1) concat_runs [of rows] runs_nonempty [OF that] by (metis concat_eq_concat_iff hd_in_set in_set_conv_decomp_first set_concat UN_I)
  then show ?thesis using runs_sorted [OF assms] by (simp add: sorted_groups_def)
qed

text \<open>
  C4: The merge join of two streams sorted by their keys writes, up to order and timestamps, exactly the rows
  of the declarative join: the concatenated values of every pair of rows with the same key, and for a
  left (right) outer join the rows without a partner, padded with as many nils as the other side has values.
\<close>

theorem DoJoinPartitionedSorted_correct:
  assumes "\<forall>r\<in>set lefts. wire_ok ops r" "gmap (UseKeys ixs) lefts = Inr klefts"
    and "\<forall>r\<in>set rights. wire_ok ops r" "gmap (UseKeys ixs) rights = Inr krights"
    and "\<forall>r\<in>set (klefts @ krights). has_kinds ks (row_K r)"
    and "sorted_wrt (\<lambda>a b. \<not> klt ks (row_K b) (row_K a)) klefts" "sorted_wrt (\<lambda>a b. \<not> klt ks (row_K b) (row_K a)) krights"
    and "\<forall>p\<in>set (join_spec lo ro (first_width klefts) (first_width krights) (runs klefts) (runs krights)). wire_kv ops p"
    and "w_cap (fst s) = None"
  shows "\<exists>k outs. DoJoinPartitionedSorted ops (rows_reader ops lefts) (rows_reader ops rights) ixs lo ro s =
      Inr (io_after ops k outs s, None) \<and>
    mset (map kv_of outs) =
      mset (join_spec lo ro (first_width klefts) (first_width krights) (runs klefts) (runs krights))"
proof -
  obtain ls where ls: "newChannelOfValuesWithSameKey ops (rows_reader ops lefts) ixs = Inr ls"
    "map kv_of ls = map kv_group (runs klefts)" using channel_ok [OF assms(1,2), of ks] assms(5) by auto
  obtain rs where rs: "newChannelOfValuesWithSameKey ops (rows_reader ops rights) ixs = Inr rs"
    "map kv_of rs = map kv_group (runs krights)" using channel_ok [OF assms(3,4), of ks] assms(5) by auto
  have "sorted_groups ks (runs klefts)" "sorted_groups ks (runs krights)"
    using sorted_groups_runs assms(5-7) by auto
  from join_loop_ok [OF ls(2) rs(2) this assms(8,9)] obtain k outs where
    "join_loop ops lo ro (first_width klefts) (first_width krights) ls rs s = Inr (io_after ops k outs s)"
    "mset (map kv_of outs) = mset (join_spec lo ro (first_width klefts) (first_width krights) (runs klefts) (runs krights))"
    unfolding join_done_def by blast
  then show ?thesis using value_length_ok [OF ls(2)] value_length_ok [OF rs(2)] ls(1) rs(1)
    by (intro exI [of _ k] exI [of _ outs]) (simp add: DoJoinPartitionedSorted_def)
qed

theorem DoJoinPartitionedSorted_correct_witness:
  "\<exists>k outs. DoJoinPartitionedSorted mp_ops (rows_reader mp_ops [kv 1 5, kv 3 7]) (rows_reader mp_ops [kv 1 6, kv 2 8])
      [1] True False io_start = Inr (io_after mp_ops k outs io_start, None) \<and>
    mset (map kv_of outs) = {#([VInt64 1], [VInt64 5, VInt64 6]), ([VInt64 3], [VInt64 7, VNil])#}"
proof -
  let ?l = "[kv 1 5, kv 3 7]" and ?r = "[kv 1 6, kv 2 8]"
  have kinds: "\<forall>r\<in>set (?l @ ?r). has_kinds [KInt] (row_K r)" by (simp add: ToInt64_def)
  have "\<not> same_key (kv 3 7) (kv 1 5)" "\<not> same_key (kv 2 8) (kv 1 6)" "same_key (kv 1 5) (kv 1 6)"
    "\<not> same_key (kv 1 5) (kv 2 8)" "\<not> same_key (kv 3 7) (kv 1 6)" "\<not> same_key (kv 3 7) (kv 2 8)"
    using key_eq_klt [of "[KInt]"] kinds by (auto simp: same_key_def ToInt64_def)
  then have spec: "join_spec True False (first_width ?l) (first_width ?r) (runs ?l) (runs ?r) =
      [([VInt64 1], [VInt64 5, VInt64 6]), ([VInt64 3], [VInt64 7, VNil])]"
    by (simp add: join_spec_def jspec_def runs_def runs_step_def join_match_def join_both_def join_left_def
        join_right_def first_width_def)
  have "\<forall>p\<in>set [([VInt64 1], [VInt64 5, VInt64 6]), ([VInt64 3], [VInt64 7, VNil])]. wire_kv mp_ops p"
    unfolding wire_kv_def by (auto intro!: mp_wire_ok)
  then show ?thesis
    using DoJoinPartitionedSorted_correct [of ?l mp_ops "[1]" ?l ?r ?r "[KInt]" True False io_start] kinds
    unfolding spec by (simp add: ToInt64_def)
qed

section \<open>CoGroup against its specification\<close>

definition group_values :: "row list \<Rightarrow> gval" where
  "group_values g = VSlice (map (\<lambda>r. VSlice (row_V r)) g)"

definition cogroup_spec :: "row list list \<Rightarrow> row list list \<Rightarrow> (gval list \<times> gval list) list" where
  "cogroup_spec Ls Rs = jspec join_match (\<lambda>g h. [(row_K (hd g), [group_values g, group_values h])])
     (\<lambda>g. [(row_K (hd g), [group_values g, VSlice []])]) (\<lambda>h. []) Ls Rs"

lemma cogroup_row_kv: "row_K (cogroup_row ts k a b) = k" "row_V (cogroup_row ts k a b) = [VSlice a, VSlice b]"
  by (simp_all add: cogroup_row_def NewRow_def AppendKey_def AppendValue_def)

lemma cogroup_tail_ok:
  assumes "map kv_of ls = map kv_group Ls" "\<forall>p\<in>set (cogroup_spec Ls []). wire_kv ops p" "w_cap (fst s) = None"
  shows "join_done ops (cogroup_loop ops ls [] s) (cogroup_spec Ls []) s"
  using assms
proof (induction ls arbitrary: Ls s)
  case Nil
  then show ?case by (auto simp: join_done_def cogroup_spec_def jspec_Nil intro!: exI [of _ 0] exI [of _ "[]"])
next
  case (Cons l ls)
  then obtain G Ls' where G: "Ls = G # Ls'" "kv_of l = kv_group G" "map kv_of ls = map kv_group Ls'" by (cases Ls) auto
  let ?row = "cogroup_row (row_T l) (row_K l) (row_V l) []"
  have row: "\<exists>rows. Inr [?row] = Inr rows \<and> map kv_of rows = [(row_K (hd G), [group_values G, VSlice []])]"
    using G(2) by (auto simp: cogroup_row_kv kv_of_def kv_group_def group_values_def)
  have spec: "mset (cogroup_spec Ls []) =
      mset [(row_K (hd G), [group_values G, VSlice []])] + mset (cogroup_spec Ls' [])"
    unfolding cogroup_spec_def G(1) by (rule jspec_left) simp
  have "join_done ops (gbind (Inr [?row]) (\<lambda>rows. cogroup_loop ops ls [] (add_in 1 (fold (emit_unchecked ops) rows s))))
      (cogroup_spec Ls []) s"
    by (rule join_done_step [OF spec Cons.prems(2,3) row]) (rule Cons.IH [OF G(3)])
  then show ?case by simp
qed

lemma cogroup_loop_ok:
  assumes "map kv_of ls = map kv_group Ls" "map kv_of rs = map kv_group Rs"
    and "sorted_groups ks Ls" "sorted_groups ks Rs" "\<forall>h\<in>set Rs. \<exists>g\<in>set Ls. join_match g h"
    and "\<forall>p\<in>set (cogroup_spec Ls Rs). wire_kv ops p" "w_cap (fst s) = None"
  shows "join_done ops (cogroup_loop ops ls rs s) (cogroup_spec Ls Rs) s"
  using assms
proof (induction "length ls + length rs" arbitrary: ls rs Ls Rs s rule: less_induct)
  case less
  show ?case
  proof (cases "rs = []")
    case True
    then show ?thesis using cogroup_tail_ok less.prems by simp
  next
    case False
    moreover from this have "ls \<noteq> []" using less.prems(1,2,5) by (cases Rs) auto
    ultimately obtain l ls' r rs' where lr: "ls = l # ls'" "rs = r # rs'" by (auto simp: neq_Nil_conv)
    then obtain G Ls' H Rs' where GH: "Ls = G # Ls'" "kv_of l = kv_group G" "map kv_of ls' = map kv_group Ls'"
      "Rs = H # Rs'" "kv_of r = kv_group H" "map kv_of rs' = map kv_group Rs'"
      using less.prems(1,2) by (cases Ls; cases Rs) auto
    have K: "row_K l = row_K (hd G)" "row_K r = row_K (hd H)" using GH by (simp_all add: kv_of_def kv_group_def)
    have s: "sorted_groups ks Ls'" "sorted_groups ks Rs'" "has_kinds ks (row_K (hd G))" "has_kinds ks (row_K (hd H))"
      using less.prems(3,4) GH by (auto simp: sorted_groups_Cons)
    obtain x where x: "Compare (VSlice (row_K l)) (VSlice (row_K r)) = Inr x"
      "x < 0 \<longleftrightarrow> klt ks (row_K (hd G)) (row_K (hd H))" "0 < x \<longleftrightarrow> klt ks (row_K (hd H)) (row_K (hd G))"
      using Compare_kinds [OF s(3,4)] K by metis
    note afterL = sorted_groups_after [OF less.prems(3) [unfolded GH(1)] s(4)]
    note afterR = sorted_groups_after [OF less.prems(4) [unfolded GH(4)] s(3)]
    have M: "join_match G H \<longleftrightarrow> x = 0" using join_match_klt [OF s(3,4)] x(2,3) by auto
    have "\<not> 0 < x"
    proof
      assume "0 < x"
      then have "\<not> klt ks (row_K (hd G)) (row_K (hd H))" using x(2) by simp
      then show False using less.prems(5) GH(1,4) M afterL \<open>0 < x\<close> by auto
    qed
    then consider "x = 0" | "x < 0" by linarith
    then show ?thesis
    proof cases
      case 1
      let ?row = "cogroup_row (max_int64 (row_T l) (row_T r)) (row_K l) (row_V l) (row_V r)"
      let ?q = "[(row_K (hd G), [group_values G, group_values H])]"
      have row: "\<exists>rows. Inr [?row] = Inr rows \<and> map kv_of rows = ?q"
        using GH(2,5) by (auto simp: cogroup_row_kv kv_of_def kv_group_def group_values_def)
      have spec: "mset (cogroup_spec Ls Rs) = mset ?q + mset (cogroup_spec Ls' Rs')" unfolding cogroup_spec_def GH(1,4)
        by (rule jspec_match) (use M 1 afterL afterR x(2,3) in auto)
      have part: "\<forall>h\<in>set Rs'. \<exists>g\<in>set Ls'. join_match g h"
        using less.prems(5) GH(1,4) 1 x(2,3) afterR by auto
      have "join_done ops (gbind (Inr [?row]) (\<lambda>rows. cogroup_loop ops ls' rs' (add_in 2 (fold (emit_unchecked ops) rows s))))
          (cogroup_spec Ls Rs) s"
        by (rule join_done_step [OF spec less.prems(6,7) row])
          (rule less.hyps [OF _ GH(3,6) s(1,2) part], simp_all add: lr)
      then show ?thesis using 1 x(1) by (simp add: lr Let_def)
    next
      case 2
      let ?row = "cogroup_row (max_int64 (row_T l) (row_T r)) (row_K l) (row_V l) []"
      let ?q = "[(row_K (hd G), [group_values G, VSlice []])]"
      have row: "\<exists>rows. Inr [?row] = Inr rows \<and> map kv_of rows = ?q"
        using GH(2) by (auto simp: cogroup_row_kv kv_of_def kv_group_def group_values_def)
      have none: "\<forall>h\<in>set Rs. \<not> join_match G h" using M 2 afterR x(2,3) GH(4) by auto
      have spec: "mset (cogroup_spec Ls Rs) = mset ?q + mset (cogroup_spec Ls' Rs)" unfolding cogroup_spec_def GH(1)
        by (rule jspec_left) (rule none)
      have part: "\<forall>h\<in>set Rs. \<exists>g\<in>set Ls'. join_match g h" using less.prems(5) GH(1) none by auto
      have "join_done ops (gbind (Inr [?row]) (\<lambda>rows. cogroup_loop ops ls' rs (add_in 1 (fold (emit_unchecked ops) rows s))))
          (cogroup_spec Ls Rs) s"
        by (rule join_done_step [OF spec less.prems(6,7) row])
          (rule less.hyps [OF _ GH(3) less.prems(2) s(1) less.prems(4) part], simp_all add: lr)
      then show ?thesis using 2 x(1) by (simp add: lr Let_def)
    qed
  qed
qed

text \<open>
  C32: When every key of the right stream occurs on the left, cogrouping two sorted streams writes one row per
  left key, with the values of the left rows of that key and those of the right rows of that key (none if
  there are none).
\<close>

theorem DoCoGroupPartitionedSorted_correct:
  assumes "\<forall>r\<in>set lefts. wire_ok ops r" "gmap (UseKeys ixs) lefts = Inr klefts"
    and "\<forall>r\<in>set rights. wire_ok ops r" "gmap (UseKeys ixs) rights = Inr krights"
    and "\<forall>r\<in>set (klefts @ krights). has_kinds ks (row_K r)"
    and "sorted_wrt (\<lambda>a b. \<not> klt ks (row_K b) (row_K a)) klefts" "sorted_wrt (\<lambda>a b. \<not> klt ks (row_K b) (row_K a)) krights"
    and "\<forall>h\<in>set (runs krights). \<exists>g\<in>set (runs klefts). join_match g h"
    and "\<forall>p\<in>set (cogroup_spec (runs klefts) (runs krights)). wire_kv ops p" "w_cap (fst s) = None"
  shows "\<exists>k outs. DoCoGroupPartitionedSorted ops (rows_reader ops lefts) (rows_reader ops rights) ixs s =
      Inr (io_after ops k outs s, None) \<and>
    mset (map kv_of outs) = mset (cogroup_spec (runs klefts) (runs krights))"
proof -
  obtain ls where ls: "newChannelOfValuesWithSameKey ops (rows_reader ops lefts) ixs = Inr ls"
    "map kv_of ls = map kv_group (runs klefts)" using channel_ok [OF assms(1,2), of ks] assms(5) by auto
  obtain rs where rs: "newChannelOfValuesWithSameKey ops (rows_reader ops rights) ixs = Inr rs"
    "map kv_of rs = map kv_group (runs krights)" using channel_ok [OF assms(3,4), of ks] assms(5) by auto
  have "sorted_groups ks (runs klefts)" "sorted_groups ks (runs krights)"
    using sorted_groups_runs assms(5-7) by auto
  from cogroup_loop_ok [OF ls(2) rs(2) this assms(8-10)] obtain k outs where
    "cogroup_loop ops ls rs s = Inr (io_after ops k outs s)"
    "mset (map kv_of outs) = mset (cogroup_spec (runs klefts) (runs krights))"
    unfolding join_done_def by blast
  then show ?thesis using ls(1) rs(1)
    by (intro exI [of _ k] exI [of _ outs]) (simp add: DoCoGroupPartitionedSorted_def)
qed

theorem DoCoGroupPartitionedSorted_correct_witness:
  "\<exists>k outs. DoCoGroupPartitionedSorted mp_ops (rows_reader mp_ops [kv 1 5, kv 3 7]) (rows_reader mp_ops [kv 1 6])
      [1] io_start = Inr (io_after mp_ops k outs io_start, None) \<and>
    mset (map kv_of outs) = {#([VInt64 1], [VSlice [VSlice [VInt64 5]], VSlice [VSlice [VInt64 6]]]),
      ([VInt64 3], [VSlice [VSlice [VInt64 7]], VSlice []])#}"
proof -
  let ?l = "[kv 1 5, kv 3 7]" and ?r = "[kv 1 6]"
  have kinds: "\<forall>r\<in>set (?l @ ?r). has_kinds [KInt] (row_K r)" by (simp add: ToInt64_def)
  have m: "\<not> same_key (kv 3 7) (kv 1 5)" "same_key (kv 1 5) (kv 1 6)" "\<not> same_key (kv 3 7) (kv 1 6)"
    using key_eq_klt [of "[KInt]"] kinds by (auto simp: same_key_def ToInt64_def)
  then have spec: "cogroup_spec (runs ?l) (runs ?r) =
      [([VInt64 1], [VSlice [VSlice [VInt64 5]], VSlice [VSlice [VInt64 6]]]),
       ([VInt64 3], [VSlice [VSlice [VInt64 7]], VSlice []])]"
    and part: "\<forall>h\<in>set (runs ?r). \<exists>g\<in>set (runs ?l). join_match g h"
    by (simp_all add: cogroup_spec_def jspec_def runs_def runs_step_def join_match_def group_values_def)
  have "\<forall>p\<in>set (cogroup_spec (runs ?l) (runs ?r)). wire_kv mp_ops p"
    unfolding spec wire_kv_def by (auto intro!: mp_wire_ok)
  then show ?thesis
    using DoCoGroupPartitionedSorted_correct [of ?l mp_ops "[1]" ?l ?r ?r "[KInt]" io_start] kinds part
    unfolding spec by (simp add: ToInt64_def)
qed

lemma newChannel_single:
  assumes "wire_ok ops r" "UseKeys ixs r = Inr k"
  shows "newChannelOfValuesWithSameKey ops (rows_reader ops [r]) ixs =
    Inr [\<lparr>row_K = row_K k, row_V = [VSlice (row_V k)], row_T = row_T k\<rparr>]"
  using assms by (simp add: newChannelOfValuesWithSameKey_def same_key_loop.simps)

text \<open>
  A right key that the left stream does not have, and that is smaller than the next left key, is written
  under the left key: with 3 on the left and 1 on the right both output rows carry the key 3.
\<close>

theorem DoCoGroupPartitionedSorted_wrong_key:
  "DoCoGroupPartitionedSorted mp_ops (rows_reader mp_ops [kv 3 7]) (rows_reader mp_ops [kv 1 6]) [1] io_start =
     Inr (io_after mp_ops 2
       [\<lparr>row_K = [VInt64 3], row_V = [VSlice [], VSlice [VSlice [VInt64 6]]], row_T = 0\<rparr>,
        \<lparr>row_K = [VInt64 3], row_V = [VSlice [VSlice [VInt64 7]], VSlice []], row_T = 0\<rparr>] io_start, None)"
proof -
  let ?x = "\<lparr>row_K = [VInt64 3], row_V = [VSlice [], VSlice [VSlice [VInt64 6]]], row_T = 0\<rparr>"
  let ?y = "\<lparr>row_K = [VInt64 3], row_V = [VSlice [VSlice [VInt64 7]], VSlice []], row_T = 0\<rparr>"
  have rows: "cogroup_row 0 [VInt64 3] [] [VSlice [VInt64 6]] = ?x" "cogroup_row 0 [VInt64 3] [VSlice [VInt64 7]] [] = ?y"
    by (simp_all add: cogroup_row_def NewRow_def AppendKey_def AppendValue_def)
  have w: "wire_ok mp_ops ?x" "wire_ok mp_ops ?y" by (auto intro!: mp_wire_ok)
  obtain z where "Compare (VSlice [VInt64 3]) (VSlice [VInt64 1]) = Inr z" "0 < z"
    using Compare_kinds [of "[KInt]" "[VInt64 3]" "[VInt64 1]"] by (auto simp: ToInt64_def)
  then show ?thesis
    by (simp add: DoCoGroupPartitionedSorted_def newChannel_single rows w max_int64_def emit_unchecked_ok
        io_after_def add_in_def out_rows_def in_rows_def)
qed

section \<open>The hash join against its specification\<close>

text \<open>The last row of the small side with the encoded key of a row of the big side is its partner.\<close>

definition hash_key :: "msgp_ops \<Rightarrow> (bytes \<Rightarrow> bytes) \<Rightarrow> row \<Rightarrow> bytes" where
  "hash_key ops reached r = key_bytes (EncodeKeys ops reached (row_K r))"

definition hash_partner :: "msgp_ops \<Rightarrow> (bytes \<Rightarrow> bytes) \<Rightarrow> row list \<Rightarrow> row \<Rightarrow> row list" where
  "hash_partner ops reached ls r =
     (case find (\<lambda>l. hash_key ops reached l = hash_key ops reached r) (rev ls) of
        None \<Rightarrow> [] | Some l \<Rightarrow> [AppendValue (row_V l) r])"

lemma hash_build_all:
  "\<exists>hashmap. fold_msgs (hash_build ops reached) ls (s, []) = Inr ((io_after ops (length ls) [] s, hashmap), None) \<and>
     (hashmap = [] \<longleftrightarrow> ls = []) \<and>
     (\<forall>k. map_of hashmap k = find (\<lambda>l. hash_key ops reached l = k) (rev ls))"
proof -
  let ?I = "\<lambda>pre (s', hashmap). s' = io_after ops (length pre) [] s \<and> (hashmap = [] \<longleftrightarrow> pre = []) \<and>
     (\<forall>k. map_of hashmap k = find (\<lambda>l. hash_key ops reached l = k) (rev pre))"
  have "\<exists>z. fold_msgs (hash_build ops reached) ls (s, []) = Inr (z, None) \<and> ?I ls z"
  proof (rule fold_msgs_inv)
    fix pre m post z assume "?I pre z"
    moreover have "AList.update k v al \<noteq> []" for k :: bytes and v :: row and al by (cases al) auto
    ultimately show "\<exists>z'. hash_build ops reached m z = Inr (z', None) \<and> ?I (pre @ [m]) z'"
      by (cases z) (auto simp: hash_build_def case_prod_beta update_conv' hash_key_def [symmetric])
  qed simp
  then show ?thesis by auto
qed

lemma hash_probe_all:
  assumes "\<forall>k. map_of hashmap k = find (\<lambda>l. hash_key ops reached l = k) (rev ls)"
    and "\<forall>r\<in>set rs. \<exists>bs. EncodeKeys ops reached (row_K r) = Inr bs"
    and "\<forall>r\<in>set rs. \<forall>q\<in>set (hash_partner ops reached ls r). wire_ok ops q" "w_cap (fst s) = None"
  shows "fold_msgs (hash_probe ops reached hashmap) rs s =
    Inr (io_after ops (length rs) (concat (map (hash_partner ops reached ls) rs)) s, None)"
proof -
  let ?I = "\<lambda>pre s'. s' = io_after ops (length pre) (concat (map (hash_partner ops reached ls) pre)) s"
  have "\<exists>z. fold_msgs (hash_probe ops reached hashmap) rs s = Inr (z, None) \<and> ?I rs z"
  proof (rule fold_msgs_inv)
    fix pre m post z assume rs: "rs = pre @ m # post" and z: "?I pre z"
    then obtain bs where bs: "EncodeKeys ops reached (row_K m) = Inr bs" "hash_key ops reached m = bs"
      using assms(2) by (auto simp: hash_key_def key_bytes_def)
    have w: "\<forall>q\<in>set (hash_partner ops reached ls m). wire_ok ops q" using assms(3) rs by simp
    show "\<exists>z'. hash_probe ops reached hashmap m z = Inr (z', None) \<and> ?I (pre @ [m]) z'"
    proof (cases "find (\<lambda>l. hash_key ops reached l = bs) (rev ls)")
      case None
      with bs z assms(1) show ?thesis by (simp add: hash_probe_def hash_partner_def case_prod_beta)
    next
      case (Some l)
      then have "hash_partner ops reached ls m = [AppendValue (row_V l) m]" by (simp add: hash_partner_def bs(2))
      with Some bs z assms(1,4) w show ?thesis by (simp add: hash_probe_def case_prod_beta)
    qed
  qed simp
  then show ?thesis by blast
qed

lemma hash_join_run:
  assumes "\<forall>r\<in>set lefts. wire_ok ops r" "gmap (UseKeys ixs) lefts = Inr klefts"
    and "\<forall>r\<in>set rights. wire_ok ops r" "gmap (UseKeys ixs) rights = Inr krights"
    and "\<forall>r\<in>set krights. \<exists>bs. EncodeKeys ops reached (row_K r) = Inr bs"
    and "\<forall>r\<in>set krights. \<forall>q\<in>set (hash_partner ops reached klefts r). wire_ok ops q" "w_cap (fst s) = None"
  shows "DoLocalHashAndJoinWith ops reached (rows_reader ops lefts) (rows_reader ops rights) ixs s =
    Inr (io_after ops (length lefts + (if lefts = [] then 0 else length rights))
      (concat (map (hash_partner ops reached klefts) krights)) s, None)"
proof -
  obtain hashmap where h: "fold_msgs (hash_build ops reached) klefts (s, []) = Inr ((io_after ops (length klefts) [] s, hashmap), None)"
    "hashmap = [] \<longleftrightarrow> klefts = []" "\<forall>k. map_of hashmap k = find (\<lambda>l. hash_key ops reached l = k) (rev klefts)"
    using hash_build_all [of ops reached klefts s] by blast
  have len: "length klefts = length lefts" "length krights = length rights"
    using gmap_eq_Inr_length [OF assms(2)] gmap_eq_Inr_length [OF assms(4)] by auto
  have c: "w_cap (fst (io_after ops (length klefts) [] s)) = None" using assms(7) by (simp add: io_after_def)
  note run = DoLocalHashAndJoinWith_def ProcessRow_keyed [OF assms(1,2)] ProcessRow_keyed [OF assms(3,4)] h(1)
  show ?thesis
  proof (cases "lefts = []")
    case True
    have "hash_partner ops reached [] = (\<lambda>r. [])" by (simp add: hash_partner_def fun_eq_iff)
    with True len(1) h(2) have nil: "concat (map (hash_partner ops reached klefts) krights) = []" "hashmap = []" by simp_all
    show ?thesis unfolding run nil using True len(1) by simp
  next
    case False
    moreover have "hashmap \<noteq> []" using False h(2) len(1) by auto
    ultimately show ?thesis unfolding run using hash_probe_all [OF h(3) assms(5,6) c] len
      by (simp add: io_after_def out_rows_def in_rows_def algebra_simps)
  qed
qed

text \<open>
  C33: The hash join writes, for every row of the big side in order, that row extended by the values of the last
  row of the small side with the same encoded key, and nothing when there is none; with an empty
  small side it only drains the big side.
\<close>

theorem DoLocalHashAndJoinWith_correct:
  assumes "\<forall>r\<in>set lefts. wire_ok ops r" "gmap (UseKeys ixs) lefts = Inr klefts"
    and "\<forall>r\<in>set rights. wire_ok ops r" "gmap (UseKeys ixs) rights = Inr krights"
    and "\<forall>r\<in>set krights. \<exists>bs. EncodeKeys ops reached (row_K r) = Inr bs"
    and "\<forall>r\<in>set krights. \<forall>q\<in>set (hash_partner ops reached klefts r). wire_ok ops q" "w_cap (fst s) = None"
  shows "DoLocalHashAndJoinWith ops reached (rows_reader ops lefts) (rows_reader ops rights) ixs s =
    Inr (io_after ops (length lefts + (if lefts = [] then 0 else length rights))
      (concat (map (hash_partner ops reached klefts) krights)) s, None)"
  by (rule hash_join_run [OF assms])

theorem DoLocalHashAndJoinWith_correct_witness:
  "DoLocalHashAndJoinWith mp_ops (\<lambda>b. b) (rows_reader mp_ops [kv 1 5, kv 1 6]) (rows_reader mp_ops [kv 1 7, kv 2 8]) [1] io_start =
    Inr (io_after mp_ops 4 [\<lparr>row_K = [VInt64 1], row_V = [VInt64 7, VInt64 6], row_T = 0\<rparr>] io_start, None)"
proof -
  have "append_intfs mp_ops [VInt64 1] [] = Inr [211, 0, 0, 0, 0, 0, 0, 0, 1]"
    "append_intfs mp_ops [VInt64 2] [] = Inr [211, 0, 0, 0, 0, 0, 0, 0, 2]" by code_simp+
  then have e: "EncodeKeys mp_ops (\<lambda>b. b) [VInt64 1] = Inr [211, 0, 0, 0, 0, 0, 0, 0, 1]"
    "EncodeKeys mp_ops (\<lambda>b. b) [VInt64 2] = Inr [211, 0, 0, 0, 0, 0, 0, 0, 2]" by (simp_all add: EncodeKeys_def)
  then have p: "hash_partner mp_ops (\<lambda>b. b) [kv 1 5, kv 1 6] (kv 1 7) =
      [\<lparr>row_K = [VInt64 1], row_V = [VInt64 7, VInt64 6], row_T = 0\<rparr>]"
    "hash_partner mp_ops (\<lambda>b. b) [kv 1 5, kv 1 6] (kv 2 8) = []"
    by (simp_all add: hash_partner_def hash_key_def key_bytes_def AppendValue_def)
  have four: "4 = Suc (Suc (Suc (Suc 0)))" by simp
  show ?thesis unfolding four
    using DoLocalHashAndJoinWith_correct [of "[kv 1 5, kv 1 6]" mp_ops "[1]" "[kv 1 5, kv 1 6]" "[kv 1 7, kv 2 8]" "[kv 1 7, kv 2 8]"
        "\<lambda>b. b" io_start] p e by (simp add: mp_wire_ok)
qed

text \<open>
  While the keys stay in the buffer of the unflushed writer of \<open>EncodeKeys\<close>, all encoded keys are empty
  and every row of the big side is joined with the last row of the small side, whatever the keys are.
\<close>

theorem DoLocalHashAndJoinWith_unflushed:
  assumes "\<forall>r\<in>set lefts. wire_ok ops r" "gmap (UseKeys ixs) lefts = Inr klefts" "klefts \<noteq> []"
    and "\<forall>r\<in>set rights. wire_ok ops r" "gmap (UseKeys ixs) rights = Inr krights"
    and "\<forall>r\<in>set krights. \<exists>bs. append_intfs ops (row_K r) [] = Inr bs"
    and "\<forall>r\<in>set krights. wire_ok ops (AppendValue (row_V (last klefts)) r)" "w_cap (fst s) = None"
  shows "DoLocalHashAndJoinWith ops (\<lambda>b. []) (rows_reader ops lefts) (rows_reader ops rights) ixs s =
    Inr (io_after ops (length lefts + length rights) (map (AppendValue (row_V (last klefts))) krights) s, None)"
proof -
  have "hash_key ops (\<lambda>b. []) r = []" for r
    by (simp add: hash_key_def EncodeKeys_def key_bytes_def split: sum.split)
  then have p: "hash_partner ops (\<lambda>b. []) klefts r = [AppendValue (row_V (last klefts)) r]" for r
    using assms(3) by (cases klefts rule: rev_cases) (simp_all add: hash_partner_def)
  have e: "\<forall>r\<in>set krights. \<exists>bs. EncodeKeys ops (\<lambda>b. []) (row_K r) = Inr bs"
  proof
    fix r assume "r \<in> set krights"
    then obtain bs where "append_intfs ops (row_K r) [] = Inr bs" using assms(6) by auto
    then show "\<exists>bs. EncodeKeys ops (\<lambda>b. []) (row_K r) = Inr bs" by (simp add: EncodeKeys_def)
  qed
  have "lefts \<noteq> []" using gmap_eq_Inr_length [OF assms(2)] assms(3) by auto
  moreover have "concat (map (hash_partner ops (\<lambda>b. []) klefts) krights) = map (AppendValue (row_V (last klefts))) krights"
    by (simp add: p concat_map_singleton cong: map_cong)
  ultimately show ?thesis using hash_join_run [OF assms(1,2,4,5) e _ assms(8)] assms(7) by (simp add: p)
qed

theorem DoLocalHashAndJoinWith_unflushed_witness:
  "DoLocalHashAndJoinWith mp_ops (\<lambda>b. []) (rows_reader mp_ops [kv 1 5]) (rows_reader mp_ops [kv 2 8]) [1] io_start =
    Inr (io_after mp_ops 2 [\<lparr>row_K = [VInt64 2], row_V = [VInt64 8, VInt64 5], row_T = 0\<rparr>] io_start, None)"
proof -
  have r: "AppendValue [VInt64 5] (kv 2 8) = \<lparr>row_K = [VInt64 2], row_V = [VInt64 8, VInt64 5], row_T = 0\<rparr>"
    by (simp add: AppendValue_def kv_def)
  have w: "wire_ok mp_ops \<lparr>row_K = [VInt64 2], row_V = [VInt64 8, VInt64 5], row_T = 0\<rparr>" "wire_ok mp_ops (kv 1 5)" "wire_ok mp_ops (kv 2 8)"
    by (auto intro!: mp_wire_ok)
  have "append_intfs mp_ops [VInt64 1] [] = Inr [211, 0, 0, 0, 0, 0, 0, 0, 1]"
    "append_intfs mp_ops [VInt64 2] [] = Inr [211, 0, 0, 0, 0, 0, 0, 0, 2]" by code_simp+
  then show ?thesis
    using DoLocalHashAndJoinWith_unflushed [of "[kv 1 5]" mp_ops "[1]" "[kv 1 5]" "[kv 2 8]" "[kv 2 8]" io_start] w
    by (simp add: r numeral_2_eq_2)
qed

end
