(* ===== verification/ShuffleInstructions.thy ===== *)
theory ShuffleInstructions
  imports LocalInstructions "HOL-Library.Sublist"
begin

text \<open>
  The instructions that move rows between shards: \<^verbatim>\<open>partition_scatter.go\<close>, \<^verbatim>\<open>broadcast.go\<close>,
  \<^verbatim>\<open>partition_collect.go\<close>, \<^verbatim>\<open>union.go\<close>, \<^verbatim>\<open>roud_robin.go\<close>, and \<^verbatim>\<open>CopyMultipleReaders\<close> of
  \<^verbatim>\<open>util/channel_util.go\<close>. The goroutines of the last three are actors of a transition system: an
  actor performs its next atomic action (a channel operation, an atomic addition, a write) or is
  blocked, and an execution is any sequence of such actions.
\<close>

section \<open>Scatter and broadcast\<close>

type_synonym shuffle_state = "gwriter list \<times> InstructionStat"

definition scatter_row :: "(bytes \<Rightarrow> 32 word) \<Rightarrow> msgp_ops \<Rightarrow> row \<Rightarrow> shuffle_state \<Rightarrow> (shuffle_state \<times> gerror option) go" where
  "scatter_row Hash ops row = (\<lambda>(writers, stats).
     let stats = count_in stats in
     gbind (PartitionByKeys Hash (int (length writers)) (row_K row)) (\<lambda>x.
     gbind (go_index writers x) (\<lambda>w.
       Inr (case WriteTo ops row w of
              (w', None) \<Rightarrow> ((writers[nat x := w'], count_out stats), None)
            | (w', Some err) \<Rightarrow> ((writers[nat x := w'], stats), None)))))"

definition DoScatterPartitions :: "(bytes \<Rightarrow> 32 word) \<Rightarrow> msgp_ops \<Rightarrow> greader \<Rightarrow> int list \<Rightarrow> shuffle_state \<Rightarrow>
    (shuffle_state \<times> gerror option) go" where
  "DoScatterPartitions Hash ops reader indexes s = ProcessRow ops reader indexes (scatter_row Hash ops) s"

definition broadcast_message :: "bytes \<Rightarrow> shuffle_state \<Rightarrow> (shuffle_state \<times> gerror option) go" where
  "broadcast_message data = (\<lambda>(writers, stats).
     Inr ((map (\<lambda>w. fst (WriteMessage data w)) writers,
           (count_in stats)\<lparr>OutputCounter := OutputCounter stats + of_nat (length writers)\<rparr>), None))"

definition DoBroadcast :: "greader \<Rightarrow> shuffle_state \<Rightarrow> (shuffle_state \<times> gerror option) go" where
  "DoBroadcast reader s = ProcessMessage reader broadcast_message s"

section \<open>CopyMultipleReaders\<close>

text \<open>
  A reader is what \<^verbatim>\<open>ProcessMessage\<close> makes of it: the messages it delivers and the error it ends with.
  The channel of messages holds at most 16 per reader, the channel of errors one per reader.
\<close>

definition delivered :: "greader \<Rightarrow> (bytes list \<times> gerror option) go" where
  "delivered reader = ProcessMessage reader (\<lambda>data ms. Inr (ms @ [data], None)) []"

datatype reader_pc = RLoop | RCount | RErr | RExit
datatype writer_pc = WLoop | WCount | WErr gerror | WExit
datatype main_pc = MRecv nat | MClose | MWait | MReturned int64 int64 "gerror option"

record copy_state =
  cp_in :: "(bytes list \<times> gerror option) list"
  cp_rpc :: "reader_pc list"
  cp_writerChan :: "bytes list"
  cp_writerChan_closed :: bool
  cp_wpc :: writer_pc
  cp_writer :: gwriter
  cp_errChan :: "gerror option list"
  cp_inCounter :: int64
  cp_outCounter :: int64
  cp_main :: main_pc
  cp_panic :: bool

definition errChan_closed :: "copy_state \<Rightarrow> bool" where
  "errChan_closed s = (case cp_main s of MReturned _ _ _ \<Rightarrow> True | _ \<Rightarrow> False)"

definition copy_init :: "(bytes list \<times> gerror option) list \<Rightarrow> gwriter \<Rightarrow> copy_state" where
  "copy_init readers writer =
     \<lparr>cp_in = readers, cp_rpc = replicate (length readers) RLoop, cp_writerChan = [], cp_writerChan_closed = False,
      cp_wpc = WLoop, cp_writer = writer, cp_errChan = [], cp_inCounter = 0, cp_outCounter = 0,
      cp_main = MRecv (length readers), cp_panic = False\<rparr>"

definition send_err :: "gerror option \<Rightarrow> copy_state \<Rightarrow> (copy_state \<Rightarrow> copy_state) \<Rightarrow> copy_state option" where
  "send_err err s next =
     (if errChan_closed s then Some (s\<lparr>cp_panic := True\<rparr>)
      else if length (cp_errChan s) < length (cp_in s) then Some (next (s\<lparr>cp_errChan := cp_errChan s @ [err]\<rparr>))
      else None)"

definition reader_step :: "nat \<Rightarrow> copy_state \<Rightarrow> copy_state option" where
  "reader_step i s =
     (let goto = (\<lambda>pc s. s\<lparr>cp_rpc := (cp_rpc s)[i := pc]\<rparr>) in
      case cp_rpc s ! i of
        RLoop \<Rightarrow>
          (case cp_in s ! i of
             ([], err) \<Rightarrow> Some (goto RErr s)
           | (data # ms, err) \<Rightarrow>
               if cp_writerChan_closed s then Some (s\<lparr>cp_panic := True\<rparr>)
               else if length (cp_writerChan s) < 16 * length (cp_in s) then
                 Some (goto RCount (s\<lparr>cp_writerChan := cp_writerChan s @ [data], cp_in := (cp_in s)[i := (ms, err)]\<rparr>))
               else None)
      | RCount \<Rightarrow> Some (goto RLoop (s\<lparr>cp_inCounter := cp_inCounter s + 1\<rparr>))
      | RErr \<Rightarrow> send_err (snd (cp_in s ! i)) s (goto RExit)
      | RExit \<Rightarrow> None)"

definition writer_step :: "copy_state \<Rightarrow> copy_state option" where
  "writer_step s =
     (case cp_wpc s of
        WLoop \<Rightarrow>
          (case cp_writerChan s of
             data # ms \<Rightarrow>
               (case WriteMessage data (cp_writer s) of
                  (writer, None) \<Rightarrow> Some (s\<lparr>cp_writerChan := ms, cp_writer := writer, cp_wpc := WCount\<rparr>)
                | (writer, Some err) \<Rightarrow> Some (s\<lparr>cp_writerChan := ms, cp_writer := writer,
                    cp_wpc := WErr (Errorf ''WriteMessage Error'' (Some err))\<rparr>))
           | [] \<Rightarrow> if cp_writerChan_closed s then Some (s\<lparr>cp_wpc := WExit\<rparr>) else None)
      | WCount \<Rightarrow> Some (s\<lparr>cp_outCounter := cp_outCounter s + 1, cp_wpc := WLoop\<rparr>)
      | WErr err \<Rightarrow> send_err (Some err) s (\<lambda>s. s\<lparr>cp_wpc := WExit\<rparr>)
      | WExit \<Rightarrow> None)"

definition main_step :: "copy_state \<Rightarrow> copy_state option" where
  "main_step s =
     (case cp_main s of
        MRecv 0 \<Rightarrow> Some (s\<lparr>cp_main := MClose\<rparr>)
      | MRecv (Suc k) \<Rightarrow>
          (case cp_errChan s of
             [] \<Rightarrow> None
           | err # errs \<Rightarrow>
               if err \<noteq> None \<and> err \<noteq> Some EOF
               then Some (s\<lparr>cp_errChan := errs, cp_main := MReturned (cp_inCounter s) (cp_outCounter s) err\<rparr>)
               else Some (s\<lparr>cp_errChan := errs, cp_main := MRecv k\<rparr>))
      | MClose \<Rightarrow> Some (s\<lparr>cp_writerChan_closed := True, cp_main := MWait\<rparr>)
      | MWait \<Rightarrow>
          if (\<forall>pc\<in>set (cp_rpc s). pc = RExit) \<and> cp_wpc s = WExit
          then Some (s\<lparr>cp_main := MReturned (cp_inCounter s) (cp_outCounter s) None\<rparr>) else None
      | MReturned _ _ _ \<Rightarrow> None)"

datatype actor = Reader nat | Writer | Main

definition copy_step :: "actor \<Rightarrow> copy_state \<Rightarrow> copy_state option" where
  "copy_step a s =
     (if cp_panic s then None
      else case a of
        Reader i \<Rightarrow> if i < length (cp_in s) then reader_step i s else None
      | Writer \<Rightarrow> writer_step s
      | Main \<Rightarrow> main_step s)"

inductive copy_run :: "copy_state \<Rightarrow> copy_state \<Rightarrow> bool" where
  refl: "copy_run s s"
| step: "copy_run s s' \<Longrightarrow> copy_step a s' = Some s'' \<Longrightarrow> copy_run s s''"

text \<open>A call of \<^verbatim>\<open>CopyMultipleReaders\<close> with its results, and the writer it leaves behind.\<close>

definition CopyMultipleReaders :: "(bytes list \<times> gerror option) list \<Rightarrow> gwriter \<Rightarrow>
    gwriter \<Rightarrow> int64 \<Rightarrow> int64 \<Rightarrow> gerror option \<Rightarrow> bool" where
  "CopyMultipleReaders readers writer writer' inCounter outCounter err \<longleftrightarrow>
     (\<exists>s. copy_run (copy_init readers writer) s \<and> cp_main s = MReturned inCounter outCounter err \<and> cp_writer s = writer')"

text \<open>\<^verbatim>\<open>io.Copy\<close> moves the bytes as they are.\<close>

definition io_Copy :: "greader \<Rightarrow> gwriter \<Rightarrow> gwriter \<times> nat \<times> gerror option" where
  "io_Copy reader writer =
     (if r_data reader = [] then (writer, 0, if r_end reader = EOF then None else Some (r_end reader))
      else case io_write (r_data reader) writer of
        (writer', n, None) \<Rightarrow> (writer', n, if r_end reader = EOF then None else Some (r_end reader))
      | (writer', n, Some err) \<Rightarrow> (writer', n, Some err))"

inductive DoCollectPartitions :: "greader list \<Rightarrow> io_state \<Rightarrow> io_state \<Rightarrow> gerror option \<Rightarrow> bool" where
  one: "io_Copy reader writer = (writer', n, err) \<Longrightarrow>
    DoCollectPartitions [reader] (writer, stats)
      (writer', stats\<lparr>InputCounter := of_nat n, OutputCounter := of_nat n\<rparr>) err"
| many: "length readers \<noteq> 1 \<Longrightarrow> gmap delivered readers = Inr streams \<Longrightarrow>
    CopyMultipleReaders streams writer writer' inCounter outCounter err \<Longrightarrow>
    DoCollectPartitions readers (writer, stats)
      (writer', stats\<lparr>InputCounter := inCounter, OutputCounter := outCounter\<rparr>) err"

section \<open>Union\<close>

text \<open>
  The rows a reader delivers to the callback of \<^verbatim>\<open>ProcessRow\<close>; its error is dropped. The mutex makes the
  callback atomic. In the sequential case one goroutine goes through the readers in order.
\<close>

definition delivered_rows :: "msgp_ops \<Rightarrow> greader \<Rightarrow> row list go" where
  "delivered_rows ops reader =
     gbind (ProcessRow ops reader [] (\<lambda>row rows. Inr (rows @ [row], None)) []) (\<lambda>(rows, err). Inr rows)"

definition union_row :: "msgp_ops \<Rightarrow> row \<Rightarrow> io_state \<Rightarrow> io_state" where
  "union_row ops row = (\<lambda>(writer, stats). (fst (WriteTo ops row writer), count_out (count_in stats)))"

inductive union_run :: "msgp_ops \<Rightarrow> bool \<Rightarrow> row list list \<Rightarrow> io_state \<Rightarrow> io_state \<Rightarrow> bool" where
  finished: "\<forall>rows\<in>set rowss. rows = [] \<Longrightarrow> union_run ops isParallel rowss s s"
| next_row: "i < length rowss \<Longrightarrow> rowss ! i = row # rows \<Longrightarrow> isParallel \<or> (\<forall>j<i. rowss ! j = []) \<Longrightarrow>
    union_run ops isParallel (rowss[i := rows]) (union_row ops row s) s' \<Longrightarrow>
    union_run ops isParallel rowss s s'"

definition DoUnion :: "msgp_ops \<Rightarrow> greader list \<Rightarrow> bool \<Rightarrow> io_state \<Rightarrow> io_state \<Rightarrow> bool" where
  "DoUnion ops readers isParallel s s' \<longleftrightarrow>
     (\<exists>rowss. gmap (delivered_rows ops) readers = Inr rowss \<and> union_run ops isParallel rowss s s')"

section \<open>Round robin\<close>

text \<open>
  Every goroutine increments the shared counter, later reads it again to choose the writer, and
  writes the length and the content of its message in two separate writes.
\<close>

datatype rr_pc = RRLoop | RRCounted bytes | RRHeader nat bytes | RRDone

record rr_state =
  rr_in :: "bytes list list"
  rr_pc :: "rr_pc list"
  rr_count :: "32 word"
  rr_writers :: "gwriter list"
  rr_stats :: InstructionStat

definition rr_init :: "bytes list list \<Rightarrow> gwriter list \<Rightarrow> InstructionStat \<Rightarrow> rr_state" where
  "rr_init readers writers stats =
     \<lparr>rr_in = readers, rr_pc = replicate (length readers) RRLoop, rr_count = 0, rr_writers = writers, rr_stats = stats\<rparr>"

definition rr_step :: "nat \<Rightarrow> rr_state \<Rightarrow> rr_state go option" where
  "rr_step i s =
     (let goto = (\<lambda>pc s. s\<lparr>rr_pc := (rr_pc s)[i := pc]\<rparr>) in
      case rr_pc s ! i of
        RRLoop \<Rightarrow>
          (case rr_in s ! i of
             [] \<Rightarrow> Some (Inr (goto RRDone s))
           | data # ms \<Rightarrow> Some (Inr (goto (RRCounted data)
               (s\<lparr>rr_in := (rr_in s)[i := ms], rr_stats := count_in (rr_stats s), rr_count := rr_count s + 1\<rparr>))))
      | RRCounted data \<Rightarrow>
          Some (gbind (go_mod (sint (rr_count s)) (int (length (rr_writers s)))) (\<lambda>x.
            gbind (go_index (rr_writers s) x) (\<lambda>w.
              Inr (case io_write (le32 (of_nat (length data))) w of
                (w', n, None) \<Rightarrow> goto (RRHeader (nat x) data) (s\<lparr>rr_writers := (rr_writers s)[nat x := w']\<rparr>)
              | (w', n, Some err) \<Rightarrow> goto RRDone (s\<lparr>rr_writers := (rr_writers s)[nat x := w']\<rparr>)))))
      | RRHeader x data \<Rightarrow>
          Some (Inr (case io_write data (rr_writers s ! x) of
            (w', n, None) \<Rightarrow> goto RRLoop (s\<lparr>rr_writers := (rr_writers s)[x := w'], rr_stats := count_out (rr_stats s)\<rparr>)
          | (w', n, Some err) \<Rightarrow> goto RRDone (s\<lparr>rr_writers := (rr_writers s)[x := w']\<rparr>)))
      | RRDone \<Rightarrow> None)"

text \<open>An execution is given by the order in which the goroutines act; a goroutine that is done is skipped.\<close>

fun DoRoundRobin :: "nat list \<Rightarrow> rr_state \<Rightarrow> rr_state go" where
  "DoRoundRobin [] s = Inr s"
| "DoRoundRobin (i # is) s =
     (case rr_step i s of
        None \<Rightarrow> DoRoundRobin is s
      | Some r \<Rightarrow> gbind r (DoRoundRobin is))"

section \<open>Partitioning by key\<close>

lemma HashByKeys_nonneg: "0 \<le> sint (HashByKeys Hash data)"
proof -
  have "\<not> bit (HashByKeys Hash data) 63"
    by (simp add: HashByKeys_def bit_and_iff bit_numeral_rec)
  then show ?thesis by (simp add: bit_last_iff [symmetric] not_less [symmetric])
qed

lemma PartitionByKeys_ok:
  assumes "0 < n"
  obtains x where "PartitionByKeys Hash (int n) data = Inr (int x)" "x < n"
proof -
  let ?h = "sint (HashByKeys Hash data)"
  have "0 \<le> ?h mod int n" "?h mod int n < int n" using assms by simp_all
  moreover have "PartitionByKeys Hash (int n) data = Inr (?h mod int n)"
    using assms HashByKeys_nonneg [of Hash data] by (auto simp: PartitionByKeys_def go_mod_def sgn_if)
  ultimately show thesis using that [of "nat (?h mod int n)"] by simp
qed

definition shard_of :: "(bytes \<Rightarrow> 32 word) \<Rightarrow> nat \<Rightarrow> row \<Rightarrow> nat" where
  "shard_of Hash n r = (case PartitionByKeys Hash (int n) (row_K r) of Inr x \<Rightarrow> nat x | Inl _ \<Rightarrow> 0)"

lemma shard_of_ok:
  assumes "0 < n"
  shows "PartitionByKeys Hash (int n) (row_K r) = Inr (int (shard_of Hash n r))" "shard_of Hash n r < n"
proof -
  obtain x where "PartitionByKeys Hash (int n) (row_K r) = Inr (int x)" "x < n" by (rule PartitionByKeys_ok [OF assms])
  then show "PartitionByKeys Hash (int n) (row_K r) = Inr (int (shard_of Hash n r))" "shard_of Hash n r < n"
    by (simp_all add: shard_of_def)
qed

text \<open>
  For a positive number of shards \<open>PartitionByKeys\<close> never panics and returns a valid shard number,
  whatever the keys and the hash function, also when the polynomial hash has wrapped around.
\<close>

theorem PartitionByKeys_range:
  assumes "0 < shardCount"
  shows "\<exists>x. PartitionByKeys Hash shardCount data = Inr x \<and> 0 \<le> x \<and> x < shardCount"
proof -
  from assms obtain n where n: "shardCount = int n" "0 < n" by (metis pos_int_cases)
  obtain x where "PartitionByKeys Hash (int n) data = Inr (int x)" "x < n" by (rule PartitionByKeys_ok [OF n(2)])
  then show ?thesis unfolding n(1) by simp
qed

theorem PartitionByKeys_range_witness:
  "\<exists>x. PartitionByKeys (\<lambda>b. 7) 3 [VString [], VInt64 5] = Inr x \<and> 0 \<le> x \<and> x < 3"
  by (rule PartitionByKeys_range) simp

text \<open>
  Keys that \<open>Compare\<close> treats as equal may land on different shards: an integer and the equal float.
\<close>

theorem PartitionByKeys_splits_equal_keys:
  "Compare (VSlice [VInt64 5]) (VSlice [VFloat64 (FFin 5)]) = Inr 0 \<and>
   PartitionByKeys Hash 2 [VInt64 5] = Inr 1 \<and> PartitionByKeys Hash 2 [VFloat64 (FFin 5)] = Inr 0"
proof (intro conjI)
  have "float_round 11 5 = 5" by (simp add: eval_nat_numeral)
  then show "Compare (VSlice [VInt64 5]) (VSlice [VFloat64 (FFin 5)]) = Inr 0"
    by (simp add: Compare.simps Compare_loop.simps compare_default_def isFloat_def ToFloat64_def ToInt64_def
        float64_of_int64_def)
qed (simp_all add: PartitionByKeys_def go_mod_def HashByKeys_def hashByKey_def)

text \<open>
  C8: Scattering writes every row, keyed by the given columns, to exactly one writer, the one its key
  hashes to, keeps the order of the rows of a shard and counts all rows on both sides.
\<close>

theorem DoScatterPartitions_correct:
  assumes "\<forall>r\<in>set rows. wire_ok ops r" "gmap (UseKeys ixs) rows = Inr krows" "\<forall>r\<in>set krows. wire_ok ops r"
    and "writers \<noteq> []" "\<forall>w\<in>set writers. w_cap w = None"
  shows "\<exists>writers'. DoScatterPartitions Hash ops (rows_reader ops rows) ixs (writers, stats) =
      Inr ((writers', stats\<lparr>InputCounter := InputCounter stats + of_nat (length krows),
        OutputCounter := OutputCounter stats + of_nat (length krows)\<rparr>), None) \<and>
    length writers' = length writers \<and>
    (\<forall>i<length writers. w_data (writers' ! i) = w_data (writers ! i) @
       rows_bytes ops (filter (\<lambda>r. shard_of Hash (length writers) r = i) krows))"
proof -
  let ?n = "length writers"
  let ?I = "\<lambda>pre (ws, st). length (ws :: gwriter list) = ?n \<and> (\<forall>w\<in>set ws. w_cap w = None) \<and>
    st = stats\<lparr>InputCounter := InputCounter stats + of_nat (length pre), OutputCounter := OutputCounter stats + of_nat (length pre)\<rparr> \<and>
    (\<forall>i<?n. w_data (ws ! i) = w_data (writers ! i) @ rows_bytes ops (filter (\<lambda>r. shard_of Hash ?n r = i) pre))"
  have n: "0 < ?n" using assms(4) by simp
  have "\<exists>z. fold_msgs (scatter_row Hash ops) krows (writers, stats) = Inr (z, None) \<and> ?I krows z"
  proof (rule fold_msgs_inv)
    fix pre r post z assume rows: "krows = pre @ r # post" and "?I pre z"
    then obtain ws st where z: "z = (ws, st)" "?I pre (ws, st)" by (cases z) auto
    let ?x = "shard_of Hash ?n r"
    have x: "?x < length ws" "w_cap (ws ! ?x) = None" using shard_of_ok(2) [OF n] z(2) by auto
    have "scatter_row Hash ops r z = Inr ((ws[?x := (ws ! ?x)\<lparr>w_data := w_data (ws ! ?x) @ rows_bytes ops [r]\<rparr>],
        count_out (count_in st)), None)"
      using z x shard_of_ok(1) [OF n] assms(3) rows by (simp add: scatter_row_def Let_def)
    then show "\<exists>z'. scatter_row Hash ops r z = Inr (z', None) \<and> ?I (pre @ [r]) z'"
      using z x assms(3) by (auto simp: nth_list_update set_update_subsetI dest!: subsetD [OF set_update_subset_insert])
  qed (use assms(5) in simp)
  then show ?thesis by (auto simp: DoScatterPartitions_def ProcessRow_keyed [OF assms(1,2)])
qed

theorem DoScatterPartitions_correct_witness:
  "\<exists>writers'. DoScatterPartitions (\<lambda>b. 0) mp_ops (rows_reader mp_ops [kv 4 1, kv 5 2]) [1]
      ([fst io_start, fst io_start], snd io_start) =
      Inr ((writers', \<lparr>InputCounter = 2, OutputCounter = 2\<rparr>), None) \<and>
    w_data (writers' ! 0) = rows_bytes mp_ops [kv 4 1] \<and> w_data (writers' ! 1) = rows_bytes mp_ops [kv 5 2]"
proof -
  have sh: "shard_of (\<lambda>b. 0) 2 (kv 4 1) = 0" "shard_of (\<lambda>b. 0) 2 (kv 5 2) = 1"
    by (simp_all add: shard_of_def PartitionByKeys_def go_mod_def HashByKeys_def hashByKey_def)
  have "\<forall>w\<in>set [fst io_start, fst io_start]. w_cap w = None" by simp
  from DoScatterPartitions_correct [of "[kv 4 1, kv 5 2]" mp_ops "[1]" "[kv 4 1, kv 5 2]" "[fst io_start, fst io_start]"
      "\<lambda>b. 0" "snd io_start", OF _ _ _ _ this] obtain writers' where
    w: "DoScatterPartitions (\<lambda>b. 0) mp_ops (rows_reader mp_ops [kv 4 1, kv 5 2]) [1] ([fst io_start, fst io_start], snd io_start) =
      Inr ((writers', (snd io_start)\<lparr>InputCounter := InputCounter (snd io_start) + of_nat (length [kv 4 1, kv 5 2]),
        OutputCounter := OutputCounter (snd io_start) + of_nat (length [kv 4 1, kv 5 2])\<rparr>), None)"
    "\<forall>i<length [fst io_start, fst io_start]. w_data (writers' ! i) = w_data ([fst io_start, fst io_start] ! i) @
       rows_bytes mp_ops (filter (\<lambda>r. shard_of (\<lambda>b. 0) (length [fst io_start, fst io_start]) r = i) [kv 4 1, kv 5 2])"
    by auto
  then have "w_data (writers' ! 0) = rows_bytes mp_ops [kv 4 1]" "w_data (writers' ! 1) = rows_bytes mp_ops [kv 5 2]"
    using sh by (simp_all add: io_start_def numeral_2_eq_2)
  with w(1) show ?thesis by (simp add: io_start_def)
qed

text \<open>
  Broadcasting gives every writer all the messages, in order.
\<close>

theorem DoBroadcast_correct:
  assumes "\<forall>m\<in>set ms. fits m" "\<forall>w\<in>set writers. w_cap w = None"
  shows "DoBroadcast \<lparr>r_data = concat (map frame ms), r_end = EOF\<rparr> (writers, stats) =
    Inr ((map (\<lambda>w. w\<lparr>w_data := w_data w @ concat (map frame ms)\<rparr>) writers,
      stats\<lparr>InputCounter := InputCounter stats + of_nat (length ms),
        OutputCounter := OutputCounter stats + of_nat (length ms * length writers)\<rparr>), None)"
proof -
  let ?I = "\<lambda>pre z. z = (map (\<lambda>w. w\<lparr>w_data := w_data w @ concat (map frame pre)\<rparr>) writers,
      stats\<lparr>InputCounter := InputCounter stats + of_nat (length pre),
        OutputCounter := OutputCounter stats + of_nat (length pre * length writers)\<rparr>)"
  have "\<exists>z. fold_msgs broadcast_message ms (writers, stats) = Inr (z, None) \<and> ?I ms z"
    by (rule fold_msgs_inv) (use assms(2) in \<open>auto simp: broadcast_message_def algebra_simps\<close>)
  then show ?thesis using ProcessMessage_frames [OF assms(1), of broadcast_message] by (simp add: DoBroadcast_def)
qed

section \<open>Interleavings\<close>

text \<open>\<open>interleaved ys xss\<close>: \<open>ys\<close> takes its elements from the lists \<open>xss\<close>, from each in its order.\<close>

inductive interleaved :: "'a list \<Rightarrow> 'a list list \<Rightarrow> bool" where
  interleaved_Nil: "\<forall>xs\<in>set xss. xs = [] \<Longrightarrow> interleaved [] xss"
| interleaved_snoc: "interleaved ys xss \<Longrightarrow> i < length xss \<Longrightarrow> interleaved (ys @ [x]) (xss[i := xss ! i @ [x]])"

lemma interleaved_mset: "interleaved ys xss \<Longrightarrow> mset ys = mset (concat xss)"
proof (induction rule: interleaved.induct)
  case (interleaved_snoc ys xss i x)
  then have "xss = take i xss @ xss ! i # drop (Suc i) xss" by (simp add: id_take_nth_drop)
  then have "mset (concat xss) = mset (concat (take i xss)) + mset (xss ! i) + mset (concat (drop (Suc i) xss))"
    by (metis (no_types, lifting) add.assoc concat.simps(2) concat_append mset_append)
  with interleaved_snoc show ?case by (simp add: upd_conv_take_nth_drop)
qed auto

lemma interleaved_subseq: "interleaved ys xss \<Longrightarrow> i < length xss \<Longrightarrow> subseq (xss ! i) ys"
proof (induction rule: interleaved.induct)
  case (interleaved_snoc ys xss j x)
  then show ?case by (cases "i = j") (auto intro: subseq_append' list_emb_append2 subseq_rev_drop_many)
qed auto

section \<open>CopyMultipleReaders: safety\<close>

abbreviation rpc_count :: "copy_state \<Rightarrow> reader_pc \<Rightarrow> nat" where
  "rpc_count s pc \<equiv> count (mset (cp_rpc s)) pc"

definition clean_end :: "gerror option \<Rightarrow> bool" where
  "clean_end e \<longleftrightarrow> e = None \<or> e = Some EOF"

definition main_inv :: "nat \<Rightarrow> copy_state \<Rightarrow> bool" where
  "main_inv n s = (case cp_main s of
     MRecv k \<Rightarrow> k \<le> n \<and> \<not> cp_writerChan_closed s \<and> rpc_count s RExit + k = length (cp_errChan s) + n
   | MClose \<Rightarrow> \<not> cp_writerChan_closed s \<and> rpc_count s RExit = n \<and> cp_errChan s = []
   | MWait \<Rightarrow> cp_writerChan_closed s \<and> rpc_count s RExit = n
   | MReturned a b e \<Rightarrow> cp_writerChan_closed s \<and> rpc_count s RExit = n \<and> cp_wpc s = WExit \<and> e = None \<and>
       a = cp_inCounter s \<and> b = cp_outCounter s)"

definition reader_inv :: "(bytes list \<times> gerror option) list \<Rightarrow> copy_state \<Rightarrow> bytes list list \<Rightarrow> bool" where
  "reader_inv streams s taken \<longleftrightarrow>
     length (cp_in s) = length streams \<and> length (cp_rpc s) = length streams \<and> length taken = length streams \<and>
     (\<forall>i<length streams. taken ! i @ fst (cp_in s ! i) = fst (streams ! i) \<and> snd (cp_in s ! i) = snd (streams ! i) \<and>
        (cp_rpc s ! i \<in> {RErr, RExit} \<longrightarrow> fst (cp_in s ! i) = []))"

definition writer_inv :: "gwriter \<Rightarrow> copy_state \<Rightarrow> bytes list \<Rightarrow> bool" where
  "writer_inv w s written \<longleftrightarrow>
     cp_writer s = w\<lparr>w_data := w_data w @ concat (map frame written)\<rparr> \<and>
     cp_outCounter s + (if cp_wpc s = WCount then 1 else 0) = of_nat (length written) \<and>
     (cp_wpc s = WExit \<longrightarrow> cp_writerChan_closed s \<and> cp_writerChan s = []) \<and> (\<forall>e. cp_wpc s \<noteq> WErr e)"

definition copy_inv :: "(bytes list \<times> gerror option) list \<Rightarrow> gwriter \<Rightarrow> copy_state \<Rightarrow> bytes list \<Rightarrow> bytes list list \<Rightarrow> bool" where
  "copy_inv streams w s written taken \<longleftrightarrow>
     reader_inv streams s taken \<and> writer_inv w s written \<and> main_inv (length streams) s \<and>
     interleaved (written @ cp_writerChan s) taken \<and>
     cp_inCounter s + of_nat (rpc_count s RCount) = of_nat (length (written @ cp_writerChan s)) \<and>
     (\<forall>e\<in>set (cp_errChan s). clean_end e) \<and> \<not> cp_panic s"

lemma count_update:
  "i < length xs \<Longrightarrow> count (mset (xs[i := y])) z + (if xs ! i = z then 1 else 0) = count (mset xs) z + (if y = z then 1 else 0)"
  by (simp add: mset_update) (metis One_nat_def Suc_pred count_greater_zero_iff nth_mem_mset)

lemma count_le_length: "count (mset xs) z \<le> length xs"
  by (induction xs) auto

lemma count_eq_length: "count (mset xs) z = length xs \<longleftrightarrow> (\<forall>x\<in>set xs. x = z)"
proof (induction xs)
  case (Cons x xs)
  then show ?case using count_le_length [of xs z] by (cases "x = z") auto
qed simp

lemmas copy_inv_defs = copy_inv_def reader_inv_def writer_inv_def main_inv_def

lemma reader_step_inv:
  assumes inv: "copy_inv streams w s written taken" and i: "i < length streams" "reader_step i s = Some s'"
    and clean: "\<forall>x\<in>set streams. clean_end (snd x)"
  shows "\<exists>taken'. copy_inv streams w s' written taken'"
proof -
  have len: "length (cp_in s) = length streams" "length (cp_rpc s) = length streams" "length taken = length streams"
    and str: "taken ! i @ fst (cp_in s ! i) = fst (streams ! i)" "snd (cp_in s ! i) = snd (streams ! i)"
    using inv i(1) by (auto simp: copy_inv_def reader_inv_def)
  have ex: "\<not> cp_writerChan_closed s \<and> \<not> errChan_closed s" if "cp_rpc s ! i \<noteq> RExit"
  proof -
    have "rpc_count s RExit \<noteq> length streams" using that i(1) len(2) count_eq_length [of "cp_rpc s" RExit] by (metis nth_mem)
    then show ?thesis using inv by (auto simp: copy_inv_def main_inv_def errChan_closed_def split: main_pc.splits)
  qed
  note upd = count_update [of i "cp_rpc s", unfolded len, OF i(1)]
  show ?thesis
  proof (cases "cp_rpc s ! i")
    case RLoop
    show ?thesis
    proof (cases "fst (cp_in s ! i)")
      case Nil
      have s': "s' = s\<lparr>cp_rpc := (cp_rpc s)[i := RErr]\<rparr>"
        using i(2) RLoop Nil by (cases "cp_in s ! i") (simp add: reader_step_def)
      have "count (mset ((cp_rpc s)[i := RErr])) z = rpc_count s z" if "z = RExit \<or> z = RCount" for z
        using upd [of RErr z] RLoop that by auto
      then have "copy_inv streams w s' written taken"
        using inv Nil i(1) len unfolding s' copy_inv_defs by (simp add: nth_list_update split: main_pc.splits)
      then show ?thesis by blast
    next
      case (Cons data ms)
      have s': "s' = s\<lparr>cp_writerChan := cp_writerChan s @ [data], cp_in := (cp_in s)[i := (ms, snd (cp_in s ! i))],
          cp_rpc := (cp_rpc s)[i := RCount]\<rparr>"
        using i(2) RLoop Cons ex by (cases "cp_in s ! i") (auto simp: reader_step_def split: if_splits)
      have c: "count (mset ((cp_rpc s)[i := RCount])) RExit = rpc_count s RExit"
        "count (mset ((cp_rpc s)[i := RCount])) RCount = Suc (rpc_count s RCount)"
        using upd [of RCount RExit] upd [of RCount RCount] RLoop by auto
      have "interleaved ((written @ cp_writerChan s) @ [data]) (taken[i := taken ! i @ [data]])"
        using inv i(1) len by (intro interleaved_snoc) (simp_all add: copy_inv_def)
      moreover have "cp_wpc s \<noteq> WExit" using ex RLoop inv by (simp add: copy_inv_def writer_inv_def)
      ultimately have "copy_inv streams w s' written (taken[i := taken ! i @ [data]])"
        using inv Cons str i(1) len c unfolding s' copy_inv_defs
        by (simp add: nth_list_update add.assoc split: main_pc.splits)
      then show ?thesis by blast
    qed
  next
    case RCount
    have s': "s' = s\<lparr>cp_inCounter := cp_inCounter s + 1, cp_rpc := (cp_rpc s)[i := RLoop]\<rparr>"
      using i(2) RCount by (simp add: reader_step_def)
    have c: "count (mset ((cp_rpc s)[i := RLoop])) RExit = rpc_count s RExit"
      "Suc (count (mset ((cp_rpc s)[i := RLoop])) RCount) = rpc_count s RCount"
      using upd [of RLoop RExit] upd [of RLoop RCount] RCount by auto
    have "copy_inv streams w s' written taken" using inv i(1) len c(1) ex RCount unfolding s' copy_inv_defs c(2) [symmetric]
      by (simp add: nth_list_update errChan_closed_def split: main_pc.splits) (auto simp: algebra_simps)
    then show ?thesis by blast
  next
    case RErr
    have s': "s' = s\<lparr>cp_errChan := cp_errChan s @ [snd (cp_in s ! i)], cp_rpc := (cp_rpc s)[i := RExit]\<rparr>"
      using i(2) RErr ex by (simp add: reader_step_def send_err_def split: if_splits)
    have c: "count (mset ((cp_rpc s)[i := RExit])) RExit = Suc (rpc_count s RExit)"
      "count (mset ((cp_rpc s)[i := RExit])) RCount = rpc_count s RCount"
      using upd [of RExit RExit] upd [of RExit RCount] RErr by auto
    have "rpc_count s RExit \<noteq> length streams" using RErr i(1) len(2) count_eq_length [of "cp_rpc s" RExit] by (metis nth_mem reader_pc.distinct(11))
    moreover have "clean_end (snd (cp_in s ! i))" using clean str(2) i(1) by simp
    ultimately have "copy_inv streams w s' written taken" using inv i(1) len c RErr unfolding s' copy_inv_defs
      by (simp add: nth_list_update split: main_pc.splits)
    then show ?thesis by blast
  next
    case RExit
    then show ?thesis using i(2) by (simp add: reader_step_def)
  qed
qed

lemma writer_step_inv:
  assumes inv: "copy_inv streams w s written taken" and st: "writer_step s = Some s'" and w: "w_cap w = None"
  shows "\<exists>written'. copy_inv streams w s' written' taken"
proof (cases "cp_wpc s")
  case WLoop
  have cap: "w_cap (cp_writer s) = None" using inv w by (simp add: copy_inv_def writer_inv_def)
  show ?thesis
  proof (cases "cp_writerChan s")
    case Nil
    with st WLoop have s': "s' = s\<lparr>cp_wpc := WExit\<rparr>" "cp_writerChan_closed s" by (auto simp: writer_step_def split: if_splits)
    have "copy_inv streams w s' written taken"
      using inv WLoop Nil s'(2) unfolding s'(1) copy_inv_defs by (auto split: main_pc.splits)
    then show ?thesis by blast
  next
    case (Cons data ms)
    have s': "s' = s\<lparr>cp_writerChan := ms, cp_writer := (cp_writer s)\<lparr>w_data := w_data (cp_writer s) @ frame data\<rparr>, cp_wpc := WCount\<rparr>"
      using st WLoop Cons cap by (simp add: writer_step_def)
    have "copy_inv streams w s' (written @ [data]) taken"
      using inv WLoop Cons unfolding s' copy_inv_defs by (auto split: main_pc.splits)
    then show ?thesis by blast
  qed
next
  case WCount
  with st have s': "s' = s\<lparr>cp_outCounter := cp_outCounter s + 1, cp_wpc := WLoop\<rparr>" by (simp add: writer_step_def)
  have "copy_inv streams w s' written taken"
    using inv WCount unfolding s' copy_inv_defs by (auto split: main_pc.splits)
  then show ?thesis by blast
next
  case (WErr e)
  then show ?thesis using inv by (simp add: copy_inv_def writer_inv_def)
next
  case WExit
  then show ?thesis using st by (simp add: writer_step_def)
qed

lemma main_step_inv:
  assumes inv: "copy_inv streams w s written taken" and st: "main_step s = Some s'"
  shows "copy_inv streams w s' written taken"
proof (cases "cp_main s")
  case (MRecv k)
  have n: "rpc_count s RExit \<le> length streams" using inv count_le_length [of "cp_rpc s" RExit] by (simp add: copy_inv_def reader_inv_def)
  show ?thesis
  proof (cases k)
    case 0
    with st MRecv have "s' = s\<lparr>cp_main := MClose\<rparr>" by (simp add: main_step_def)
    with inv MRecv 0 n show ?thesis unfolding copy_inv_defs by auto
  next
    case (Suc k')
    with st MRecv obtain e es where e: "cp_errChan s = e # es" by (auto simp: main_step_def split: list.splits)
    then have "clean_end e" using inv by (simp add: copy_inv_def)
    with e st MRecv Suc have "s' = s\<lparr>cp_errChan := es, cp_main := MRecv k'\<rparr>" by (auto simp: main_step_def clean_end_def)
    with inv MRecv Suc e show ?thesis unfolding copy_inv_defs by auto
  qed
next
  case MClose
  with st have "s' = s\<lparr>cp_writerChan_closed := True, cp_main := MWait\<rparr>" by (simp add: main_step_def)
  with inv MClose show ?thesis unfolding copy_inv_defs by auto
next
  case MWait
  with st have "s' = s\<lparr>cp_main := MReturned (cp_inCounter s) (cp_outCounter s) None\<rparr>" "cp_wpc s = WExit"
    by (auto simp: main_step_def split: if_splits)
  with inv MWait show ?thesis unfolding copy_inv_defs by auto
next
  case (MReturned a b e)
  with st show ?thesis by (simp add: main_step_def)
qed

lemma copy_init_inv: "copy_inv streams w (copy_init streams w) [] (replicate (length streams) [])"
  by (auto simp: copy_init_def copy_inv_defs intro: interleaved_Nil)

lemma copy_run_inv:
  assumes "copy_run (copy_init streams w) s" "\<forall>x\<in>set streams. clean_end (snd x)" "w_cap w = None"
  shows "\<exists>written taken. copy_inv streams w s written taken"
  using assms(1)
proof (induction "copy_init streams w" s rule: copy_run.induct)
  case refl
  then show ?case using copy_init_inv by blast
next
  case (step s' a s'')
  then obtain written taken where inv: "copy_inv streams w s' written taken" by blast
  have "length (cp_in s') = length streams" "\<not> cp_panic s'" using inv by (simp_all add: copy_inv_def reader_inv_def)
  with step.hyps(3) show ?case
    using reader_step_inv [OF inv _ _ assms(2)] writer_step_inv [OF inv _ assms(3)] main_step_inv [OF inv]
    by (cases a) (fastforce simp: copy_step_def split: if_splits)+
qed

lemma copy_inv_returned:
  assumes "copy_inv streams w s written taken" "cp_main s = MReturned a b e"
  shows "e = None" "interleaved written (map fst streams)" "a = of_nat (length written)" "b = of_nat (length written)"
    "cp_writer s = w\<lparr>w_data := w_data w @ concat (map frame written)\<rparr>"
proof -
  have n: "\<forall>pc\<in>set (cp_rpc s). pc = RExit" using assms count_eq_length [of "cp_rpc s" RExit]
    by (simp add: copy_inv_def reader_inv_def main_inv_def)
  then have "rpc_count s RCount = 0" by (auto simp: count_eq_zero_iff)
  moreover have "cp_wpc s = WExit" "cp_writerChan s = []"
    using assms by (auto simp: copy_inv_def writer_inv_def main_inv_def)
  moreover have "taken = map fst streams"
  proof (rule nth_equalityI)
    fix i assume "i < length taken"
    then have "i < length streams" "cp_rpc s ! i = RExit" using assms(1) n by (auto simp: copy_inv_def reader_inv_def)
    then show "taken ! i = map fst streams ! i" using assms(1) unfolding copy_inv_def reader_inv_def
      by (metis append_Nil2 insert_iff nth_map)
  qed (use assms(1) in \<open>simp add: copy_inv_def reader_inv_def\<close>)
  ultimately show "e = None" "interleaved written (map fst streams)" "a = of_nat (length written)" "b = of_nat (length written)"
    "cp_writer s = w\<lparr>w_data := w_data w @ concat (map frame written)\<rparr>"
    using assms by (simp_all add: copy_inv_defs del: count_eq_zero_iff count_mset_0_iff)
qed


section \<open>CopyMultipleReaders: termination and progress\<close>

definition rpc_weight :: "reader_pc \<Rightarrow> nat" where
  "rpc_weight pc = (case pc of RLoop \<Rightarrow> 2 | RCount \<Rightarrow> 3 | RErr \<Rightarrow> 1 | RExit \<Rightarrow> 0)"

definition wpc_weight :: "writer_pc \<Rightarrow> nat" where
  "wpc_weight pc = (case pc of WLoop \<Rightarrow> 2 | WCount \<Rightarrow> 3 | WErr e \<Rightarrow> 1 | WExit \<Rightarrow> 0)"

definition main_weight :: "main_pc \<Rightarrow> nat" where
  "main_weight pc = (case pc of MRecv k \<Rightarrow> k + 3 | MClose \<Rightarrow> 2 | MWait \<Rightarrow> 1 | MReturned a b e \<Rightarrow> 0)"

text \<open>Every message costs at most five actions of its reader and three of the writer.\<close>

definition copy_measure :: "copy_state \<Rightarrow> nat" where
  "copy_measure s = (\<Sum>i<length (cp_in s). 5 * length (fst (cp_in s ! i)) + rpc_weight (cp_rpc s ! i)) +
     3 * length (cp_writerChan s) + wpc_weight (cp_wpc s) + main_weight (cp_main s) + (if cp_panic s then 0 else 1)"

lemma sum_update:
  fixes f g :: "nat \<Rightarrow> nat"
  assumes "i < n" "\<And>j. j < n \<Longrightarrow> j \<noteq> i \<Longrightarrow> g j = f j"
  shows "(\<Sum>j<n. g j) + f i = (\<Sum>j<n. f j) + g i"
proof -
  have "(\<Sum>j<n. g j) = g i + (\<Sum>j\<in>{..<n} - {i}. g j)" "(\<Sum>j<n. f j) = f i + (\<Sum>j\<in>{..<n} - {i}. f j)"
    using assms(1) by (simp_all add: sum.remove)
  moreover have "(\<Sum>j\<in>{..<n} - {i}. g j) = (\<Sum>j\<in>{..<n} - {i}. f j)" using assms(2) by (intro sum.cong) auto
  ultimately show ?thesis by simp
qed

lemma reader_step_decreases:
  assumes "length (cp_rpc s) = length (cp_in s)" "i < length (cp_in s)" "\<not> cp_panic s" "reader_step i s = Some s'"
  shows "copy_measure s' < copy_measure s" "length (cp_rpc s') = length (cp_in s')"
proof -
  let ?g = "\<lambda>s i. 5 * length (fst (cp_in s ! i)) + rpc_weight (cp_rpc s ! i)"
  have l: "length (cp_in s') = length (cp_in s)" "length (cp_rpc s') = length (cp_rpc s)"
    and o: "\<And>j. j \<noteq> i \<Longrightarrow> ?g s' j = ?g s j"
    using assms(4) by (auto simp: reader_step_def Let_def send_err_def split: reader_pc.splits prod.splits list.splits if_splits)
  have d: "?g s' i + 3 * length (cp_writerChan s') + (if cp_panic s' then 0 else 1) <
      ?g s i + 3 * length (cp_writerChan s) + 1" and same: "cp_wpc s' = cp_wpc s" "cp_main s' = cp_main s"
    using assms by (auto simp: reader_step_def Let_def send_err_def rpc_weight_def
        split: reader_pc.splits prod.splits list.splits if_splits)
  have "(\<Sum>j<length (cp_in s). ?g s' j) + ?g s i = (\<Sum>j<length (cp_in s). ?g s j) + ?g s' i"
    by (rule sum_update [OF assms(2) o])
  with d show "copy_measure s' < copy_measure s" unfolding copy_measure_def l same using assms(3) by simp
  show "length (cp_rpc s') = length (cp_in s')" using l assms(1) by simp
qed

lemma writer_step_decreases:
  assumes "\<not> cp_panic s" "writer_step s = Some s'"
  shows "copy_measure s' < copy_measure s \<and> cp_rpc s' = cp_rpc s \<and> cp_in s' = cp_in s"
proof (cases "cp_wpc s")
  case WLoop
  then show ?thesis
  proof (cases "cp_writerChan s")
    case (Cons data ms)
    obtain w e where we: "WriteMessage data (cp_writer s) = (w, e)" by force
    show ?thesis using assms WLoop Cons we
      by (cases e) (auto simp: writer_step_def copy_measure_def wpc_weight_def)
  qed (use assms in \<open>auto simp: writer_step_def copy_measure_def wpc_weight_def split: if_splits\<close>)
qed (use assms in \<open>auto simp: writer_step_def send_err_def copy_measure_def wpc_weight_def split: if_splits\<close>)

lemma main_step_decreases:
  assumes "\<not> cp_panic s" "main_step s = Some s'"
  shows "copy_measure s' < copy_measure s \<and> cp_rpc s' = cp_rpc s \<and> cp_in s' = cp_in s"
proof (cases "cp_main s")
  case (MRecv k)
  then show ?thesis using assms
    by (cases k; cases "cp_errChan s") (auto simp: main_step_def copy_measure_def main_weight_def split: if_splits)
qed (use assms in \<open>auto simp: main_step_def copy_measure_def main_weight_def split: if_splits\<close>)

lemma copy_step_decreases:
  assumes "copy_step a s = Some s'" "length (cp_rpc s) = length (cp_in s)"
  shows "copy_measure s' < copy_measure s \<and> length (cp_rpc s') = length (cp_in s')"
  using assms reader_step_decreases [OF assms(2)] writer_step_decreases [of s s'] main_step_decreases [of s s']
  by (cases a) (auto simp: copy_step_def split: if_splits)

lemma copy_run_lengths: "copy_run (copy_init streams w) s \<Longrightarrow> length (cp_rpc s) = length (cp_in s)"
  by (induction "copy_init streams w" s rule: copy_run.induct) (auto simp: copy_init_def dest: copy_step_decreases)

lemma writer_progress:
  assumes "copy_inv streams w s written taken" "w_cap w = None" "cp_writerChan s \<noteq> [] \<or> (cp_writerChan_closed s \<and> cp_wpc s \<noteq> WExit)"
  shows "copy_step Writer s \<noteq> None"
proof -
  have "w_cap (cp_writer s) = None" "cp_wpc s = WExit \<longrightarrow> cp_writerChan s = []" "\<forall>e. cp_wpc s \<noteq> WErr e" "\<not> cp_panic s"
    using assms(1,2) by (auto simp: copy_inv_def writer_inv_def)
  with assms(3) show ?thesis
    by (cases "cp_wpc s"; cases "cp_writerChan s") (auto simp: copy_step_def writer_step_def)
qed

lemma copy_progress:
  assumes inv: "copy_inv streams w s written taken" and w: "w_cap w = None" and stuck: "\<forall>a. copy_step a s = None"
  shows "\<exists>a b. cp_main s = MReturned a b None"
proof (cases "cp_main s")
  case (MRecv k)
  have np: "\<not> cp_panic s" and len: "length (cp_in s) = length streams" "length (cp_rpc s) = length streams"
    using inv by (simp_all add: copy_inv_def reader_inv_def)
  have "main_step s = None" using stuck [rule_format, of Main] np by (simp add: copy_step_def)
  with MRecv obtain k' where k: "k = Suc k'" "cp_errChan s = []"
    by (auto simp: main_step_def split: nat.splits list.splits if_splits)
  with inv MRecv have "rpc_count s RExit \<noteq> length (cp_rpc s)" "\<not> cp_writerChan_closed s" "\<not> errChan_closed s"
    by (simp_all add: copy_inv_def main_inv_def reader_inv_def errChan_closed_def)
  then obtain i where i: "i < length streams" "cp_rpc s ! i \<noteq> RExit"
    using count_eq_length [of "cp_rpc s" RExit] len(2) by (metis in_set_conv_nth)
  have "reader_step i s = None" using stuck [rule_format, of "Reader i"] np i(1) len by (simp add: copy_step_def)
  with i k \<open>\<not> cp_writerChan_closed s\<close> \<open>\<not> errChan_closed s\<close> len have "cp_writerChan s \<noteq> []"
    by (cases "cp_rpc s ! i"; cases "cp_in s ! i"; cases "fst (cp_in s ! i)")
      (auto simp: reader_step_def send_err_def split: if_splits)
  then show ?thesis using writer_progress [OF inv w] stuck by simp
next
  case MClose
  then show ?thesis using inv stuck [rule_format, of Main] by (simp add: copy_step_def main_step_def copy_inv_def)
next
  case MWait
  with inv have c: "cp_writerChan_closed s" "\<not> cp_panic s" "\<forall>pc\<in>set (cp_rpc s). pc = RExit"
    using count_eq_length [of "cp_rpc s" RExit] by (auto simp: copy_inv_def main_inv_def reader_inv_def)
  have "cp_wpc s = WExit" using writer_progress [OF inv w] stuck c(1) by auto
  then show ?thesis using MWait c stuck [rule_format, of Main] by (simp add: copy_step_def main_step_def)
next
  case (MReturned a b e)
  with inv show ?thesis by (simp add: copy_inv_def main_inv_def)
qed

lemma copy_run_trans: "copy_run t u \<Longrightarrow> copy_run s t \<Longrightarrow> copy_run s u"
  by (induction rule: copy_run.induct) (auto intro: copy_run.step)

lemma copy_run_returns:
  assumes "copy_run (copy_init streams w) s" "\<forall>x\<in>set streams. clean_end (snd x)" "w_cap w = None"
  shows "\<exists>s' inCounter outCounter. copy_run s s' \<and> cp_main s' = MReturned inCounter outCounter None"
  using assms(1)
proof (induction "copy_measure s" arbitrary: s rule: less_induct)
  case less
  show ?case
  proof (cases "\<exists>a s1. copy_step a s = Some s1")
    case True
    then obtain a s1 where s1: "copy_step a s = Some s1" by blast
    have "copy_measure s1 < copy_measure s" using copy_step_decreases [OF s1 copy_run_lengths [OF less.prems]] by blast
    from less.hyps [OF this copy_run.step [OF less.prems s1]] show ?thesis
      using copy_run_trans [OF _ copy_run.step [OF copy_run.refl s1]] by blast
  next
    case False
    from copy_run_inv [OF less.prems assms(2,3)] obtain written taken where "copy_inv streams w s written taken" by blast
    then show ?thesis using copy_progress [OF _ assms(3)] False copy_run.refl by (metis option.exhaust)
  qed
qed

text \<open>
  C6: \<open>CopyMultipleReaders\<close> always returns when the readers end cleanly and the writer accepts all data: every
  action of a goroutine decreases a measure, so there is no infinite execution, an execution in which no
  goroutine can act any more has returned without an error (there is no deadlock on the two bounded channels),
  and every execution continues to such an end.
\<close>

theorem CopyMultipleReaders_returns:
  assumes "copy_run (copy_init streams w) s" "\<forall>x\<in>set streams. clean_end (snd x)" "w_cap w = None"
  shows "(\<forall>a s'. copy_step a s = Some s' \<longrightarrow> copy_measure s' < copy_measure s) \<and>
    ((\<forall>a. copy_step a s = None) \<longrightarrow> (\<exists>inCounter outCounter. cp_main s = MReturned inCounter outCounter None)) \<and>
    (\<exists>s' inCounter outCounter. copy_run s s' \<and> cp_main s' = MReturned inCounter outCounter None)"
proof -
  from copy_run_inv [OF assms] obtain written taken where inv: "copy_inv streams w s written taken" by blast
  show ?thesis
    using copy_step_decreases [OF _ copy_run_lengths [OF assms(1)]] copy_progress [OF inv assms(3)] copy_run_returns [OF assms]
    by blast
qed

section \<open>CopyMultipleReaders: concrete executions\<close>

fun copy_exec :: "actor list \<Rightarrow> copy_state \<Rightarrow> copy_state option" where
  "copy_exec [] s = Some s"
| "copy_exec (a # as) s = (case copy_step a s of None \<Rightarrow> None | Some s' \<Rightarrow> copy_exec as s')"

lemma copy_exec_run: "copy_run s0 s \<Longrightarrow> copy_exec as s = Some s' \<Longrightarrow> copy_run s0 s'"
  by (induction as arbitrary: s) (auto split: option.splits intro: copy_run.step)

lemmas copy_exec_run_init = copy_exec_run [OF copy_run.refl]

lemmas copy_eval = copy_step_def reader_step_def writer_step_def main_step_def send_err_def errChan_closed_def copy_init_def

lemma copy_one_message:
  "copy_exec [Reader 0, Reader 0, Reader 0, Reader 0, Main, Main, Main, Writer, Writer, Writer, Main]
     (copy_init [([[1]], None)] \<lparr>w_data = [], w_cap = None\<rparr>) =
   Some \<lparr>cp_in = [([], None)], cp_rpc = [RExit], cp_writerChan = [], cp_writerChan_closed = True, cp_wpc = WExit,
     cp_writer = \<lparr>w_data = frame [1], w_cap = None\<rparr>, cp_errChan = [], cp_inCounter = 1, cp_outCounter = 1,
     cp_main = MReturned 1 1 None, cp_panic = False\<rparr>"
  by (simp add: copy_eval)


theorem CopyMultipleReaders_returns_witness:
  "\<exists>s' inCounter outCounter. copy_run (copy_init [([[1]], None)] \<lparr>w_data = [], w_cap = None\<rparr>) s' \<and>
     cp_main s' = MReturned inCounter outCounter None"
  using CopyMultipleReaders_returns [OF copy_run.refl, of "[([[1]], None)]" "\<lparr>w_data = [], w_cap = None\<rparr>"]
  by (simp add: clean_end_def)

text \<open>
  A write error that comes after all readers have finished is lost: \<open>CopyMultipleReaders\<close> can return without
  an error although the only message was not written.
\<close>

theorem CopyMultipleReaders_swallows_error:
  "CopyMultipleReaders [([[1]], None)] \<lparr>w_data = [], w_cap = Some 0\<rparr> \<lparr>w_data = [], w_cap = Some 0\<rparr> 1 0 None"
proof -
  have "copy_exec [Reader 0, Reader 0, Reader 0, Reader 0, Main, Main, Main, Writer, Writer, Main]
     (copy_init [([[1]], None)] \<lparr>w_data = [], w_cap = Some 0\<rparr>) \<noteq> None \<and>
    (\<forall>s. copy_exec [Reader 0, Reader 0, Reader 0, Reader 0, Main, Main, Main, Writer, Writer, Main]
     (copy_init [([[1]], None)] \<lparr>w_data = [], w_cap = Some 0\<rparr>) = Some s \<longrightarrow>
     cp_main s = MReturned 1 0 None \<and> cp_writer s = \<lparr>w_data = [], w_cap = Some 0\<rparr>)"
    by (simp add: copy_eval WriteMessage_def io_write_def)
  then show ?thesis unfolding CopyMultipleReaders_def using copy_exec_run_init by blast
qed

text \<open>
  When a reader fails, \<open>CopyMultipleReaders\<close> returns and closes its error channel while the other readers
  still run: the next of them to finish sends on a closed channel and panics.
\<close>

theorem CopyMultipleReaders_panics:
  "\<exists>s. copy_run (copy_init [([], Some ErrUnexpectedEOF), ([], None)] w) s \<and> cp_panic s"
proof -
  have "copy_exec [Reader 0, Reader 0, Main, Reader 1, Reader 1] (copy_init [([], Some ErrUnexpectedEOF), ([], None)] w) \<noteq> None \<and>
    (\<forall>s. copy_exec [Reader 0, Reader 0, Main, Reader 1, Reader 1] (copy_init [([], Some ErrUnexpectedEOF), ([], None)] w) = Some s \<longrightarrow>
      cp_panic s)"
    by (simp add: copy_eval)
  then show ?thesis using copy_exec_run_init by blast
qed

theorem DoBroadcast_correct_witness:
  "DoBroadcast \<lparr>r_data = frame [1] @ frame [2], r_end = EOF\<rparr> ([fst io_start, fst io_start], snd io_start) =
    Inr (([\<lparr>w_data = frame [1] @ frame [2], w_cap = None\<rparr>, \<lparr>w_data = frame [1] @ frame [2], w_cap = None\<rparr>],
      \<lparr>InputCounter = 2, OutputCounter = 4\<rparr>), None)"
  using DoBroadcast_correct [of "[[1], [2]]" "[fst io_start, fst io_start]" "snd io_start"] by (simp add: io_start_def)

section \<open>Union\<close>

lemma interleaved_Cons:
  "interleaved ys xss \<Longrightarrow> i < length xss \<Longrightarrow> interleaved (x # ys) (xss[i := x # xss ! i])"
proof (induction rule: interleaved.induct)
  case (interleaved_Nil xss)
  then have "xss ! i = []" by simp
  then have "xss[i := x # xss ! i] = xss[i := xss ! i @ [x]]" by simp
  moreover have "interleaved ([] @ [x]) (xss[i := xss ! i @ [x]])"
    using interleaved_Nil by (intro interleaved.intros) auto
  ultimately show ?case by simp
next
  case (interleaved_snoc ys xss j y)
  let ?zs = "xss[i := x # xss ! i]"
  have "interleaved ((x # ys) @ [y]) (?zs[j := ?zs ! j @ [y]])"
    using interleaved_snoc by (intro interleaved.interleaved_snoc) auto
  moreover have "?zs[j := ?zs ! j @ [y]] = (xss[j := xss ! j @ [y]])[i := x # xss[j := xss ! j @ [y]] ! i]"
    using interleaved_snoc.hyps(2) interleaved_snoc.prems by (cases "i = j") (auto simp: list_update_swap)
  ultimately show ?case by simp
qed

lemma union_run_ok:
  assumes "union_run ops par rowss s s'" "\<forall>rows\<in>set rowss. \<forall>r\<in>set rows. wire_ok ops r" "w_cap (fst s) = None"
  shows "\<exists>rows. s' = io_after ops (length rows) rows s \<and> interleaved rows rowss \<and> (\<not> par \<longrightarrow> rows = concat rowss)"
  using assms
proof (induction rule: union_run.induct)
  case (finished rowss ops par s)
  then show ?case by (intro exI [of _ "[]"]) (auto intro: interleaved_Nil)
next
  case (next_row i rowss row rows par ops s s')
  have row: "wire_ok ops row" using next_row by (metis list.set_intros(1) nth_mem)
  then have u: "union_row ops row s = io_after ops 1 [row] s"
    using next_row.prems(2) by (cases s) (simp add: union_row_def io_after_def out_rows_def in_rows_def)
  have "\<forall>x\<in>set (rowss[i := rows]). \<forall>r\<in>set x. wire_ok ops r"
    using next_row.prems(1) next_row.hyps(1,2)
    by (metis list.set_intros(2) insertE nth_mem set_update_subset_insert subsetD)
  then obtain outs where outs: "s' = io_after ops (length outs) outs (union_row ops row s)"
    "interleaved outs (rowss[i := rows])" "\<not> par \<longrightarrow> outs = concat (rowss[i := rows])"
    using next_row.IH next_row.prems(2) u by (auto simp: io_after_def)
  have "rowss[i := row # rows] = rowss" using next_row.hyps(1,2) by (metis list_update_id)
  then have "interleaved (row # outs) rowss"
    using interleaved_Cons [OF outs(2), of i row] next_row.hyps(1) by simp
  moreover have "row # outs = concat rowss" if "\<not> par"
  proof -
    have e: "concat (take i rowss) = []" using that next_row.hyps(1,3) by (auto simp: in_set_conv_nth)
    have "concat rowss = concat (take i rowss) @ row # rows @ concat (drop (Suc i) rowss)"
      using next_row.hyps(1,2) by (metis append_Cons concat.simps(2) concat_append id_take_nth_drop)
    then show ?thesis using outs(3) that next_row.hyps(1) unfolding e by (simp add: upd_conv_take_nth_drop e del: concat_eq_Nil_conv)
  qed
  moreover have "s' = io_after ops (length (row # outs)) (row # outs) s"
    using outs(1) u by (simp add: io_after_def out_rows_def in_rows_def algebra_simps)
  ultimately show ?case by blast
qed

lemma delivered_rows_ok: "\<forall>r\<in>set rows. wire_ok ops r \<Longrightarrow> delivered_rows ops (rows_reader ops rows) = Inr rows"
proof -
  assume w: "\<forall>r\<in>set rows. wire_ok ops r"
  have "\<exists>z. fold_msgs (\<lambda>row rows. Inr (rows @ [row], None)) rows [] = Inr (z, None) \<and> z = rows"
    by (rule fold_msgs_inv) auto
  then show ?thesis by (simp add: delivered_rows_def ProcessRow_plain [OF w])
qed



section \<open>Round robin\<close>

definition put_message :: "bytes \<Rightarrow> gwriter \<Rightarrow> gwriter" where
  "put_message m w = w\<lparr>w_data := w_data w @ frame m\<rparr>"

fun rr_spread :: "nat \<Rightarrow> bytes list \<Rightarrow> gwriter list \<Rightarrow> gwriter list" where
  "rr_spread c [] ws = ws"
| "rr_spread c (m # ms) ws = (let x = Suc c mod length ws in rr_spread (Suc c) ms (ws[x := put_message m (ws ! x)]))"

lemma rr_message:
  assumes "Suc c < 2 ^ 31" "ws \<noteq> []" "\<forall>w\<in>set ws. w_cap w = None"
  shows "DoRoundRobin (0 # 0 # 0 # is) \<lparr>rr_in = [m # ms], rr_pc = [RRLoop], rr_count = of_nat c, rr_writers = ws, rr_stats = st\<rparr> =
    DoRoundRobin is \<lparr>rr_in = [ms], rr_pc = [RRLoop], rr_count = of_nat (Suc c),
      rr_writers = (let x = Suc c mod length ws in ws[x := put_message m (ws ! x)]), rr_stats = count_out (count_in st)\<rparr>"
proof -
  have "sint (of_nat (Suc c) :: 32 word) = int (Suc c)" by (rule sint_length) (use assms in simp)
  then have s: "sint (1 + word_of_nat c :: 32 word) = int (Suc c)" by simp
  let ?x = "Suc c mod length ws"
  have x: "?x < length ws" using assms(2) by simp
  then have cap: "w_cap (ws ! ?x) = None" using assms(3) by simp
  have "go_mod (int (Suc c)) (int (length ws)) = Inr (int ?x)"
    using assms(2) by (simp add: go_mod_def zmod_int)
  moreover have "go_index ws (int ?x) = Inr (ws ! ?x)" using x by simp
  ultimately show ?thesis using s x cap
    by (simp add: rr_step_def Let_def add.commute io_write_def put_message_def frame_def)
qed

lemma rr_single:
  assumes "c + length ms < 2 ^ 31" "ws \<noteq> []" "\<forall>w\<in>set ws. w_cap w = None"
  shows "DoRoundRobin (replicate (3 * length ms + 1) 0)
      \<lparr>rr_in = [ms], rr_pc = [RRLoop], rr_count = of_nat c, rr_writers = ws, rr_stats = st\<rparr> =
    Inr \<lparr>rr_in = [[]], rr_pc = [RRDone], rr_count = of_nat (c + length ms), rr_writers = rr_spread c ms ws,
      rr_stats = st\<lparr>InputCounter := InputCounter st + of_nat (length ms), OutputCounter := OutputCounter st + of_nat (length ms)\<rparr>\<rparr>"
  using assms
proof (induction ms arbitrary: c ws st)
  case Nil
  then show ?case by (simp add: rr_step_def)
next
  case (Cons m ms)
  let ?ws = "let x = Suc c mod length ws in ws[x := put_message m (ws ! x)]"
  have ws: "?ws \<noteq> []" "\<forall>w\<in>set ?ws. w_cap w = None" using Cons.prems(2,3)
    by (auto simp: Let_def put_message_def dest!: subsetD [OF set_update_subset_insert])
  have r: "replicate (3 * length (m # ms) + 1) 0 = 0 # 0 # 0 # replicate (3 * length ms + 1) 0"
    by (simp add: replicate_add eval_nat_numeral)
  have "rr_spread c (m # ms) ws = rr_spread (Suc c) ms ?ws" by (simp add: Let_def)
  moreover have "DoRoundRobin (replicate (3 * length (m # ms) + 1) 0)
      \<lparr>rr_in = [m # ms], rr_pc = [RRLoop], rr_count = of_nat c, rr_writers = ws, rr_stats = st\<rparr> =
    DoRoundRobin (replicate (3 * length ms + 1) 0) \<lparr>rr_in = [ms], rr_pc = [RRLoop], rr_count = of_nat (Suc c),
      rr_writers = ?ws, rr_stats = count_out (count_in st)\<rparr>"
    unfolding r by (rule rr_message) (use Cons.prems in simp_all)
  ultimately show ?case
    using Cons.IH [of "Suc c" ?ws "count_out (count_in st)", OF _ ws] Cons.prems(1) by (simp add: algebra_simps)
qed

lemma rr_spread_nth:
  "j < length ws \<Longrightarrow> w_data (rr_spread c ms ws ! j) = w_data (ws ! j) @
     concat (map (\<lambda>(k, m). frame m) (filter (\<lambda>(k, m). k mod length ws = j) (enumerate (Suc c) ms)))"
proof (induction ms arbitrary: c ws)
  case (Cons m ms)
  let ?x = "Suc c mod length ws"
  have "?x < length ws" using Cons.prems by (intro mod_less_divisor) linarith
  then show ?case using Cons.IH [of "ws[?x := put_message m (ws ! ?x)]" "Suc c"] Cons.prems
    by (auto simp: Let_def put_message_def nth_list_update)
qed simp

text \<open>
  With one reader round robin is fair and loses nothing: the \<open>k\<close>-th message goes, whole and in order, to the
  writer \<open>k mod n\<close>, for up to \<open>2 ^ 31 - 1\<close> messages.
\<close>

theorem DoRoundRobin_single:
  assumes "length ms < 2 ^ 31" "ws \<noteq> []" "\<forall>w\<in>set ws. w_cap w = None"
  shows "\<exists>s'. DoRoundRobin (replicate (3 * length ms + 1) 0) (rr_init [ms] ws st) = Inr s' \<and> rr_pc s' = [RRDone] \<and>
    (\<forall>j<length ws. w_data (rr_writers s' ! j) = w_data (ws ! j) @
       concat (map (\<lambda>(k, m). frame m) (filter (\<lambda>(k, m). k mod length ws = j) (enumerate 1 ms))))"
  using rr_single [of 0 ms ws st] assms rr_spread_nth [of _ ws 0 ms] by (simp add: rr_init_def)

theorem DoRoundRobin_single_witness:
  "\<exists>s'. DoRoundRobin (replicate 7 0) (rr_init [[[1], [2]]] [fst io_start, fst io_start] (snd io_start)) = Inr s' \<and>
    w_data (rr_writers s' ! 0) = frame [2] \<and> w_data (rr_writers s' ! 1) = frame [1]"
proof -
  have "\<forall>w\<in>set [fst io_start, fst io_start]. w_cap w = None" by simp
  from DoRoundRobin_single [of "[[1], [2]]", OF _ _ this, of "snd io_start"] obtain s' where
    "DoRoundRobin (replicate (3 * length [[1 :: 8 word], [2]] + 1) 0) (rr_init [[[1], [2]]] [fst io_start, fst io_start] (snd io_start)) = Inr s'"
    "\<forall>j<length [fst io_start, fst io_start]. w_data (rr_writers s' ! j) = w_data ([fst io_start, fst io_start] ! j) @
       concat (map (\<lambda>(k, m). frame m) (filter (\<lambda>(k, m). k mod length [fst io_start, fst io_start] = j) (enumerate 1 [[1], [2]])))"
    by auto
  then show ?thesis by (intro exI [of _ s']) (simp add: io_start_def numeral_2_eq_2)
qed

text \<open>
  With two readers the writes of one goroutine fall between the two writes of the other: the stream can end
  up with both lengths before both contents, which is not a sequence of the messages.
\<close>

theorem DoRoundRobin_corrupts:
  "\<exists>s'. DoRoundRobin [0, 1, 0, 1, 0, 1, 0, 1] (rr_init [[[1]], [[2]]] [\<lparr>w_data = [], w_cap = None\<rparr>] st) = Inr s' \<and>
    rr_pc s' = [RRDone, RRDone] \<and> w_data (rr_writers s' ! 0) = le32 1 @ le32 1 @ [1, 2] \<and>
    w_data (rr_writers s' ! 0) \<notin> {frame [1] @ frame [2], frame [2] @ frame [1]}"
  by (simp add: rr_init_def rr_step_def go_mod_def go_index_def io_write_def frame_def le32_def upt_rec)

text \<open>
  After \<open>2 ^ 31 - 1\<close> messages the 32-bit counter turns negative, and so does the index: with three writers
  the next message makes the goroutine panic.
\<close>

theorem DoRoundRobin_overflow_panics:
  "DoRoundRobin [0, 0] \<lparr>rr_in = [[m]], rr_pc = [RRLoop], rr_count = 0x7FFFFFFF, rr_writers = [w1, w2, w3], rr_stats = st\<rparr> =
    Inl PanicIndex"
  by (simp add: rr_step_def go_mod_def go_index_def)

end
