(* ===== verification/Instructions.thy ===== *)
theory Instructions
  imports JoinInstructions ShuffleInstructions
begin

text \<open>
  The instructions as the driver and the executors see them (\<^verbatim>\<open>instruction/*.go\<close>): how each is named, how
  much memory it asks for, how it is serialized to a \<^verbatim>\<open>pb.Instruction\<close> (\<^verbatim>\<open>pb/gleam.pb.go\<close>), how the registry
  finds it again from the serialized form, and which of the functions of the previous theories it runs.
\<close>

section \<open>The protocol buffer messages\<close>

record pb_CoGroupPartitionedSorted =
  pcg_Indexes :: "int32 list"

record pb_JoinPartitionedSorted =
  pjo_Indexes :: "int32 list"
  pjo_IsLeftOuterJoin :: "bool"
  pjo_IsRightOuterJoin :: "bool"

record pb_LocalDistinct =
  pld_OrderBys :: "pb_OrderBy list"

record pb_LocalGroupBySorted =
  plg_Indexes :: "int32 list"

record pb_LocalHashAndJoinWith =
  plh_Indexes :: "int32 list"

record pb_LocalLimit =
  pll_N :: "int32"
  pll_Offset :: "int32"

record pb_LocalSort =
  pls_OrderBys :: "pb_OrderBy list"

record pb_LocalTop =
  plt_N :: "int32"
  plt_OrderBys :: "pb_OrderBy list"

record pb_MergeSortedTo =
  pms_OrderBys :: "pb_OrderBy list"

record pb_ScatterPartitions =
  psc_Indexes :: "int32 list"

record pb_PipeAsArgs =
  ppa_Code :: "bytes"

record pb_Select =
  pse_KeyIndexes :: "int32 list"
  pse_ValueIndexes :: "int32 list"

record pb_Union =
  pun_IsParallel :: "bool"

record pb_Script =
  psp_IsPipe :: bool
  psp_Path :: bytes
  psp_Args :: "bytes list"
  psp_Env :: "bytes list"

record pb_DatasetShardLocation =
  pdl_Name :: string
  pdl_Host :: string
  pdl_Port :: int32
  pdl_OnDisk :: bool

record pb_Instruction =
  pi_StepId :: int32
  pi_TaskId :: int32
  pi_MemoryInMB :: int32
  pi_InputShardLocations :: "pb_DatasetShardLocation list"
  pi_OutputShardLocations :: "pb_DatasetShardLocation list"
  pi_Select :: "pb_Select option"
  pi_JoinPartitionedSorted :: "pb_JoinPartitionedSorted option"
  pi_CoGroupPartitionedSorted :: "pb_CoGroupPartitionedSorted option"
  pi_PipeAsArgs :: "pb_PipeAsArgs option"
  pi_ScatterPartitions :: "pb_ScatterPartitions option"
  pi_CollectPartitions :: "unit option"
  pi_InputSplitReader :: "bytes option"
  pi_RoundRobin :: "unit option"
  pi_LocalTop :: "pb_LocalTop option"
  pi_Broadcast :: "unit option"
  pi_LocalHashAndJoinWith :: "pb_LocalHashAndJoinWith option"
  pi_Script :: "pb_Script option"
  pi_LocalSort :: "pb_LocalSort option"
  pi_MergeSortedTo :: "pb_MergeSortedTo option"
  pi_MergeTo :: "unit option"
  pi_LocalDistinct :: "pb_LocalDistinct option"
  pi_LocalLimit :: "pb_LocalLimit option"
  pi_LocalGroupBySorted :: "pb_LocalGroupBySorted option"
  pi_Union :: "pb_Union option"

definition empty_command :: pb_Instruction where
  "empty_command = \<lparr>pi_StepId = 0, pi_TaskId = 0, pi_MemoryInMB = 0, pi_InputShardLocations = [], pi_OutputShardLocations = [],
     pi_Select = None, pi_JoinPartitionedSorted = None, pi_CoGroupPartitionedSorted = None, pi_PipeAsArgs = None, pi_ScatterPartitions = None, pi_CollectPartitions = None, pi_InputSplitReader = None, pi_RoundRobin = None, pi_LocalTop = None, pi_Broadcast = None, pi_LocalHashAndJoinWith = None, pi_Script = None, pi_LocalSort = None, pi_MergeSortedTo = None, pi_MergeTo = None, pi_LocalDistinct = None, pi_LocalLimit = None, pi_LocalGroupBySorted = None, pi_Union = None\<rparr>"

section \<open>The instructions\<close>

datatype Instruction =
    I_Broadcast
  | I_CoGroupPartitionedSorted "int list"
  | I_JoinPartitionedSorted "bool" "bool" "int list"
  | I_LocalDistinct "OrderBy list"
  | I_LocalGroupBySorted "int list"
  | I_LocalHashAndJoinWith "int list"
  | I_LocalLimit "int" "int"
  | I_LocalSort "OrderBy list" "int"
  | I_LocalTop "int" "OrderBy list"
  | I_MergeSortedTo "OrderBy list"
  | I_MergeTo
  | I_CollectPartitions
  | I_ScatterPartitions "int list"
  | I_PipeAsArgs "bytes"
  | I_RoundRobin
  | I_Select "int list" "int list"
  | I_Union "bool"

record instr_env =
  env_ops :: msgp_ops
  env_Hash :: "bytes \<Rightarrow> 32 word"
  env_reached :: "bytes \<Rightarrow> bytes"
  env_sort :: "(row \<Rightarrow> row \<Rightarrow> bool go) \<Rightarrow> row list \<Rightarrow> row list go"
  env_Execute :: "bytes \<Rightarrow> io_state \<Rightarrow> io_state"

text \<open>
  What a function does to its writers and counters: a relation between the readers, the state before
  and the result, since some instructions run concurrently. \<open>with_writer0\<close> passes \<^verbatim>\<open>writers[0]\<close>.
\<close>

type_synonym instr_fun = "greader list \<Rightarrow> shuffle_state \<Rightarrow> (shuffle_state \<times> gerror option) go \<Rightarrow> bool"

definition with_writer0 :: "(io_state \<Rightarrow> io_result) \<Rightarrow> shuffle_state \<Rightarrow> (shuffle_state \<times> gerror option) go" where
  "with_writer0 f = (\<lambda>(writers, stats).
     gbind (go_index writers 0) (\<lambda>w.
     gbind (f (w, stats)) (\<lambda>((w', stats'), err). Inr ((writers[0 := w'], stats'), err))))"

text \<open>
  Rounding to \<open>p\<close> significant bits, for integers of at most \<open>p + k\<close> bits: the conversions to \<^verbatim>\<open>float32\<close>
  and \<^verbatim>\<open>float64\<close> and the product of two such numbers. The constant 1.1 is \<open>9227469 / 2 ^ 23\<close> as a
  \<^verbatim>\<open>float32\<close>. Converting a float to \<^verbatim>\<open>int64\<close> truncates; out of range the processor (amd64) gives
  the smallest integer.
\<close>

fun round_bits :: "nat \<Rightarrow> nat \<Rightarrow> int \<Rightarrow> int" where
  "round_bits p 0 n = n"
| "round_bits p (Suc k) n =
     (if \<bar>n\<bar> < 2 ^ (p + k) then round_bits p k n else round_shift (Suc k) n * 2 ^ Suc k)"

definition int64_of_scaled :: "nat \<Rightarrow> int \<Rightarrow> int64" where
  "int64_of_scaled k n =
     (let q = sgn n * (\<bar>n\<bar> div 2 ^ k) in
      if - (2 ^ 63) \<le> q \<and> q < 2 ^ 63 then word_of_int q else 0x8000000000000000)"

definition joinInts :: "int list \<Rightarrow> string \<Rightarrow> string" where
  "joinInts a sep = (case map Itoa a of [] \<Rightarrow> [] | x # xs \<Rightarrow> x @ concat (map (\<lambda>y. sep @ y) xs))"

section \<open>PipeAsArgs\<close>

text \<open>
  \<^verbatim>\<open>strings.Replace(s, old, new, -1)\<close> for a non-empty \<open>old\<close>. The effect of running the command on the writer
  and the counters is the parameter \<open>Execute\<close>.
\<close>

function strings_Replace :: "bytes \<Rightarrow> bytes \<Rightarrow> bytes \<Rightarrow> bytes" where
  "strings_Replace s old new =
     (if s = [] \<or> old = [] then s
      else if take (length old) s = old then new @ strings_Replace (drop (length old) s) old new
      else hd s # strings_Replace (tl s) old new)"
  by pat_completeness auto
termination
  by (relation "measure (\<lambda>(s, old, new). length s)") auto

declare strings_Replace.simps [simp del]

definition pipe_arg :: "gval \<Rightarrow> bytes go" where
  "pipe_arg part =
     (case part of
        VString b \<Rightarrow> Inr b
      | VBytes b \<Rightarrow> Inr b
      | VUint64 n \<Rightarrow> Inr (map of_nat (decimal (unat n)))
      | _ \<Rightarrow> Inl PanicTypeAssert)"

fun pipe_code :: "nat \<Rightarrow> gval list \<Rightarrow> bytes \<Rightarrow> bytes go" where
  "pipe_code i [] actualCode = Inr actualCode"
| "pipe_code i (part # parts) actualCode =
     gbind (pipe_arg part) (\<lambda>arg.
       pipe_code (Suc i) parts (strings_Replace actualCode (36 # map of_nat (decimal i)) arg))"

definition DoPipeAsArgs :: "msgp_ops \<Rightarrow> (bytes \<Rightarrow> io_state \<Rightarrow> io_state) \<Rightarrow> greader \<Rightarrow> bytes \<Rightarrow> io_state \<Rightarrow> io_result" where
  "DoPipeAsArgs ops Execute reader code s =
     ProcessRow ops reader [] (\<lambda>row (writer, stats).
       gbind (pipe_code 1 (row_K row @ row_V row) code) (\<lambda>actualCode.
         Inr (Execute actualCode (writer, count_in stats), None))) s"

section \<open>Methods and registration\<close>

subsection \<open>Broadcast\<close>

definition NewBroadcast :: "Instruction" where
  "NewBroadcast = I_Broadcast"

definition Broadcast_init :: "pb_Instruction \<Rightarrow> Instruction option" where
  "Broadcast_init m = (case pi_Broadcast m of Some _ \<Rightarrow> Some (NewBroadcast) | None \<Rightarrow> None)"

definition Broadcast_Name :: "string \<Rightarrow> string" where
  "Broadcast_Name pfx = pfx @ ''.Broadcast''"

definition Broadcast_Function :: "instr_env \<Rightarrow> instr_fun" where
  "Broadcast_Function env = (\<lambda>readers s res. res =
     gbind (go_index readers 0) (\<lambda>r. DoBroadcast r s))"

definition Broadcast_SerializeToCommand :: "pb_Instruction" where
  "Broadcast_SerializeToCommand = empty_command\<lparr>pi_Broadcast := Some ()\<rparr>"

definition Broadcast_GetMemoryCostInMB :: "int64 \<Rightarrow> int64" where
  "Broadcast_GetMemoryCostInMB partitionSize = 1"

subsection \<open>CoGroupPartitionedSorted\<close>

definition NewCoGroupPartitionedSorted :: "int list \<Rightarrow> Instruction" where
  "NewCoGroupPartitionedSorted indexes = I_CoGroupPartitionedSorted indexes"

definition CoGroupPartitionedSorted_init :: "pb_Instruction \<Rightarrow> Instruction option" where
  "CoGroupPartitionedSorted_init m = (case pi_CoGroupPartitionedSorted m of Some p \<Rightarrow> Some (NewCoGroupPartitionedSorted (toInts (pcg_Indexes p))) | None \<Rightarrow> None)"

definition CoGroupPartitionedSorted_Name :: "string \<Rightarrow> string" where
  "CoGroupPartitionedSorted_Name pfx = pfx @ ''.CoGroupPartitionedSorted''"

definition CoGroupPartitionedSorted_Function :: "instr_env \<Rightarrow> int list \<Rightarrow> instr_fun" where
  "CoGroupPartitionedSorted_Function env indexes = (\<lambda>readers s res. res =
     gbind (go_index readers 0) (\<lambda>l. gbind (go_index readers 1) (\<lambda>r.
       with_writer0 (DoCoGroupPartitionedSorted (env_ops env) l r indexes) s)))"

definition CoGroupPartitionedSorted_SerializeToCommand :: "int list \<Rightarrow> pb_Instruction" where
  "CoGroupPartitionedSorted_SerializeToCommand indexes = empty_command\<lparr>pi_CoGroupPartitionedSorted := Some \<lparr>pcg_Indexes = getIndexes indexes\<rparr>\<rparr>"

definition CoGroupPartitionedSorted_GetMemoryCostInMB :: "int64 \<Rightarrow> int64" where
  "CoGroupPartitionedSorted_GetMemoryCostInMB partitionSize = 5"

subsection \<open>JoinPartitionedSorted\<close>

definition NewJoinPartitionedSorted :: "bool \<Rightarrow> bool \<Rightarrow> int list \<Rightarrow> Instruction" where
  "NewJoinPartitionedSorted isLeftOuterJoin isRightOuterJoin indexes = I_JoinPartitionedSorted isLeftOuterJoin isRightOuterJoin indexes"

definition JoinPartitionedSorted_init :: "pb_Instruction \<Rightarrow> Instruction option" where
  "JoinPartitionedSorted_init m = (case pi_JoinPartitionedSorted m of Some p \<Rightarrow> Some (NewJoinPartitionedSorted (pjo_IsLeftOuterJoin p) (pjo_IsRightOuterJoin p) (toInts (pjo_Indexes p))) | None \<Rightarrow> None)"

definition JoinPartitionedSorted_Name :: "string \<Rightarrow> string" where
  "JoinPartitionedSorted_Name pfx = pfx @ ''.JoinPartitionedSorted''"

definition JoinPartitionedSorted_Function :: "instr_env \<Rightarrow> bool \<Rightarrow> bool \<Rightarrow> int list \<Rightarrow> instr_fun" where
  "JoinPartitionedSorted_Function env isLeftOuterJoin isRightOuterJoin indexes = (\<lambda>readers s res. res =
     gbind (go_index readers 0) (\<lambda>l. gbind (go_index readers 1) (\<lambda>r.
       with_writer0 (DoJoinPartitionedSorted (env_ops env) l r indexes isLeftOuterJoin isRightOuterJoin) s)))"

definition JoinPartitionedSorted_SerializeToCommand :: "bool \<Rightarrow> bool \<Rightarrow> int list \<Rightarrow> pb_Instruction" where
  "JoinPartitionedSorted_SerializeToCommand isLeftOuterJoin isRightOuterJoin indexes = empty_command\<lparr>pi_JoinPartitionedSorted := Some \<lparr>pjo_Indexes = getIndexes indexes, pjo_IsLeftOuterJoin = isLeftOuterJoin, pjo_IsRightOuterJoin = isRightOuterJoin\<rparr>\<rparr>"

definition JoinPartitionedSorted_GetMemoryCostInMB :: "int64 \<Rightarrow> int64" where
  "JoinPartitionedSorted_GetMemoryCostInMB partitionSize = 5"

subsection \<open>LocalDistinct\<close>

definition NewLocalDistinct :: "OrderBy list \<Rightarrow> Instruction" where
  "NewLocalDistinct orderBys = I_LocalDistinct orderBys"

definition LocalDistinct_init :: "pb_Instruction \<Rightarrow> Instruction option" where
  "LocalDistinct_init m = (case pi_LocalDistinct m of Some p \<Rightarrow> Some (NewLocalDistinct (toOrderBys (pld_OrderBys p))) | None \<Rightarrow> None)"

definition LocalDistinct_Name :: "string \<Rightarrow> string" where
  "LocalDistinct_Name pfx = pfx @ ''.LocalDistinct''"

definition LocalDistinct_Function :: "instr_env \<Rightarrow> OrderBy list \<Rightarrow> instr_fun" where
  "LocalDistinct_Function env orderBys = (\<lambda>readers s res. res =
     gbind (go_index readers 0) (\<lambda>r. with_writer0 (DoLocalDistinct (env_ops env) r orderBys) s))"

definition LocalDistinct_SerializeToCommand :: "OrderBy list \<Rightarrow> pb_Instruction" where
  "LocalDistinct_SerializeToCommand orderBys = empty_command\<lparr>pi_LocalDistinct := Some \<lparr>pld_OrderBys = getOrderBys orderBys\<rparr>\<rparr>"

definition LocalDistinct_GetMemoryCostInMB :: "int64 \<Rightarrow> int64" where
  "LocalDistinct_GetMemoryCostInMB partitionSize = 1"

subsection \<open>LocalGroupBySorted\<close>

definition NewLocalGroupBySorted :: "int list \<Rightarrow> Instruction" where
  "NewLocalGroupBySorted indexes = I_LocalGroupBySorted indexes"

definition LocalGroupBySorted_init :: "pb_Instruction \<Rightarrow> Instruction option" where
  "LocalGroupBySorted_init m = (case pi_LocalGroupBySorted m of Some p \<Rightarrow> Some (NewLocalGroupBySorted (toInts (plg_Indexes p))) | None \<Rightarrow> None)"

definition LocalGroupBySorted_Name :: "string \<Rightarrow> string" where
  "LocalGroupBySorted_Name pfx = pfx @ ''.LocalGroupBySorted''"

definition LocalGroupBySorted_Function :: "instr_env \<Rightarrow> int list \<Rightarrow> instr_fun" where
  "LocalGroupBySorted_Function env indexes = (\<lambda>readers s res. res =
     gbind (go_index readers 0) (\<lambda>r. with_writer0 (DoLocalGroupBySorted (env_ops env) r indexes) s))"

definition LocalGroupBySorted_SerializeToCommand :: "int list \<Rightarrow> pb_Instruction" where
  "LocalGroupBySorted_SerializeToCommand indexes = empty_command\<lparr>pi_LocalGroupBySorted := Some \<lparr>plg_Indexes = getIndexes indexes\<rparr>\<rparr>"

definition LocalGroupBySorted_GetMemoryCostInMB :: "int64 \<Rightarrow> int64" where
  "LocalGroupBySorted_GetMemoryCostInMB partitionSize = 5"

subsection \<open>LocalHashAndJoinWith\<close>

definition NewLocalHashAndJoinWith :: "int list \<Rightarrow> Instruction" where
  "NewLocalHashAndJoinWith indexes = I_LocalHashAndJoinWith indexes"

definition LocalHashAndJoinWith_init :: "pb_Instruction \<Rightarrow> Instruction option" where
  "LocalHashAndJoinWith_init m = (case pi_LocalHashAndJoinWith m of Some p \<Rightarrow> Some (NewLocalHashAndJoinWith (toInts (plh_Indexes p))) | None \<Rightarrow> None)"

definition LocalHashAndJoinWith_Name :: "string \<Rightarrow> string" where
  "LocalHashAndJoinWith_Name pfx = pfx @ ''.LocalHashAndJoinWith''"

definition LocalHashAndJoinWith_Function :: "instr_env \<Rightarrow> int list \<Rightarrow> instr_fun" where
  "LocalHashAndJoinWith_Function env indexes = (\<lambda>readers s res. res =
     gbind (go_index readers 0) (\<lambda>l. gbind (go_index readers 1) (\<lambda>r.
       with_writer0 (DoLocalHashAndJoinWith (env_ops env) (env_reached env) l r indexes) s)))"

definition LocalHashAndJoinWith_SerializeToCommand :: "int list \<Rightarrow> pb_Instruction" where
  "LocalHashAndJoinWith_SerializeToCommand indexes = empty_command\<lparr>pi_LocalHashAndJoinWith := Some \<lparr>plh_Indexes = getIndexes indexes\<rparr>\<rparr>"

definition LocalHashAndJoinWith_GetMemoryCostInMB :: "int64 \<Rightarrow> int64" where
  "LocalHashAndJoinWith_GetMemoryCostInMB partitionSize = int64_of_scaled 23 (round_bits 24 63 (round_bits 24 39 (sint partitionSize) * 9227469))"

subsection \<open>LocalLimit\<close>

definition NewLocalLimit :: "int \<Rightarrow> int \<Rightarrow> Instruction" where
  "NewLocalLimit n offset = I_LocalLimit n offset"

definition LocalLimit_init :: "pb_Instruction \<Rightarrow> Instruction option" where
  "LocalLimit_init m = (case pi_LocalLimit m of Some p \<Rightarrow> Some (NewLocalLimit (sint (pll_N p)) (sint (pll_Offset p))) | None \<Rightarrow> None)"

definition LocalLimit_Name :: "string \<Rightarrow> string" where
  "LocalLimit_Name pfx = pfx @ ''.LocalLimit''"

definition LocalLimit_Function :: "instr_env \<Rightarrow> int \<Rightarrow> int \<Rightarrow> instr_fun" where
  "LocalLimit_Function env n offset = (\<lambda>readers s res. res =
     gbind (go_index readers 0) (\<lambda>r. with_writer0 (DoLocalLimit (env_ops env) r n offset) s))"

definition LocalLimit_SerializeToCommand :: "int \<Rightarrow> int \<Rightarrow> pb_Instruction" where
  "LocalLimit_SerializeToCommand n offset = empty_command\<lparr>pi_LocalLimit := Some \<lparr>pll_N = word_of_int n, pll_Offset = word_of_int offset\<rparr>\<rparr>"

definition LocalLimit_GetMemoryCostInMB :: "int64 \<Rightarrow> int64" where
  "LocalLimit_GetMemoryCostInMB partitionSize = 5"

subsection \<open>LocalSort\<close>

definition NewLocalSort :: "OrderBy list \<Rightarrow> int \<Rightarrow> Instruction" where
  "NewLocalSort orderBys memoryInMB = I_LocalSort orderBys memoryInMB"

definition LocalSort_init :: "pb_Instruction \<Rightarrow> Instruction option" where
  "LocalSort_init m = (case pi_LocalSort m of Some p \<Rightarrow> Some (NewLocalSort (toOrderBys (pls_OrderBys p)) (sint (pi_MemoryInMB m))) | None \<Rightarrow> None)"

definition LocalSort_Name :: "string \<Rightarrow> string" where
  "LocalSort_Name pfx = pfx @ ''.LocalSort''"

definition LocalSort_Function :: "instr_env \<Rightarrow> OrderBy list \<Rightarrow> int \<Rightarrow> instr_fun" where
  "LocalSort_Function env orderBys memoryInMB = (\<lambda>readers s res. res =
     gbind (go_index readers 0) (\<lambda>r. with_writer0 (DoLocalSort (env_ops env) (env_sort env) r orderBys) s))"

definition LocalSort_SerializeToCommand :: "OrderBy list \<Rightarrow> int \<Rightarrow> pb_Instruction" where
  "LocalSort_SerializeToCommand orderBys memoryInMB = empty_command\<lparr>pi_LocalSort := Some \<lparr>pls_OrderBys = getOrderBys orderBys\<rparr>\<rparr>"

definition LocalSort_GetMemoryCostInMB :: "OrderBy list \<Rightarrow> int \<Rightarrow> int64 \<Rightarrow> int64" where
  "LocalSort_GetMemoryCostInMB orderBys memoryInMB partitionSize = int64_of_scaled 0 (max (round_bits 53 11 memoryInMB) (round_bits 53 11 (sint partitionSize)))"

subsection \<open>LocalTop\<close>

definition NewLocalTop :: "int \<Rightarrow> OrderBy list \<Rightarrow> Instruction" where
  "NewLocalTop n orderBys = I_LocalTop n orderBys"

definition LocalTop_init :: "pb_Instruction \<Rightarrow> Instruction option" where
  "LocalTop_init m = (case pi_LocalTop m of Some p \<Rightarrow> Some (NewLocalTop (sint (plt_N p)) (toOrderBys (plt_OrderBys p))) | None \<Rightarrow> None)"

definition LocalTop_Name :: "string \<Rightarrow> string" where
  "LocalTop_Name pfx = pfx @ ''.LocalTop''"

definition LocalTop_Function :: "instr_env \<Rightarrow> int \<Rightarrow> OrderBy list \<Rightarrow> instr_fun" where
  "LocalTop_Function env n orderBys = (\<lambda>readers s res. res =
     gbind (go_index readers 0) (\<lambda>r. with_writer0 (DoLocalTop (env_ops env) r n orderBys) s))"

definition LocalTop_SerializeToCommand :: "int \<Rightarrow> OrderBy list \<Rightarrow> pb_Instruction" where
  "LocalTop_SerializeToCommand n orderBys = empty_command\<lparr>pi_LocalTop := Some \<lparr>plt_N = word_of_int n, plt_OrderBys = getOrderBys orderBys\<rparr>\<rparr>"

definition LocalTop_GetMemoryCostInMB :: "int64 \<Rightarrow> int64" where
  "LocalTop_GetMemoryCostInMB partitionSize = 5"

subsection \<open>MergeSortedTo\<close>

definition NewMergeSortedTo :: "OrderBy list \<Rightarrow> Instruction" where
  "NewMergeSortedTo orderBys = I_MergeSortedTo orderBys"

definition MergeSortedTo_init :: "pb_Instruction \<Rightarrow> Instruction option" where
  "MergeSortedTo_init m = (case pi_MergeSortedTo m of Some p \<Rightarrow> Some (NewMergeSortedTo (toOrderBys (pms_OrderBys p))) | None \<Rightarrow> None)"

definition MergeSortedTo_Name :: "string \<Rightarrow> string" where
  "MergeSortedTo_Name pfx = pfx @ ''.MergeSortedTo''"

definition MergeSortedTo_Function :: "instr_env \<Rightarrow> OrderBy list \<Rightarrow> instr_fun" where
  "MergeSortedTo_Function env orderBys = (\<lambda>readers s res. res =
     with_writer0 (DoMergeSortedTo (env_ops env) readers orderBys) s)"

definition MergeSortedTo_SerializeToCommand :: "OrderBy list \<Rightarrow> pb_Instruction" where
  "MergeSortedTo_SerializeToCommand orderBys = empty_command\<lparr>pi_MergeSortedTo := Some \<lparr>pms_OrderBys = getOrderBys orderBys\<rparr>\<rparr>"

definition MergeSortedTo_GetMemoryCostInMB :: "int64 \<Rightarrow> int64" where
  "MergeSortedTo_GetMemoryCostInMB partitionSize = 20"

subsection \<open>MergeTo\<close>

definition NewMergeTo :: "Instruction" where
  "NewMergeTo = I_MergeTo"

definition MergeTo_init :: "pb_Instruction \<Rightarrow> Instruction option" where
  "MergeTo_init m = (case pi_MergeTo m of Some _ \<Rightarrow> Some (NewMergeTo) | None \<Rightarrow> None)"

definition MergeTo_Name :: "string \<Rightarrow> string" where
  "MergeTo_Name pfx = pfx @ ''.MergeTo''"

definition MergeTo_Function :: "instr_env \<Rightarrow> instr_fun" where
  "MergeTo_Function env = (\<lambda>readers s res. res =
     with_writer0 (DoMergeTo readers) s)"

definition MergeTo_SerializeToCommand :: "pb_Instruction" where
  "MergeTo_SerializeToCommand = empty_command\<lparr>pi_MergeTo := Some ()\<rparr>"

definition MergeTo_GetMemoryCostInMB :: "int64 \<Rightarrow> int64" where
  "MergeTo_GetMemoryCostInMB partitionSize = 3"

subsection \<open>CollectPartitions\<close>

definition NewCollectPartitions :: "Instruction" where
  "NewCollectPartitions = I_CollectPartitions"

definition CollectPartitions_init :: "pb_Instruction \<Rightarrow> Instruction option" where
  "CollectPartitions_init m = (case pi_CollectPartitions m of Some _ \<Rightarrow> Some (NewCollectPartitions) | None \<Rightarrow> None)"

definition CollectPartitions_Name :: "string \<Rightarrow> string" where
  "CollectPartitions_Name pfx = pfx @ ''.CollectPartitions''"

definition CollectPartitions_Function :: "instr_env \<Rightarrow> instr_fun" where
  "CollectPartitions_Function env = (\<lambda>readers s res.
     if fst s = [] then res = Inl PanicIndex
      else \<exists>w stats err. DoCollectPartitions readers (hd (fst s), snd s) (w, stats) err \<and> res = Inr ((w # tl (fst s), stats), err))"

definition CollectPartitions_SerializeToCommand :: "pb_Instruction" where
  "CollectPartitions_SerializeToCommand = empty_command\<lparr>pi_CollectPartitions := Some ()\<rparr>"

definition CollectPartitions_GetMemoryCostInMB :: "int64 \<Rightarrow> int64" where
  "CollectPartitions_GetMemoryCostInMB partitionSize = 3"

subsection \<open>ScatterPartitions\<close>

definition NewScatterPartitions :: "int list \<Rightarrow> Instruction" where
  "NewScatterPartitions indexes = I_ScatterPartitions indexes"

definition ScatterPartitions_init :: "pb_Instruction \<Rightarrow> Instruction option" where
  "ScatterPartitions_init m = (case pi_ScatterPartitions m of Some p \<Rightarrow> Some (NewScatterPartitions (toInts (psc_Indexes p))) | None \<Rightarrow> None)"

definition ScatterPartitions_Name :: "string \<Rightarrow> string" where
  "ScatterPartitions_Name pfx = pfx @ ''.ScatterPartitions''"

definition ScatterPartitions_Function :: "instr_env \<Rightarrow> int list \<Rightarrow> instr_fun" where
  "ScatterPartitions_Function env indexes = (\<lambda>readers s res. res =
     gbind (go_index readers 0) (\<lambda>r. DoScatterPartitions (env_Hash env) (env_ops env) r indexes s))"

definition ScatterPartitions_SerializeToCommand :: "int list \<Rightarrow> pb_Instruction" where
  "ScatterPartitions_SerializeToCommand indexes = empty_command\<lparr>pi_ScatterPartitions := Some \<lparr>psc_Indexes = getIndexes indexes\<rparr>\<rparr>"

definition ScatterPartitions_GetMemoryCostInMB :: "int64 \<Rightarrow> int64" where
  "ScatterPartitions_GetMemoryCostInMB partitionSize = 5"

subsection \<open>PipeAsArgs\<close>

definition NewPipeAsArgs :: "bytes \<Rightarrow> Instruction" where
  "NewPipeAsArgs code = I_PipeAsArgs code"

definition PipeAsArgs_init :: "pb_Instruction \<Rightarrow> Instruction option" where
  "PipeAsArgs_init m = (case pi_PipeAsArgs m of Some p \<Rightarrow> Some (NewPipeAsArgs (ppa_Code p)) | None \<Rightarrow> None)"

definition PipeAsArgs_Name :: "string \<Rightarrow> string" where
  "PipeAsArgs_Name pfx = pfx @ ''.PipeAsArgs''"

definition PipeAsArgs_Function :: "instr_env \<Rightarrow> bytes \<Rightarrow> instr_fun" where
  "PipeAsArgs_Function env code = (\<lambda>readers s res. res =
     gbind (go_index readers 0) (\<lambda>r. with_writer0 (DoPipeAsArgs (env_ops env) (env_Execute env) r code) s))"

definition PipeAsArgs_SerializeToCommand :: "bytes \<Rightarrow> pb_Instruction" where
  "PipeAsArgs_SerializeToCommand code = empty_command\<lparr>pi_PipeAsArgs := Some \<lparr>ppa_Code = code\<rparr>\<rparr>"

definition PipeAsArgs_GetMemoryCostInMB :: "int64 \<Rightarrow> int64" where
  "PipeAsArgs_GetMemoryCostInMB partitionSize = 3"

subsection \<open>RoundRobin\<close>

definition NewRoundRobin :: "Instruction" where
  "NewRoundRobin = I_RoundRobin"

definition RoundRobin_init :: "pb_Instruction \<Rightarrow> Instruction option" where
  "RoundRobin_init m = (case pi_RoundRobin m of Some _ \<Rightarrow> Some (NewRoundRobin) | None \<Rightarrow> None)"

definition RoundRobin_Name :: "string \<Rightarrow> string" where
  "RoundRobin_Name pfx = pfx @ ''.RoundRobin''"

definition RoundRobin_Function :: "instr_env \<Rightarrow> instr_fun" where
  "RoundRobin_Function env = (\<lambda>readers s res.
     \<exists>streams sched. gmap delivered readers = Inr streams \<and>
       (case DoRoundRobin sched (rr_init (map fst streams) (fst s) (snd s)) of
          Inl p \<Rightarrow> res = Inl p
        | Inr s' \<Rightarrow> (\<forall>pc\<in>set (rr_pc s'). pc = RRDone) \<and> res = Inr ((rr_writers s', rr_stats s'), None)))"

definition RoundRobin_SerializeToCommand :: "pb_Instruction" where
  "RoundRobin_SerializeToCommand = empty_command\<lparr>pi_RoundRobin := Some ()\<rparr>"

definition RoundRobin_GetMemoryCostInMB :: "int64 \<Rightarrow> int64" where
  "RoundRobin_GetMemoryCostInMB partitionSize = 1"

subsection \<open>Select\<close>

definition NewSelect :: "int list \<Rightarrow> int list \<Rightarrow> Instruction" where
  "NewSelect keyIndexes valueIndexes = I_Select keyIndexes valueIndexes"

definition Select_init :: "pb_Instruction \<Rightarrow> Instruction option" where
  "Select_init m = (case pi_Select m of Some p \<Rightarrow> Some (NewSelect (toInts (pse_KeyIndexes p)) (toInts (pse_ValueIndexes p))) | None \<Rightarrow> None)"

definition Select_Name :: "int list \<Rightarrow> int list \<Rightarrow> string \<Rightarrow> string" where
  "Select_Name keyIndexes valueIndexes pfx = ''Select k:'' @ joinInts keyIndexes '','' @ '' v:'' @ joinInts valueIndexes '',''"

definition Select_Function :: "instr_env \<Rightarrow> int list \<Rightarrow> int list \<Rightarrow> instr_fun" where
  "Select_Function env keyIndexes valueIndexes = (\<lambda>readers s res. res =
     gbind (go_index readers 0) (\<lambda>r. with_writer0 (DoSelect (env_ops env) r keyIndexes valueIndexes) s))"

definition Select_SerializeToCommand :: "int list \<Rightarrow> int list \<Rightarrow> pb_Instruction" where
  "Select_SerializeToCommand keyIndexes valueIndexes = empty_command\<lparr>pi_Select := Some \<lparr>pse_KeyIndexes = getIndexes keyIndexes, pse_ValueIndexes = getIndexes valueIndexes\<rparr>\<rparr>"

definition Select_GetMemoryCostInMB :: "int64 \<Rightarrow> int64" where
  "Select_GetMemoryCostInMB partitionSize = 3"

subsection \<open>Union\<close>

definition NewUnion :: "bool \<Rightarrow> Instruction" where
  "NewUnion isParallel = I_Union isParallel"

definition Union_init :: "pb_Instruction \<Rightarrow> Instruction option" where
  "Union_init m = (case pi_Union m of Some p \<Rightarrow> Some (NewUnion (pun_IsParallel p)) | None \<Rightarrow> None)"

definition Union_Name :: "bool \<Rightarrow> string \<Rightarrow> string" where
  "Union_Name isParallel pfx = ''Union: isParallel='' @ (if isParallel then ''true'' else ''false'')"

definition Union_Function :: "instr_env \<Rightarrow> bool \<Rightarrow> instr_fun" where
  "Union_Function env isParallel = (\<lambda>readers s res.
     if fst s = [] then res = Inl PanicIndex
      else \<exists>w stats. DoUnion (env_ops env) readers isParallel (hd (fst s), snd s) (w, stats) \<and> res = Inr ((w # tl (fst s), stats), None))"

definition Union_SerializeToCommand :: "bool \<Rightarrow> pb_Instruction" where
  "Union_SerializeToCommand isParallel = empty_command\<lparr>pi_Union := Some \<lparr>pun_IsParallel = isParallel\<rparr>\<rparr>"

definition Union_GetMemoryCostInMB :: "int64 \<Rightarrow> int64" where
  "Union_GetMemoryCostInMB partitionSize = 3"

section \<open>Dispatch\<close>

definition Instruction_Name :: "Instruction \<Rightarrow> string \<Rightarrow> string" where
  "Instruction_Name i = (case i of
     I_Broadcast \<Rightarrow> Broadcast_Name
   | I_CoGroupPartitionedSorted indexes \<Rightarrow> CoGroupPartitionedSorted_Name
   | I_JoinPartitionedSorted isLeftOuterJoin isRightOuterJoin indexes \<Rightarrow> JoinPartitionedSorted_Name
   | I_LocalDistinct orderBys \<Rightarrow> LocalDistinct_Name
   | I_LocalGroupBySorted indexes \<Rightarrow> LocalGroupBySorted_Name
   | I_LocalHashAndJoinWith indexes \<Rightarrow> LocalHashAndJoinWith_Name
   | I_LocalLimit n offset \<Rightarrow> LocalLimit_Name
   | I_LocalSort orderBys memoryInMB \<Rightarrow> LocalSort_Name
   | I_LocalTop n orderBys \<Rightarrow> LocalTop_Name
   | I_MergeSortedTo orderBys \<Rightarrow> MergeSortedTo_Name
   | I_MergeTo \<Rightarrow> MergeTo_Name
   | I_CollectPartitions \<Rightarrow> CollectPartitions_Name
   | I_ScatterPartitions indexes \<Rightarrow> ScatterPartitions_Name
   | I_PipeAsArgs code \<Rightarrow> PipeAsArgs_Name
   | I_RoundRobin \<Rightarrow> RoundRobin_Name
   | I_Select keyIndexes valueIndexes \<Rightarrow> Select_Name keyIndexes valueIndexes
   | I_Union isParallel \<Rightarrow> Union_Name isParallel)"

definition Instruction_Function :: "instr_env \<Rightarrow> Instruction \<Rightarrow> instr_fun" where
  "Instruction_Function env i = (case i of
     I_Broadcast \<Rightarrow> Broadcast_Function env
   | I_CoGroupPartitionedSorted indexes \<Rightarrow> CoGroupPartitionedSorted_Function env indexes
   | I_JoinPartitionedSorted isLeftOuterJoin isRightOuterJoin indexes \<Rightarrow> JoinPartitionedSorted_Function env isLeftOuterJoin isRightOuterJoin indexes
   | I_LocalDistinct orderBys \<Rightarrow> LocalDistinct_Function env orderBys
   | I_LocalGroupBySorted indexes \<Rightarrow> LocalGroupBySorted_Function env indexes
   | I_LocalHashAndJoinWith indexes \<Rightarrow> LocalHashAndJoinWith_Function env indexes
   | I_LocalLimit n offset \<Rightarrow> LocalLimit_Function env n offset
   | I_LocalSort orderBys memoryInMB \<Rightarrow> LocalSort_Function env orderBys memoryInMB
   | I_LocalTop n orderBys \<Rightarrow> LocalTop_Function env n orderBys
   | I_MergeSortedTo orderBys \<Rightarrow> MergeSortedTo_Function env orderBys
   | I_MergeTo \<Rightarrow> MergeTo_Function env
   | I_CollectPartitions \<Rightarrow> CollectPartitions_Function env
   | I_ScatterPartitions indexes \<Rightarrow> ScatterPartitions_Function env indexes
   | I_PipeAsArgs code \<Rightarrow> PipeAsArgs_Function env code
   | I_RoundRobin \<Rightarrow> RoundRobin_Function env
   | I_Select keyIndexes valueIndexes \<Rightarrow> Select_Function env keyIndexes valueIndexes
   | I_Union isParallel \<Rightarrow> Union_Function env isParallel)"

definition Instruction_SerializeToCommand :: "Instruction \<Rightarrow> pb_Instruction" where
  "Instruction_SerializeToCommand i = (case i of
     I_Broadcast \<Rightarrow> Broadcast_SerializeToCommand
   | I_CoGroupPartitionedSorted indexes \<Rightarrow> CoGroupPartitionedSorted_SerializeToCommand indexes
   | I_JoinPartitionedSorted isLeftOuterJoin isRightOuterJoin indexes \<Rightarrow> JoinPartitionedSorted_SerializeToCommand isLeftOuterJoin isRightOuterJoin indexes
   | I_LocalDistinct orderBys \<Rightarrow> LocalDistinct_SerializeToCommand orderBys
   | I_LocalGroupBySorted indexes \<Rightarrow> LocalGroupBySorted_SerializeToCommand indexes
   | I_LocalHashAndJoinWith indexes \<Rightarrow> LocalHashAndJoinWith_SerializeToCommand indexes
   | I_LocalLimit n offset \<Rightarrow> LocalLimit_SerializeToCommand n offset
   | I_LocalSort orderBys memoryInMB \<Rightarrow> LocalSort_SerializeToCommand orderBys memoryInMB
   | I_LocalTop n orderBys \<Rightarrow> LocalTop_SerializeToCommand n orderBys
   | I_MergeSortedTo orderBys \<Rightarrow> MergeSortedTo_SerializeToCommand orderBys
   | I_MergeTo \<Rightarrow> MergeTo_SerializeToCommand
   | I_CollectPartitions \<Rightarrow> CollectPartitions_SerializeToCommand
   | I_ScatterPartitions indexes \<Rightarrow> ScatterPartitions_SerializeToCommand indexes
   | I_PipeAsArgs code \<Rightarrow> PipeAsArgs_SerializeToCommand code
   | I_RoundRobin \<Rightarrow> RoundRobin_SerializeToCommand
   | I_Select keyIndexes valueIndexes \<Rightarrow> Select_SerializeToCommand keyIndexes valueIndexes
   | I_Union isParallel \<Rightarrow> Union_SerializeToCommand isParallel)"

definition Instruction_GetMemoryCostInMB :: "Instruction \<Rightarrow> int64 \<Rightarrow> int64" where
  "Instruction_GetMemoryCostInMB i = (case i of
     I_Broadcast \<Rightarrow> Broadcast_GetMemoryCostInMB
   | I_CoGroupPartitionedSorted indexes \<Rightarrow> CoGroupPartitionedSorted_GetMemoryCostInMB
   | I_JoinPartitionedSorted isLeftOuterJoin isRightOuterJoin indexes \<Rightarrow> JoinPartitionedSorted_GetMemoryCostInMB
   | I_LocalDistinct orderBys \<Rightarrow> LocalDistinct_GetMemoryCostInMB
   | I_LocalGroupBySorted indexes \<Rightarrow> LocalGroupBySorted_GetMemoryCostInMB
   | I_LocalHashAndJoinWith indexes \<Rightarrow> LocalHashAndJoinWith_GetMemoryCostInMB
   | I_LocalLimit n offset \<Rightarrow> LocalLimit_GetMemoryCostInMB
   | I_LocalSort orderBys memoryInMB \<Rightarrow> LocalSort_GetMemoryCostInMB orderBys memoryInMB
   | I_LocalTop n orderBys \<Rightarrow> LocalTop_GetMemoryCostInMB
   | I_MergeSortedTo orderBys \<Rightarrow> MergeSortedTo_GetMemoryCostInMB
   | I_MergeTo \<Rightarrow> MergeTo_GetMemoryCostInMB
   | I_CollectPartitions \<Rightarrow> CollectPartitions_GetMemoryCostInMB
   | I_ScatterPartitions indexes \<Rightarrow> ScatterPartitions_GetMemoryCostInMB
   | I_PipeAsArgs code \<Rightarrow> PipeAsArgs_GetMemoryCostInMB
   | I_RoundRobin \<Rightarrow> RoundRobin_GetMemoryCostInMB
   | I_Select keyIndexes valueIndexes \<Rightarrow> Select_GetMemoryCostInMB
   | I_Union isParallel \<Rightarrow> Union_GetMemoryCostInMB)"

text \<open>The \<^verbatim>\<open>init\<close> functions register in the order of the file names.\<close>

definition instruction_functions :: "(pb_Instruction \<Rightarrow> Instruction option) list" where
  "instruction_functions = [Broadcast_init,
     CoGroupPartitionedSorted_init,
     JoinPartitionedSorted_init,
     LocalDistinct_init,
     LocalGroupBySorted_init,
     LocalHashAndJoinWith_init,
     LocalLimit_init,
     LocalSort_init,
     LocalTop_init,
     MergeSortedTo_init,
     MergeTo_init,
     CollectPartitions_init,
     ScatterPartitions_init,
     PipeAsArgs_init,
     RoundRobin_init,
     Select_init,
     Union_init]"

fun find_instruction :: "(pb_Instruction \<Rightarrow> Instruction option) list \<Rightarrow> pb_Instruction \<Rightarrow> Instruction option" where
  "find_instruction [] i = None"
| "find_instruction (f # fs) i = (case f i of Some inst \<Rightarrow> Some inst | None \<Rightarrow> find_instruction fs i)"

definition GetInstructionFunction :: "instr_env \<Rightarrow> pb_Instruction \<Rightarrow> instr_fun option" where
  "GetInstructionFunction env i = map_option (Instruction_Function env) (find_instruction instruction_functions i)"

section \<open>The executor runs what the driver planned\<close>

definition int32_range :: "int \<Rightarrow> bool" where
  "int32_range n \<longleftrightarrow> - (2 ^ 31) \<le> n \<and> n < 2 ^ 31"

definition order_range :: "OrderBy \<Rightarrow> bool" where
  "order_range b \<longleftrightarrow> int32_range (ob_Index b) \<and> int32_range (ob_Order b)"

fun instr_range :: "Instruction \<Rightarrow> bool" where
  "instr_range (I_CoGroupPartitionedSorted ixs) = list_all int32_range ixs"
| "instr_range (I_JoinPartitionedSorted l r ixs) = list_all int32_range ixs"
| "instr_range (I_LocalDistinct obs) = list_all order_range obs"
| "instr_range (I_LocalGroupBySorted ixs) = list_all int32_range ixs"
| "instr_range (I_LocalHashAndJoinWith ixs) = list_all int32_range ixs"
| "instr_range (I_LocalLimit n k) = (int32_range n \<and> int32_range k)"
| "instr_range (I_LocalSort obs m) = list_all order_range obs"
| "instr_range (I_LocalTop n obs) = (int32_range n \<and> list_all order_range obs)"
| "instr_range (I_MergeSortedTo obs) = list_all order_range obs"
| "instr_range (I_ScatterPartitions ixs) = list_all int32_range ixs"
| "instr_range (I_Select ks vs) = (list_all int32_range ks \<and> list_all int32_range vs)"
| "instr_range i = True"

fun set_memory :: "int \<Rightarrow> Instruction \<Rightarrow> Instruction" where
  "set_memory m (I_LocalSort obs _) = I_LocalSort obs m"
| "set_memory m i = i"

lemma sint_word_of_int32: "int32_range n \<Longrightarrow> sint (word_of_int n :: int32) = n"
  unfolding int32_range_def by (subst sint_sbintrunc') (simp add: signed_take_bit_int_eq_self)

lemma toInts_getIndexes: "list_all int32_range xs \<Longrightarrow> toInts (getIndexes xs) = xs"
  by (induction xs) (simp_all add: toInts_def getIndexes_def sint_word_of_int32)

lemma toOrderBys_getOrderBys: "list_all order_range xs \<Longrightarrow> toOrderBys (getOrderBys xs) = xs"
  by (induction xs) (simp_all add: toOrderBys_def getOrderBys_def order_range_def sint_word_of_int32)

named_theorems instr_defs

lemmas instr_init_defs [instr_defs] = Broadcast_init_def CoGroupPartitionedSorted_init_def JoinPartitionedSorted_init_def LocalDistinct_init_def 
  LocalGroupBySorted_init_def LocalHashAndJoinWith_init_def LocalLimit_init_def LocalSort_init_def 
  LocalTop_init_def MergeSortedTo_init_def MergeTo_init_def CollectPartitions_init_def 
  ScatterPartitions_init_def PipeAsArgs_init_def RoundRobin_init_def Select_init_def Union_init_def
lemmas instr_new_defs [instr_defs] = NewBroadcast_def NewCoGroupPartitionedSorted_def NewJoinPartitionedSorted_def NewLocalDistinct_def 
  NewLocalGroupBySorted_def NewLocalHashAndJoinWith_def NewLocalLimit_def NewLocalSort_def NewLocalTop_def 
  NewMergeSortedTo_def NewMergeTo_def NewCollectPartitions_def NewScatterPartitions_def NewPipeAsArgs_def 
  NewRoundRobin_def NewSelect_def NewUnion_def
lemmas instr_ser_defs [instr_defs] = Broadcast_SerializeToCommand_def CoGroupPartitionedSorted_SerializeToCommand_def 
  JoinPartitionedSorted_SerializeToCommand_def LocalDistinct_SerializeToCommand_def 
  LocalGroupBySorted_SerializeToCommand_def LocalHashAndJoinWith_SerializeToCommand_def 
  LocalLimit_SerializeToCommand_def LocalSort_SerializeToCommand_def LocalTop_SerializeToCommand_def 
  MergeSortedTo_SerializeToCommand_def MergeTo_SerializeToCommand_def CollectPartitions_SerializeToCommand_def 
  ScatterPartitions_SerializeToCommand_def PipeAsArgs_SerializeToCommand_def RoundRobin_SerializeToCommand_def 
  Select_SerializeToCommand_def Union_SerializeToCommand_def

lemma find_serialized:
  assumes "instr_range i"
  shows "find_instruction instruction_functions
      ((Instruction_SerializeToCommand i)\<lparr>pi_StepId := a, pi_TaskId := b, pi_MemoryInMB := m,
        pi_InputShardLocations := ins, pi_OutputShardLocations := outs\<rparr>) = Some (set_memory (sint m) i)"
  using assms
  by (cases i) (simp_all add: instr_defs Instruction_SerializeToCommand_def instruction_functions_def empty_command_def
      sint_word_of_int32 toInts_getIndexes toOrderBys_getOrderBys)

lemma Function_set_memory: "Instruction_Function env (set_memory m i) = Instruction_Function env i"
  by (cases i) (simp_all add: Instruction_Function_def LocalSort_Function_def)

text \<open>
  C35: The registry finds, from the serialized form of any instruction whose numbers fit 32 bits, and whatever step,
  task, memory size and shard locations are filled in later, exactly the function of that instruction: no
  other registered instruction claims it.
\<close>

theorem GetInstructionFunction_serialized:
  assumes "instr_range i"
  shows "GetInstructionFunction env
      ((Instruction_SerializeToCommand i)\<lparr>pi_StepId := a, pi_TaskId := b, pi_MemoryInMB := m,
        pi_InputShardLocations := ins, pi_OutputShardLocations := outs\<rparr>) = Some (Instruction_Function env i)"
  by (simp add: GetInstructionFunction_def find_serialized [OF assms] Function_set_memory)

definition sample_env :: instr_env where
  "sample_env = \<lparr>env_ops = mp_ops, env_Hash = (\<lambda>b. 0), env_reached = (\<lambda>b. b), env_sort = insertionSort,
     env_Execute = (\<lambda>code s. s)\<rparr>"

theorem GetInstructionFunction_serialized_witness:
  "GetInstructionFunction sample_env ((Instruction_SerializeToCommand (I_LocalSort [\<lparr>ob_Index = 2, ob_Order = - 1\<rparr>] 0))\<lparr>pi_StepId := 1,
      pi_TaskId := 2, pi_MemoryInMB := 64, pi_InputShardLocations := [], pi_OutputShardLocations := []\<rparr>) =
    Some (LocalSort_Function sample_env [\<lparr>ob_Index = 2, ob_Order = - 1\<rparr>] 0)"
  using GetInstructionFunction_serialized [where i = "I_LocalSort [\<lparr>ob_Index = 2, ob_Order = - 1\<rparr>] 0" and env = sample_env
      and a = 1 and b = 2 and m = 64 and ins = "[]" and outs = "[]"]
  by (simp add: order_range_def int32_range_def Instruction_Function_def)

text \<open>
  A limit beyond 32 bits is silently truncated on the way to the executor: a limit of \<open>2 ^ 32 + 5\<close> rows runs
  as a limit of 5.
\<close>

theorem LocalLimit_truncated:
  "GetInstructionFunction env (LocalLimit_SerializeToCommand (2 ^ 32 + 5) 0) = Some (LocalLimit_Function env 5 0)"
proof -
  have "(word_of_int (2 ^ 32 + 5) :: int32) = word_of_int 5" by simp
  then have "LocalLimit_SerializeToCommand (2 ^ 32 + 5) 0 = LocalLimit_SerializeToCommand 5 0"
    by (simp add: LocalLimit_SerializeToCommand_def)
  moreover have "(LocalLimit_SerializeToCommand 5 0) = (Instruction_SerializeToCommand (I_LocalLimit 5 0))\<lparr>pi_StepId := 0, pi_TaskId := 0,
      pi_MemoryInMB := 0, pi_InputShardLocations := [], pi_OutputShardLocations := []\<rparr>"
    by (simp add: Instruction_SerializeToCommand_def LocalLimit_SerializeToCommand_def empty_command_def)
  ultimately show ?thesis
    using find_serialized [where i = "I_LocalLimit 5 0" and a = 0 and b = 0 and m = 0 and ins = "[]" and outs = "[]"]
    by (simp add: GetInstructionFunction_def int32_range_def Instruction_Function_def)
qed

end
