(* ===== verification/FlowGraph.thy ===== *)
theory FlowGraph
  imports Instructions
begin

text \<open>
  The graph of a flow (\<^verbatim>\<open>flow/structure.go\<close>, \<^verbatim>\<open>context.go\<close>, \<^verbatim>\<open>step.go\<close>, \<^verbatim>\<open>dataset*.go\<close>): datasets with their
  shards, steps with their tasks, and the operations with which a user builds it. A pointer to a
  dataset or a step is its \<^verbatim>\<open>Id\<close>, which is its position in the flow; a pointer to a shard (task) is the dataset
  (step) and the position in it. The pipes between shards and tasks belong to the execution and are
  left out. Building can panic, so an operation is a function from a flow to a result and a flow.
\<close>

section \<open>Data\<close>

datatype NetworkType =
    OneShardToOneShard | OneShardToAllShard | AllShardToOneShard | OneShardToEveryNShard
  | LinkedNShardToOneShard | MergeTwoShardToOneShard | AllShardTOAllShard

datatype ModeIO = ModeInMemory | ModeOnDisk

type_synonym shard_ref = "nat \<times> nat"
type_synonym task_ref = "nat \<times> nat"

record DatasetShard =
  sh_ReadingTasks :: "task_ref list"

record Dataset =
  ds_Id :: nat
  ds_Shards :: "DatasetShard list"
  ds_Step :: "nat option"
  ds_ReadingSteps :: "nat list"
  ds_IsPartitionedBy :: "int list"
  ds_IsLocalSorted :: "OrderBy list"
  ds_TotalSize :: int64
  ds_OnDisk :: ModeIO

record Task =
  tk_Id :: nat
  tk_InputShards :: "shard_ref list"
  tk_OutputShards :: "shard_ref list"

record Command =
  cmd_Path :: string
  cmd_Args :: "string list"
  cmd_Env :: "string list"

record Step =
  st_Id :: nat
  st_InputDatasets :: "nat list"
  st_OutputDataset :: "nat option"
  st_Instruction :: "Instruction option"
  st_Tasks :: "Task list"
  st_Name :: string
  st_Description :: string
  st_NetworkType :: NetworkType
  st_IsOnDriverSide :: bool
  st_IsPipe :: bool
  st_IsGoCode :: bool
  st_Command :: "Command option"
  st_IsRestartable :: bool
  st_IsIdempotent :: bool

record Flow =
  fl_Name :: string
  fl_Steps :: "Step list"
  fl_Datasets :: "Dataset list"
  fl_HashCode :: "32 word"

section \<open>Computations on a flow\<close>

type_synonym 'a flow_m = "Flow \<Rightarrow> ('a \<times> Flow) go"

definition fret :: "'a \<Rightarrow> 'a flow_m" where
  "fret x = (\<lambda>f. Inr (x, f))"

definition fbind :: "'a flow_m \<Rightarrow> ('a \<Rightarrow> 'b flow_m) \<Rightarrow> 'b flow_m" where
  "fbind m k = (\<lambda>f. gbind (m f) (\<lambda>(x, f'). k x f'))"

definition fget :: "(Flow \<Rightarrow> 'a) \<Rightarrow> 'a flow_m" where
  "fget g = (\<lambda>f. Inr (g f, f))"

definition fmod :: "(Flow \<Rightarrow> Flow) \<Rightarrow> unit flow_m" where
  "fmod h = (\<lambda>f. Inr ((), h f))"

definition flift :: "'a go \<Rightarrow> 'a flow_m" where
  "flift r = (\<lambda>f. gbind r (\<lambda>x. Inr (x, f)))"

fun ffor :: "'b list \<Rightarrow> ('b \<Rightarrow> unit flow_m) \<Rightarrow> unit flow_m" where
  "ffor [] body = fret ()"
| "ffor (x # xs) body = fbind (body x) (\<lambda>_. ffor xs body)"

definition dataset :: "Flow \<Rightarrow> nat \<Rightarrow> Dataset" where
  "dataset f d = fl_Datasets f ! d"

definition step :: "Flow \<Rightarrow> nat \<Rightarrow> Step" where
  "step f s = fl_Steps f ! s"

definition shards :: "Flow \<Rightarrow> nat \<Rightarrow> nat" where
  "shards f d = length (ds_Shards (dataset f d))"

definition set_dataset :: "nat \<Rightarrow> (Dataset \<Rightarrow> Dataset) \<Rightarrow> Flow \<Rightarrow> Flow" where
  "set_dataset d h f = f\<lparr>fl_Datasets := (fl_Datasets f)[d := h (dataset f d)]\<rparr>"

definition set_step :: "nat \<Rightarrow> (Step \<Rightarrow> Step) \<Rightarrow> Flow \<Rightarrow> Flow" where
  "set_step s h f = f\<lparr>fl_Steps := (fl_Steps f)[s := h (step f s)]\<rparr>"

text \<open>\<^verbatim>\<open>d.GetShards()[i]\<close>\<close>

definition shard_at :: "nat \<Rightarrow> int \<Rightarrow> shard_ref flow_m" where
  "shard_at d i = (\<lambda>f. if 0 \<le> i \<and> i < int (shards f d) then Inr ((d, nat i), f) else Inl PanicIndex)"

section \<open>Steps, tasks and shards\<close>

definition New :: "string \<Rightarrow> 32 word \<Rightarrow> Flow" where
  "New name hashCode = \<lparr>fl_Name = name, fl_Steps = [], fl_Datasets = [], fl_HashCode = hashCode\<rparr>"

definition newDataset :: "nat flow_m" where
  "newDataset = (\<lambda>f. Inr (length (fl_Datasets f),
     f\<lparr>fl_Datasets := fl_Datasets f @ [\<lparr>ds_Id = length (fl_Datasets f), ds_Shards = [], ds_Step = None, ds_ReadingSteps = [],
       ds_IsPartitionedBy = [], ds_IsLocalSorted = [], ds_TotalSize = - 1, ds_OnDisk = ModeInMemory\<rparr>]\<rparr>))"

definition setupDatasetShard :: "nat \<Rightarrow> int \<Rightarrow> unit flow_m" where
  "setupDatasetShard d n =
     fmod (set_dataset d (\<lambda>ds. ds\<lparr>ds_Shards := ds_Shards ds @ replicate (nat n) \<lparr>sh_ReadingTasks = []\<rparr>\<rparr>))"

definition NewNextDataset :: "int \<Rightarrow> nat flow_m" where
  "NewNextDataset shardSize = fbind newDataset (\<lambda>ret. fbind (setupDatasetShard ret shardSize) (\<lambda>_. fret ret))"

definition NewStep :: "nat flow_m" where
  "NewStep = (\<lambda>f. Inr (length (fl_Steps f),
     f\<lparr>fl_Steps := fl_Steps f @ [\<lparr>st_Id = length (fl_Steps f), st_InputDatasets = [], st_OutputDataset = None,
       st_Instruction = None, st_Tasks = [], st_Name = [], st_Description = [], st_NetworkType = OneShardToOneShard,
       st_IsOnDriverSide = False, st_IsPipe = False, st_IsGoCode = False, st_Command = None,
       st_IsRestartable = False, st_IsIdempotent = True\<rparr>]\<rparr>))"

definition NewTask :: "nat \<Rightarrow> task_ref flow_m" where
  "NewTask s = (\<lambda>f. let t = length (st_Tasks (step f s)) in
     Inr ((s, t), set_step s (\<lambda>st. st\<lparr>st_Tasks := st_Tasks st @ [\<lparr>tk_Id = t, tk_InputShards = [], tk_OutputShards = []\<rparr>]\<rparr>) f))"

definition SetInstruction :: "nat \<Rightarrow> string \<Rightarrow> Instruction \<Rightarrow> unit flow_m" where
  "SetInstruction s name ins =
     fmod (set_step s (\<lambda>st. st\<lparr>st_Name := Instruction_Name ins name, st_Instruction := Some ins\<rparr>))"

definition fromStepToDataset :: "nat \<Rightarrow> nat option \<Rightarrow> unit flow_m" where
  "fromStepToDataset s output =
     (case output of
        None \<Rightarrow> fret ()
      | Some d \<Rightarrow> fmod (set_step s (\<lambda>st. st\<lparr>st_OutputDataset := Some d\<rparr>) \<circ> set_dataset d (\<lambda>ds. ds\<lparr>ds_Step := Some s\<rparr>)))"

definition fromDatasetToStep :: "nat option \<Rightarrow> nat \<Rightarrow> unit flow_m" where
  "fromDatasetToStep input s =
     (case input of
        None \<Rightarrow> fret ()
      | Some d \<Rightarrow> fmod (set_dataset d (\<lambda>ds. ds\<lparr>ds_ReadingSteps := ds_ReadingSteps ds @ [s]\<rparr>) \<circ>
          set_step s (\<lambda>st. st\<lparr>st_InputDatasets := st_InputDatasets st @ [d]\<rparr>)))"

definition fromDatasetShardToTask :: "shard_ref \<Rightarrow> task_ref \<Rightarrow> unit flow_m" where
  "fromDatasetShardToTask shard task =
     fmod (set_step (fst task) (\<lambda>st. st\<lparr>st_Tasks := (st_Tasks st)[snd task := (st_Tasks st ! snd task)
              \<lparr>tk_InputShards := tk_InputShards (st_Tasks st ! snd task) @ [shard]\<rparr>]\<rparr>) \<circ>
           set_dataset (fst shard) (\<lambda>ds. ds\<lparr>ds_Shards := (ds_Shards ds)[snd shard := (ds_Shards ds ! snd shard)
              \<lparr>sh_ReadingTasks := sh_ReadingTasks (ds_Shards ds ! snd shard) @ [task]\<rparr>]\<rparr>))"

definition fromTaskToDatasetShard :: "task_ref \<Rightarrow> shard_ref \<Rightarrow> unit flow_m" where
  "fromTaskToDatasetShard task shard =
     fmod (set_step (fst task) (\<lambda>st. st\<lparr>st_Tasks := (st_Tasks st)[snd task := (st_Tasks st ! snd task)
              \<lparr>tk_OutputShards := tk_OutputShards (st_Tasks st ! snd task) @ [shard]\<rparr>]\<rparr>))"

section \<open>Networks\<close>

definition new_step :: "NetworkType \<Rightarrow> nat option list \<Rightarrow> nat option \<Rightarrow> nat flow_m" where
  "new_step network inputs output =
     fbind NewStep (\<lambda>s.
     fbind (fmod (set_step s (\<lambda>st. st\<lparr>st_NetworkType := network\<rparr>))) (\<lambda>_.
     fbind (fromStepToDataset s output) (\<lambda>_.
     fbind (ffor inputs (\<lambda>input. fromDatasetToStep input s)) (\<lambda>_. fret s))))"

definition AddOneToOneStep :: "nat option \<Rightarrow> nat option \<Rightarrow> nat flow_m" where
  "AddOneToOneStep input output =
     fbind (new_step OneShardToOneShard [input] output) (\<lambda>s.
     fbind (fget (\<lambda>f. case output of None \<Rightarrow> False | Some d \<Rightarrow> shards f d \<noteq> 0)) (\<lambda>hasOutput.
     fbind (case input of
       None \<Rightarrow>
         fbind (NewTask s) (\<lambda>task.
           if hasOutput then fbind (shard_at (the output) 0) (fromTaskToDatasetShard task) else fret ())
     | Some d \<Rightarrow>
         fbind (fget (\<lambda>f. shards f d)) (\<lambda>n.
         ffor [0..<n] (\<lambda>i.
           fbind (NewTask s) (\<lambda>task.
           fbind (if hasOutput then fbind (shard_at (the output) (int i)) (fromTaskToDatasetShard task) else fret ()) (\<lambda>_.
             fromDatasetShardToTask (d, i) task)))))
     (\<lambda>_. fret s)))"

definition AddAllToOneStep :: "nat \<Rightarrow> nat option \<Rightarrow> nat flow_m" where
  "AddAllToOneStep input output =
     fbind (new_step AllShardToOneShard [Some input] output) (\<lambda>s.
     fbind (NewTask s) (\<lambda>task.
     fbind (case output of None \<Rightarrow> fret () | Some d \<Rightarrow> fbind (shard_at d 0) (fromTaskToDatasetShard task)) (\<lambda>_.
     fbind (fget (\<lambda>f. shards f input)) (\<lambda>n.
     fbind (ffor [0..<n] (\<lambda>i. fromDatasetShardToTask (input, i) task)) (\<lambda>_. fret s)))))"

definition AddOneToAllStep :: "nat option \<Rightarrow> nat \<Rightarrow> nat flow_m" where
  "AddOneToAllStep input output =
     fbind (new_step OneShardToAllShard [input] (Some output)) (\<lambda>s.
     fbind (NewTask s) (\<lambda>task.
     fbind (case input of None \<Rightarrow> fret () | Some d \<Rightarrow> fbind (shard_at d 0) (\<lambda>shard. fromDatasetShardToTask shard task)) (\<lambda>_.
     fbind (fget (\<lambda>f. shards f output)) (\<lambda>n.
     fbind (ffor [0..<n] (\<lambda>i. fromTaskToDatasetShard task (output, i))) (\<lambda>_. fret s)))))"

definition AddAllToAllStep :: "nat \<Rightarrow> nat \<Rightarrow> nat flow_m" where
  "AddAllToAllStep input output =
     fbind (new_step AllShardTOAllShard [Some input] (Some output)) (\<lambda>s.
     fbind (NewTask s) (\<lambda>task.
     fbind (fget (\<lambda>f. shards f input)) (\<lambda>n.
     fbind (ffor [0..<n] (\<lambda>i. fromDatasetShardToTask (input, i) task)) (\<lambda>_.
     fbind (fget (\<lambda>f. shards f output)) (\<lambda>m.
     fbind (ffor [0..<m] (\<lambda>i. fromTaskToDatasetShard task (output, i))) (\<lambda>_. fret s))))))"

definition AddOneToEveryNStep :: "nat \<Rightarrow> int \<Rightarrow> nat \<Rightarrow> nat flow_m" where
  "AddOneToEveryNStep input n output =
     fbind (new_step OneShardToEveryNShard [Some input] (Some output)) (\<lambda>s.
     fbind (fget (\<lambda>f. shards f input)) (\<lambda>m.
     fbind (ffor [0..<m] (\<lambda>i.
       fbind (NewTask s) (\<lambda>task.
       fbind (ffor [0..<nat n] (\<lambda>k. fbind (shard_at output (int (k * m + i))) (fromTaskToDatasetShard task))) (\<lambda>_.
         fromDatasetShardToTask (input, i) task)))) (\<lambda>_. fret s)))"

definition AddLinkedNToOneStep :: "nat \<Rightarrow> int \<Rightarrow> nat \<Rightarrow> nat flow_m" where
  "AddLinkedNToOneStep input m output =
     fbind (new_step LinkedNShardToOneShard [Some input] (Some output)) (\<lambda>s.
     fbind (fget (\<lambda>f. shards f output)) (\<lambda>n.
     fbind (ffor [0..<n] (\<lambda>i.
       fbind (NewTask s) (\<lambda>task.
       fbind (fromTaskToDatasetShard task (output, i)) (\<lambda>_.
         ffor [0..<nat m] (\<lambda>k. fbind (shard_at input (int i * m + int k)) (\<lambda>shard. fromDatasetShardToTask shard task)))))) (\<lambda>_. fret s)))"

definition MergeDatasets1ShardTo1Step :: "nat list \<Rightarrow> nat option \<Rightarrow> nat flow_m" where
  "MergeDatasets1ShardTo1Step inputs output =
     fbind (new_step MergeTwoShardToOneShard (map Some inputs) output) (\<lambda>s.
     fbind (case output of
       None \<Rightarrow> fret ()
     | Some d \<Rightarrow>
         fbind (fget (\<lambda>f. shards f d)) (\<lambda>n.
         ffor [0..<n] (\<lambda>shardId.
           fbind (NewTask s) (\<lambda>task.
           fbind (ffor inputs (\<lambda>input. fbind (shard_at input (int shardId)) (\<lambda>shard. fromDatasetShardToTask shard task))) (\<lambda>_.
             fromTaskToDatasetShard task (d, shardId))))))
     (\<lambda>_. fret s))"

section \<open>What the building blocks do\<close>

named_theorems flow_eval

lemma fret_apply [flow_eval]: "fret x f = Inr (x, f)"
  by (simp add: fret_def)

lemma fbind_apply [flow_eval]: "fbind m k f = gbind (m f) (\<lambda>(x, f'). k x f')"
  by (simp add: fbind_def)

lemma fget_apply [flow_eval]: "fget g f = Inr (g f, f)"
  by (simp add: fget_def)

lemma fmod_apply [flow_eval]: "fmod h f = Inr ((), h f)"
  by (simp add: fmod_def)

lemma flift_apply [flow_eval]: "flift (Inr x) f = Inr (x, f)" "flift (Inl p) f = Inl p"
  by (simp_all add: flift_def)

lemma shard_at_apply [flow_eval]: "0 \<le> i \<Longrightarrow> i < int (shards f d) \<Longrightarrow> shard_at d i f = Inr ((d, nat i), f)"
  by (simp add: shard_at_def)

lemma shard_at_panics: "\<not> (0 \<le> i \<and> i < int (shards f d)) \<Longrightarrow> shard_at d i f = Inl PanicIndex"
  by (simp add: shard_at_def)

text \<open>Building a step changes neither the number of datasets nor that of their shards.\<close>

definition agree :: "Flow \<Rightarrow> Flow \<Rightarrow> bool" where
  "agree f f' \<longleftrightarrow> length (fl_Datasets f') = length (fl_Datasets f) \<and> (\<forall>d. shards f' d = shards f d) \<and>
     (\<forall>d. ds_IsLocalSorted (dataset f' d) = ds_IsLocalSorted (dataset f d)) \<and>
     (\<forall>d. ds_IsPartitionedBy (dataset f' d) = ds_IsPartitionedBy (dataset f d))"

lemma agree_refl [simp]: "agree f f"
  by (simp add: agree_def)

lemma agree_trans: "agree f g \<Longrightarrow> agree g h \<Longrightarrow> agree f h"
  by (simp add: agree_def)

lemma agree_shards: "agree f f' \<Longrightarrow> shards f' d = shards f d"
  by (simp add: agree_def)

lemma agree_set_step [simp]: "agree f (set_step s h f')  = agree f f'" "agree (set_step s h f) f' = agree f f'"
  by (simp_all add: agree_def set_step_def shards_def dataset_def)

lemma dataset_set_dataset:
  "dataset (set_dataset d h f) e = (if e = d \<and> d < length (fl_Datasets f) then h (dataset f d) else dataset f e)"
  by (cases "d < length (fl_Datasets f)") (auto simp: dataset_def set_dataset_def list_update_beyond)

lemma agree_set_dataset:
  assumes "\<And>ds. length (ds_Shards (h ds)) = length (ds_Shards ds)" "\<And>ds. ds_IsLocalSorted (h ds) = ds_IsLocalSorted ds"
    and "\<And>ds. ds_IsPartitionedBy (h ds) = ds_IsPartitionedBy ds"
  shows "agree f (set_dataset d h f)"
  using assms by (simp add: agree_def shards_def dataset_set_dataset) (simp add: set_dataset_def)

lemma set_step_steps [simp]: "fl_Steps (set_step s h f) = (fl_Steps f)[s := h (step f s)]"
  by (simp add: set_step_def)

lemma set_dataset_steps [simp]: "fl_Steps (set_dataset d h f) = fl_Steps f"
  by (simp add: set_dataset_def)

lemma step_set_dataset [simp]: "step (set_dataset d h f) s = step f s"
  by (simp add: step_def)

lemma step_steps: "fl_Steps f' = fl_Steps f \<Longrightarrow> step f' s = step f s"
  by (simp add: step_def)

text \<open>\<open>with_tasks s ts f f'\<close>: \<open>f'\<close> is \<open>f\<close> with the tasks \<open>ts\<close> in step \<open>s\<close>.\<close>

definition with_tasks :: "nat \<Rightarrow> Task list \<Rightarrow> Flow \<Rightarrow> Flow \<Rightarrow> bool" where
  "with_tasks s ts f f' \<longleftrightarrow> agree f f' \<and> fl_Steps f' = (fl_Steps f)[s := (step f s)\<lparr>st_Tasks := ts\<rparr>]"

lemma with_tasks_step: "with_tasks s ts f f' \<Longrightarrow> s < length (fl_Steps f) \<Longrightarrow> st_Tasks (step f' s) = ts \<and> s < length (fl_Steps f')"
  by (simp add: with_tasks_def step_def)

lemma with_tasks_trans:
  assumes "with_tasks s ts f g" "with_tasks s us g h" "s < length (fl_Steps f)"
  shows "with_tasks s us f h"
  using assms by (auto simp: with_tasks_def step_def intro: agree_trans)

lemma with_tasks_refl: "st_Tasks (step f s) = ts \<Longrightarrow> with_tasks s ts f f"
proof -
  assume "st_Tasks (step f s) = ts"
  then have "(step f s)\<lparr>st_Tasks := ts\<rparr> = fl_Steps f ! s" by (cases "step f s") (auto simp: step_def)
  then show ?thesis by (simp add: with_tasks_def)
qed

lemma NewTask_ok:
  assumes "s < length (fl_Steps f)"
  obtains f' where "NewTask s f = Inr ((s, length (st_Tasks (step f s))), f')"
    "with_tasks s (st_Tasks (step f s) @ [\<lparr>tk_Id = length (st_Tasks (step f s)), tk_InputShards = [], tk_OutputShards = []\<rparr>]) f f'"
  using that by (simp add: NewTask_def Let_def with_tasks_def)

lemma read_ok:
  assumes "t < length (st_Tasks (step f s))"
  obtains f' where "fromDatasetShardToTask shard (s, t) f = Inr ((), f')"
    "with_tasks s ((st_Tasks (step f s))[t := (st_Tasks (step f s) ! t)\<lparr>tk_InputShards := tk_InputShards (st_Tasks (step f s) ! t) @ [shard]\<rparr>]) f f'"
  using that by (simp add: fromDatasetShardToTask_def fmod_apply with_tasks_def agree_set_dataset)

lemma write_ok:
  obtains f' where "fromTaskToDatasetShard (s, t) shard f = Inr ((), f')"
    "with_tasks s ((st_Tasks (step f s))[t := (st_Tasks (step f s) ! t)\<lparr>tk_OutputShards := tk_OutputShards (st_Tasks (step f s) ! t) @ [shard]\<rparr>]) f f'"
  using that by (simp add: fromTaskToDatasetShard_def fmod_apply with_tasks_def)

lemma ffor_Cons: "body x f = Inr ((), f1) \<Longrightarrow> ffor (x # xs) body f = ffor xs body f1"
  by (simp add: fbind_apply)

lemma reads_ok:
  assumes "\<forall>k\<in>set ks. 0 \<le> g k \<and> g k < int (shards f (d k))" "s < length (fl_Steps f)" "st_Tasks (step f s) = ts @ [task]"
  shows "\<exists>f'. ffor ks (\<lambda>k. fbind (shard_at (d k) (g k)) (\<lambda>shard. fromDatasetShardToTask shard (s, length ts))) f = Inr ((), f') \<and>
    with_tasks s (ts @ [task\<lparr>tk_InputShards := tk_InputShards task @ map (\<lambda>k. (d k, nat (g k))) ks\<rparr>]) f f'"
  using assms
proof (induction ks arbitrary: f task)
  case Nil
  then show ?case by (simp add: fret_apply with_tasks_def step_def list_update_same_conv flip: Nil.prems(3))
next
  case (Cons k ks)
  let ?task = "task\<lparr>tk_InputShards := tk_InputShards task @ [(d k, nat (g k))]\<rparr>"
  have t: "length ts < length (st_Tasks (step f s))" using Cons.prems(3) by simp
  obtain f1 where f1: "fromDatasetShardToTask (d k, nat (g k)) (s, length ts) f = Inr ((), f1)" "with_tasks s (ts @ [?task]) f f1"
    using read_ok [OF t, of "(d k, nat (g k))"] Cons.prems(3) by auto
  have s1: "st_Tasks (step f1 s) = ts @ [?task]" "s < length (fl_Steps f1)"
    using with_tasks_step [OF f1(2) Cons.prems(2)] by simp_all
  have sh: "\<forall>k\<in>set ks. 0 \<le> g k \<and> g k < int (shards f1 (d k))"
    using Cons.prems(1) f1(2) by (simp add: with_tasks_def agree_def)
  from Cons.IH [OF sh s1(2,1)] obtain f' where
    f': "ffor ks (\<lambda>k. fbind (shard_at (d k) (g k)) (\<lambda>shard. fromDatasetShardToTask shard (s, length ts))) f1 = Inr ((), f')"
    "with_tasks s (ts @ [?task\<lparr>tk_InputShards := tk_InputShards ?task @ map (\<lambda>k. (d k, nat (g k))) ks\<rparr>]) f1 f'" by blast
  have "with_tasks s (ts @ [?task\<lparr>tk_InputShards := tk_InputShards ?task @ map (\<lambda>k. (d k, nat (g k))) ks\<rparr>]) f f'"
    by (rule with_tasks_trans [OF f1(2) f'(2) Cons.prems(2)])
  moreover have "fbind (shard_at (d k) (g k)) (\<lambda>shard. fromDatasetShardToTask shard (s, length ts)) f = Inr ((), f1)"
    using f1(1) Cons.prems(1) by (simp add: fbind_apply shard_at_apply)
  ultimately show ?case using f'(1) by (subst ffor_Cons) auto
qed

lemma writes_ok:
  assumes "\<forall>k\<in>set ks. 0 \<le> g k \<and> g k < int (shards f d)" "s < length (fl_Steps f)" "st_Tasks (step f s) = ts @ [task]"
  shows "\<exists>f'. ffor ks (\<lambda>k. fbind (shard_at d (g k)) (fromTaskToDatasetShard (s, length ts))) f = Inr ((), f') \<and>
    with_tasks s (ts @ [task\<lparr>tk_OutputShards := tk_OutputShards task @ map (\<lambda>k. (d, nat (g k))) ks\<rparr>]) f f'"
  using assms
proof (induction ks arbitrary: f task)
  case Nil
  then show ?case by (simp add: fret_apply with_tasks_def step_def list_update_same_conv flip: Nil.prems(3))
next
  case (Cons k ks)
  let ?task = "task\<lparr>tk_OutputShards := tk_OutputShards task @ [(d, nat (g k))]\<rparr>"
  obtain f1 where f1: "fromTaskToDatasetShard (s, length ts) (d, nat (g k)) f = Inr ((), f1)" "with_tasks s (ts @ [?task]) f f1"
    using write_ok [of s "length ts" "(d, nat (g k))" f] Cons.prems(3) by auto
  have s1: "st_Tasks (step f1 s) = ts @ [?task]" "s < length (fl_Steps f1)"
    using with_tasks_step [OF f1(2) Cons.prems(2)] by simp_all
  have sh: "\<forall>k\<in>set ks. 0 \<le> g k \<and> g k < int (shards f1 d)"
    using Cons.prems(1) f1(2) by (simp add: with_tasks_def agree_def)
  from Cons.IH [OF sh s1(2,1)] obtain f' where
    f': "ffor ks (\<lambda>k. fbind (shard_at d (g k)) (fromTaskToDatasetShard (s, length ts))) f1 = Inr ((), f')"
    "with_tasks s (ts @ [?task\<lparr>tk_OutputShards := tk_OutputShards ?task @ map (\<lambda>k. (d, nat (g k))) ks\<rparr>]) f1 f'" by blast
  have "with_tasks s (ts @ [?task\<lparr>tk_OutputShards := tk_OutputShards ?task @ map (\<lambda>k. (d, nat (g k))) ks\<rparr>]) f f'"
    by (rule with_tasks_trans [OF f1(2) f'(2) Cons.prems(2)])
  moreover have "fbind (shard_at d (g k)) (fromTaskToDatasetShard (s, length ts)) f = Inr ((), f1)"
    using f1(1) Cons.prems(1) by (simp add: fbind_apply shard_at_apply)
  ultimately show ?case using f'(1) by (subst ffor_Cons) auto
qed

text \<open>A loop whose every iteration adds one task.\<close>

lemma build_tasks:
  assumes "\<And>i f. i < n \<Longrightarrow> s < length (fl_Steps f) \<Longrightarrow> agree f0 f \<Longrightarrow> length (st_Tasks (step f s)) = i \<Longrightarrow>
      \<exists>f'. body i f = Inr ((), f') \<and> with_tasks s (st_Tasks (step f s) @ [T i]) f f'"
    and "s < length (fl_Steps f0)" "st_Tasks (step f0 s) = []"
  shows "\<exists>f'. ffor [0..<n] body f0 = Inr ((), f') \<and> with_tasks s (map T [0..<n]) f0 f'"
proof -
  have "\<exists>f'. ffor [i..<n] body f = Inr ((), f') \<and> with_tasks s (map T [0..<n]) f0 f'"
    if "i \<le> n" "with_tasks s (map T [0..<i]) f0 f" for i f
    using that
  proof (induction "n - i" arbitrary: i f)
    case 0
    then show ?case by (auto simp: fret_apply)
  next
    case (Suc k)
    then have i: "i < n" by simp
    have f: "s < length (fl_Steps f)" "st_Tasks (step f s) = map T [0..<i]" "agree f0 f"
      using with_tasks_step [OF Suc.prems(2) assms(2)] Suc.prems(2) by (auto simp: with_tasks_def)
    then obtain f1 where f1: "body i f = Inr ((), f1)" "with_tasks s (st_Tasks (step f s) @ [T i]) f f1"
      using assms(1) [OF i f(1,3)] by auto
    have "with_tasks s (map T [0..<Suc i]) f0 f1"
      using with_tasks_trans [OF Suc.prems(2) f1(2) assms(2)] f(2) by simp
    moreover have "k = n - Suc i" using Suc.hyps(2) by simp
    ultimately obtain f' where
      "ffor [Suc i..<n] body f1 = Inr ((), f')" "with_tasks s (map T [0..<n]) f0 f'"
      using Suc.hyps(1) [of "Suc i" f1] i by auto
    then show ?case using i f1(1) by (auto simp: upt_conv_Cons ffor_Cons simp del: ffor.simps)
  qed
  moreover have "with_tasks s (map T [0..<0]) f0 f0"
    using assms(3) by (simp add: with_tasks_refl)
  ultimately show ?thesis by blast
qed

lemma new_step_ok:
  obtains f' where "new_step network inputs output f = Inr (length (fl_Steps f), f')" "agree f f'"
    "length (fl_Steps f') = Suc (length (fl_Steps f))" "st_Tasks (step f' (length (fl_Steps f))) = []"
    "\<forall>s<length (fl_Steps f). fl_Steps f' ! s = fl_Steps f ! s"
    "st_OutputDataset (step f' (length (fl_Steps f))) = output"
proof -
  let ?s = "length (fl_Steps f)"
  let ?P = "\<lambda>g. agree f g \<and> length (fl_Steps g) = Suc ?s \<and> st_Tasks (step g ?s) = [] \<and>
      (\<forall>s<?s. fl_Steps g ! s = fl_Steps f ! s) \<and> st_OutputDataset (step g ?s) = output"
  have inner: "\<exists>g'. ffor ins (\<lambda>input. fromDatasetToStep input ?s) g = Inr ((), g') \<and> ?P g'" if "?P g" for ins g
    using that
  proof (induction ins arbitrary: g)
    case Nil
    then show ?case by (auto simp: fret_apply)
  next
    case (Cons input ins)
    obtain g1 where g1: "fromDatasetToStep input ?s g = Inr ((), g1)" "?P g1"
    proof (cases input)
      case None
      then show ?thesis using that Cons.prems by (simp add: fromDatasetToStep_def fret_apply)
    next
      case (Some d)
      let ?g = "set_dataset d (\<lambda>ds. ds\<lparr>ds_ReadingSteps := ds_ReadingSteps ds @ [?s]\<rparr>)
          (set_step ?s (\<lambda>st. st\<lparr>st_InputDatasets := st_InputDatasets st @ [d]\<rparr>) g)"
      have "agree (set_step ?s (\<lambda>st. st\<lparr>st_InputDatasets := st_InputDatasets st @ [d]\<rparr>) g) ?g" by (rule agree_set_dataset) simp_all
      then have "?P ?g" using Cons.prems agree_trans [of f g ?g] by (simp add: step_def nth_list_update)
      then show ?thesis using that Some by (simp add: fromDatasetToStep_def fmod_apply)
    qed
    from Cons.IH [OF g1(2)] g1(1) show ?case by (auto simp: ffor_Cons simp del: ffor.simps)
  qed
  let ?f0 = "f\<lparr>fl_Steps := fl_Steps f @ [\<lparr>st_Id = ?s, st_InputDatasets = [], st_OutputDataset = None,
       st_Instruction = None, st_Tasks = [], st_Name = [], st_Description = [], st_NetworkType = OneShardToOneShard,
       st_IsOnDriverSide = False, st_IsPipe = False, st_IsGoCode = False, st_Command = None,
       st_IsRestartable = False, st_IsIdempotent = True\<rparr>]\<rparr>"
  let ?f1 = "set_step ?s (\<lambda>st. st\<lparr>st_NetworkType := network\<rparr>) ?f0"
  have f1: "agree f ?f1" by (simp add: agree_def shards_def dataset_def set_step_def)
  obtain g where g: "fromStepToDataset ?s output ?f1 = Inr ((), g)" "?P g"
  proof (cases "output")
    case None
    then show ?thesis using that f1
      by (simp add: fromStepToDataset_def fret_apply step_def nth_append nth_list_update)
  next
    case (Some d)
    have "agree ?f1 (set_dataset d (\<lambda>ds. ds\<lparr>ds_Step := Some ?s\<rparr>) ?f1)" by (rule agree_set_dataset) simp_all
    with f1 have "agree f (set_dataset d (\<lambda>ds. ds\<lparr>ds_Step := Some ?s\<rparr>) ?f1)" by (rule agree_trans)
    then show ?thesis using that Some
      by (simp add: fromStepToDataset_def fmod_apply step_def nth_append nth_list_update)
  qed
  from inner [OF g(2), of inputs] obtain g' where "ffor inputs (\<lambda>input. fromDatasetToStep input ?s) g = Inr ((), g')" "?P g'" by blast
  then show thesis using that [of g'] g(1) by (simp add: new_step_def flow_eval NewStep_def)
qed

text \<open>\<open>network_ok\<close>: the call added one step with the tasks \<open>ts\<close> and left the rest alone.\<close>

definition network_ok :: "Task list \<Rightarrow> nat option \<Rightarrow> Flow \<Rightarrow> (nat \<times> Flow) go \<Rightarrow> bool" where
  "network_ok ts output f r \<longleftrightarrow> (\<exists>f'. r = Inr (length (fl_Steps f), f') \<and> agree f f' \<and>
     length (fl_Steps f') = Suc (length (fl_Steps f)) \<and> (\<forall>s<length (fl_Steps f). fl_Steps f' ! s = fl_Steps f ! s) \<and>
     st_Tasks (step f' (length (fl_Steps f))) = ts \<and> st_OutputDataset (step f' (length (fl_Steps f))) = output)"

lemma network_okI:
  assumes "new_step network inputs output f = Inr (length (fl_Steps f), f0)" "agree f f0"
    and "length (fl_Steps f0) = Suc (length (fl_Steps f))" "\<forall>s<length (fl_Steps f). fl_Steps f0 ! s = fl_Steps f ! s"
    and "st_OutputDataset (step f0 (length (fl_Steps f))) = output"
    and "with_tasks (length (fl_Steps f)) ts f0 f'" "r = Inr (length (fl_Steps f), f')"
  shows "network_ok ts output f r"
  using assms unfolding network_ok_def
  by (intro exI [of _ f']) (auto simp: with_tasks_def step_def nth_list_update intro: agree_trans)

lemma AddOneToEveryNStep_ok:
  assumes "m = shards f input" "shards f out = m * n"
  shows "network_ok (map (\<lambda>i. \<lparr>tk_Id = i, tk_InputShards = [(input, i)], tk_OutputShards = map (\<lambda>k. (out, k * m + i)) [0..<n]\<rparr>) [0..<m])
    (Some out) f (AddOneToEveryNStep input (int n) out f)"
proof -
  let ?s = "length (fl_Steps f)"
  let ?T = "\<lambda>i. \<lparr>tk_Id = i, tk_InputShards = [(input, i)], tk_OutputShards = map (\<lambda>k. (out, k * m + i)) [0..<n]\<rparr>"
  obtain f0 where f0: "new_step OneShardToEveryNShard [Some input] (Some out) f = Inr (?s, f0)" "agree f f0"
    "length (fl_Steps f0) = Suc ?s" "st_Tasks (step f0 ?s) = []" "\<forall>s<?s. fl_Steps f0 ! s = fl_Steps f ! s"
    "st_OutputDataset (step f0 ?s) = Some out"
    by (rule new_step_ok)
  let ?body = "\<lambda>i. fbind (NewTask ?s) (\<lambda>task.
       fbind (ffor [0..<nat (int n)] (\<lambda>k. fbind (shard_at out (int (k * m + i))) (fromTaskToDatasetShard task))) (\<lambda>_.
         fromDatasetShardToTask (input, i) task))"
  have "\<exists>f'. ffor [0..<m] ?body f0 = Inr ((), f') \<and> with_tasks ?s (map ?T [0..<m]) f0 f'"
  proof (rule build_tasks)
    fix i g assume i: "i < m" and g: "?s < length (fl_Steps g)" "agree f0 g" "length (st_Tasks (step g ?s)) = i"
    let ?ts = "st_Tasks (step g ?s)"
    obtain g1 where g1: "NewTask ?s g = Inr ((?s, i), g1)"
      "with_tasks ?s (?ts @ [\<lparr>tk_Id = i, tk_InputShards = [], tk_OutputShards = []\<rparr>]) g g1"
      using NewTask_ok [OF g(1)] g(3) by metis
    note s1 = with_tasks_step [OF g1(2) g(1)]
    have "k * m + i < m * n" if "k < n" for k
    proof -
      have "k * m + i < Suc k * m" using i by simp
      also have "\<dots> \<le> n * m" using that by (intro mult_le_mono1) simp
      finally show ?thesis by (simp add: mult.commute)
    qed
    moreover have sh: "shards g1 out = m * n" using f0(2) g(2) g1(2) assms(2) by (simp add: agree_def with_tasks_def)
    ultimately have w: "\<forall>k\<in>set [0..<nat (int n)]. 0 \<le> int (k * m + i) \<and> int (k * m + i) < int (shards g1 out)"
      by (simp del: of_nat_add of_nat_mult)
    let ?new = "\<lparr>tk_Id = i, tk_InputShards = [], tk_OutputShards = []\<rparr>"
    let ?wired = "\<lparr>tk_Id = i, tk_InputShards = [], tk_OutputShards = map (\<lambda>k. (out, k * m + i)) [0..<n]\<rparr>"
    have "?new\<lparr>tk_OutputShards := tk_OutputShards ?new @ map (\<lambda>k. (out, nat (int (k * m + i)))) [0..<nat (int n)]\<rparr> = ?wired"
      by (simp del: of_nat_add of_nat_mult)
    then obtain g2 where
      g2: "ffor [0..<nat (int n)] (\<lambda>k. fbind (shard_at out (int (k * m + i))) (fromTaskToDatasetShard (?s, i))) g1 = Inr ((), g2)"
      "with_tasks ?s (?ts @ [?wired]) g1 g2"
      using writes_ok [OF w, of ?s ?ts ?new] s1 unfolding g(3) by metis
    have s2: "st_Tasks (step g2 ?s) = ?ts @ [?wired]" using with_tasks_step [OF g2(2)] s1 by blast
    obtain g3 where g3: "fromDatasetShardToTask (input, i) (?s, i) g2 = Inr ((), g3)" "with_tasks ?s (?ts @ [?T i]) g2 g3"
      using read_ok [of i g2 ?s "(input, i)"] unfolding s2 using g(3) by (auto simp: nth_append list_update_append)
    have "with_tasks ?s (?ts @ [?T i]) g g3"
      using with_tasks_trans [OF with_tasks_trans [OF g1(2) g2(2) g(1)] g3(2) g(1)] .
    then show "\<exists>g'. ?body i g = Inr ((), g') \<and> with_tasks ?s (?ts @ [?T i]) g g'"
      using g1(1) g2(1) g3(1) by (auto simp: fbind_apply)
  qed (use f0 in simp_all)
  then obtain f' where f': "ffor [0..<m] ?body f0 = Inr ((), f')" "with_tasks ?s (map ?T [0..<m]) f0 f'" by blast
  show ?thesis
    by (rule network_okI [OF f0(1,2,3,5,6) f'(2)])
      (use f0(1,2) f'(1) assms(1) in \<open>simp add: AddOneToEveryNStep_def fbind_apply [of "new_step _ _ _"] fbind_apply [of "fget _"]
         fbind_apply [of "ffor _ _"] fget_apply fret_apply agree_shards\<close>)
qed

lemma AddLinkedNToOneStep_ok:
  assumes "n = shards f out" "n * m \<le> shards f input"
  shows "network_ok (map (\<lambda>i. \<lparr>tk_Id = i, tk_InputShards = map (\<lambda>k. (input, i * m + k)) [0..<m], tk_OutputShards = [(out, i)]\<rparr>) [0..<n])
    (Some out) f (AddLinkedNToOneStep input (int m) out f)"
proof -
  let ?s = "length (fl_Steps f)"
  let ?T = "\<lambda>i. \<lparr>tk_Id = i, tk_InputShards = map (\<lambda>k. (input, i * m + k)) [0..<m], tk_OutputShards = [(out, i)]\<rparr>"
  obtain f0 where f0: "new_step LinkedNShardToOneShard [Some input] (Some out) f = Inr (?s, f0)" "agree f f0"
    "length (fl_Steps f0) = Suc ?s" "st_Tasks (step f0 ?s) = []" "\<forall>s<?s. fl_Steps f0 ! s = fl_Steps f ! s"
    "st_OutputDataset (step f0 ?s) = Some out"
    by (rule new_step_ok)
  let ?body = "\<lambda>i. fbind (NewTask ?s) (\<lambda>task. fbind (fromTaskToDatasetShard task (out, i)) (\<lambda>_.
       ffor [0..<nat (int m)] (\<lambda>k. fbind (shard_at input (int i * int m + int k)) (\<lambda>shard. fromDatasetShardToTask shard task))))"
  have "\<exists>f'. ffor [0..<n] ?body f0 = Inr ((), f') \<and> with_tasks ?s (map ?T [0..<n]) f0 f'"
  proof (rule build_tasks)
    fix i g assume i: "i < n" and g: "?s < length (fl_Steps g)" "agree f0 g" "length (st_Tasks (step g ?s)) = i"
    let ?ts = "st_Tasks (step g ?s)"
    let ?new = "\<lparr>tk_Id = i, tk_InputShards = [], tk_OutputShards = []\<rparr>"
    let ?wired = "\<lparr>tk_Id = i, tk_InputShards = [], tk_OutputShards = [(out, i)]\<rparr>"
    obtain g1 where g1: "NewTask ?s g = Inr ((?s, i), g1)" "with_tasks ?s (?ts @ [?new]) g g1"
      using NewTask_ok [OF g(1)] g(3) by metis
    note s1 = with_tasks_step [OF g1(2) g(1)]
    obtain g2 where g2: "fromTaskToDatasetShard (?s, i) (out, i) g1 = Inr ((), g2)" "with_tasks ?s (?ts @ [?wired]) g1 g2"
      using write_ok [of ?s i "(out, i)" g1] s1 g(3) by (auto simp: nth_append list_update_append)
    have s2: "?s < length (fl_Steps g2)" "st_Tasks (step g2 ?s) = ?ts @ [?wired]" using with_tasks_step [OF g2(2)] s1 by blast+
    have "i * m + k < shards f input" if "k < m" for k
    proof -
      have "i * m + k < Suc i * m" using that by simp
      also have "\<dots> \<le> n * m" using i by (intro mult_le_mono1) simp
      finally show ?thesis using assms(2) by simp
    qed
    moreover have "shards g2 input = shards f input" using f0(2) g(2) g1(2) g2(2) by (simp add: agree_def with_tasks_def)
    ultimately have w: "\<forall>k\<in>set [0..<nat (int m)]. 0 \<le> int i * int m + int k \<and> int i * int m + int k < int (shards g2 input)"
      by (simp flip: of_nat_add of_nat_mult)
    have "?wired\<lparr>tk_InputShards := tk_InputShards ?wired @ map (\<lambda>k. (input, nat (int i * int m + int k))) [0..<nat (int m)]\<rparr> = ?T i"
      by (simp flip: of_nat_add of_nat_mult)
    then obtain g3 where
      g3: "ffor [0..<nat (int m)] (\<lambda>k. fbind (shard_at input (int i * int m + int k)) (\<lambda>shard. fromDatasetShardToTask shard (?s, i))) g2 = Inr ((), g3)"
      "with_tasks ?s (?ts @ [?T i]) g2 g3"
      using reads_ok [OF w s2] unfolding g(3) by metis
    have "with_tasks ?s (?ts @ [?T i]) g g3"
      using with_tasks_trans [OF with_tasks_trans [OF g1(2) g2(2) g(1)] g3(2) g(1)] .
    then show "\<exists>g'. ?body i g = Inr ((), g') \<and> with_tasks ?s (?ts @ [?T i]) g g'"
      using g1(1) g2(1) g3(1) by (auto simp: fbind_apply)
  qed (use f0 in simp_all)
  then obtain f' where f': "ffor [0..<n] ?body f0 = Inr ((), f')" "with_tasks ?s (map ?T [0..<n]) f0 f'" by blast
  show ?thesis
    by (rule network_okI [OF f0(1,2,3,5,6) f'(2)])
      (use f0(1,2) f'(1) assms(1) in \<open>simp add: AddLinkedNToOneStep_def fbind_apply [of "new_step _ _ _"] fbind_apply [of "fget _"]
         fbind_apply [of "ffor _ _"] fget_apply fret_apply agree_shards\<close>)
qed

text \<open>
  \<open>keeps p P m\<close>: from a flow with \<open>P\<close> the computation ends in one with \<open>P\<close> or panics with \<open>p\<close>;
  \<open>panics p P m\<close>: it does panic. A loop of which one iteration panics, panics.
\<close>

definition keeps :: "panic \<Rightarrow> (Flow \<Rightarrow> bool) \<Rightarrow> 'a flow_m \<Rightarrow> bool" where
  "keeps p P m \<longleftrightarrow> (\<forall>f. P f \<longrightarrow> m f = Inl p \<or> (\<exists>x f'. m f = Inr (x, f') \<and> P f'))"

definition panics :: "panic \<Rightarrow> (Flow \<Rightarrow> bool) \<Rightarrow> 'a flow_m \<Rightarrow> bool" where
  "panics p P m \<longleftrightarrow> (\<forall>f. P f \<longrightarrow> m f = Inl p)"

lemma keeps_fbind: "keeps p P m \<Longrightarrow> (\<And>x. keeps p P (k x)) \<Longrightarrow> keeps p P (fbind m k)"
  by (fastforce simp: keeps_def fbind_apply)

lemma keeps_ffor: "(\<And>x. keeps p P (body x)) \<Longrightarrow> keeps p P (ffor xs body)"
  by (induction xs) (auto simp: keeps_fbind, simp add: keeps_def fret_apply)

lemma panics_fbind: "keeps p P m \<Longrightarrow> (\<And>x. panics p P (k x)) \<Longrightarrow> panics p P (fbind m k)"
  by (fastforce simp: keeps_def panics_def fbind_apply)

lemma panics_fbind_first: "panics p P m \<Longrightarrow> panics p P (fbind m k)"
  by (simp add: panics_def fbind_apply)

lemma panics_ffor: "(\<And>x. keeps p P (body x)) \<Longrightarrow> x \<in> set xs \<Longrightarrow> panics p P (body x) \<Longrightarrow> panics p P (ffor xs body)"
  by (induction xs) (auto intro: panics_fbind panics_fbind_first)

lemma keeps_network:
  "keeps p (agree f) (NewTask s)" "keeps p (agree f) (fromTaskToDatasetShard task shard)"
  "keeps p (agree f) (fromDatasetShardToTask shard task)" "keeps PanicIndex (agree f) (shard_at d i)"
  using agree_trans [OF _ agree_set_dataset, of f]
  by (auto simp: keeps_def NewTask_def Let_def fromTaskToDatasetShard_def fromDatasetShardToTask_def fmod_apply shard_at_def)

lemma AddLinkedNToOneStep_panics:
  assumes "n = shards f out" "shards f input < n * m"
  shows "AddLinkedNToOneStep input (int m) out f = Inl PanicIndex"
proof -
  let ?s = "length (fl_Steps f)" and ?k = "m - 1"
  obtain f0 where f0: "new_step LinkedNShardToOneShard [Some input] (Some out) f = Inr (?s, f0)" "agree f f0"
    by (rule new_step_ok)
  let ?read = "\<lambda>i task k. fbind (shard_at input (int i * int m + int k)) (\<lambda>shard. fromDatasetShardToTask shard task)"
  let ?body = "\<lambda>i. fbind (NewTask ?s) (\<lambda>task. fbind (fromTaskToDatasetShard task (out, i)) (\<lambda>_. ffor [0..<nat (int m)] (?read i task)))"
  have nm: "0 < n" "0 < m" using assms(2) by (auto intro: gr0I)
  have "n * m = (n - 1) * m + m" using nm(1) by (cases n) simp_all
  with nm(2) assms(2) have last: "shards f input \<le> (n - 1) * m + ?k" by linarith
  then have "panics PanicIndex (agree f) (?read (n - 1) task ?k)" for task
    by (intro panics_fbind_first) (simp add: panics_def agree_shards shard_at_panics flip: of_nat_mult of_nat_add)
  then have "panics PanicIndex (agree f) (ffor [0..<nat (int m)] (?read (n - 1) task))" for task
    using nm(2) by (intro panics_ffor [where x = ?k] keeps_fbind keeps_network) auto
  then have "panics PanicIndex (agree f) (?body (n - 1))"
    by (intro panics_fbind keeps_network)
  then have "panics PanicIndex (agree f) (ffor [0..<n] ?body)"
    using nm(1) by (intro panics_ffor [where x = "n - 1"] keeps_fbind keeps_ffor keeps_network) auto
  then show ?thesis using f0 assms(1)
    by (simp add: AddLinkedNToOneStep_def fbind_apply [of "new_step _ _ _"] fbind_apply [of "fget _"]
         fbind_apply [of "ffor _ _"] fget_apply panics_def agree_shards)
qed

lemma AddOneToOneStep_ok:
  assumes "n = shards f input" "shards f out = n"
  shows "network_ok (map (\<lambda>i. \<lparr>tk_Id = i, tk_InputShards = [(input, i)], tk_OutputShards = [(out, i)]\<rparr>) [0..<n])
    (Some out) f (AddOneToOneStep (Some input) (Some out) f)"
proof -
  let ?s = "length (fl_Steps f)"
  let ?T = "\<lambda>i. \<lparr>tk_Id = i, tk_InputShards = [(input, i)], tk_OutputShards = [(out, i)]\<rparr>"
  obtain f0 where f0: "new_step OneShardToOneShard [Some input] (Some out) f = Inr (?s, f0)" "agree f f0"
    "length (fl_Steps f0) = Suc ?s" "st_Tasks (step f0 ?s) = []" "\<forall>s<?s. fl_Steps f0 ! s = fl_Steps f ! s"
    "st_OutputDataset (step f0 ?s) = Some out"
    by (rule new_step_ok)
  let ?body = "\<lambda>i. fbind (NewTask ?s) (\<lambda>task.
       fbind (if 0 < n then fbind (shard_at out (int i)) (fromTaskToDatasetShard task) else fret ()) (\<lambda>_.
         fromDatasetShardToTask (input, i) task))"
  have "\<exists>f'. ffor [0..<n] ?body f0 = Inr ((), f') \<and> with_tasks ?s (map ?T [0..<n]) f0 f'"
  proof (rule build_tasks)
    fix i g assume i: "i < n" and g: "?s < length (fl_Steps g)" "agree f0 g" "length (st_Tasks (step g ?s)) = i"
    let ?ts = "st_Tasks (step g ?s)"
    let ?new = "\<lparr>tk_Id = i, tk_InputShards = [], tk_OutputShards = []\<rparr>"
    let ?wired = "\<lparr>tk_Id = i, tk_InputShards = [], tk_OutputShards = [(out, i)]\<rparr>"
    obtain g1 where g1: "NewTask ?s g = Inr ((?s, i), g1)" "with_tasks ?s (?ts @ [?new]) g g1"
      using NewTask_ok [OF g(1)] g(3) by metis
    note s1 = with_tasks_step [OF g1(2) g(1)]
    obtain g2 where g2: "fromTaskToDatasetShard (?s, i) (out, i) g1 = Inr ((), g2)" "with_tasks ?s (?ts @ [?wired]) g1 g2"
      using write_ok [of ?s i "(out, i)" g1] s1 g(3) by (auto simp: nth_append list_update_append)
    have s2: "st_Tasks (step g2 ?s) = ?ts @ [?wired]" using with_tasks_step [OF g2(2)] s1 by blast
    obtain g3 where g3: "fromDatasetShardToTask (input, i) (?s, i) g2 = Inr ((), g3)" "with_tasks ?s (?ts @ [?T i]) g2 g3"
      using read_ok [of i g2 ?s "(input, i)"] unfolding s2 using g(3) by (auto simp: nth_append list_update_append)
    have "shards g1 out = n" using f0(2) g(2) g1(2) assms(2) by (simp add: agree_def with_tasks_def)
    moreover have "with_tasks ?s (?ts @ [?T i]) g g3"
      using with_tasks_trans [OF with_tasks_trans [OF g1(2) g2(2) g(1)] g3(2) g(1)] .
    ultimately show "\<exists>g'. ?body i g = Inr ((), g') \<and> with_tasks ?s (?ts @ [?T i]) g g'"
      using g1(1) g2(1) g3(1) i by (auto simp: fbind_apply shard_at_apply)
  qed (use f0 in simp_all)
  then obtain f' where f': "ffor [0..<n] ?body f0 = Inr ((), f')" "with_tasks ?s (map ?T [0..<n]) f0 f'" by blast
  show ?thesis
    by (rule network_okI [OF f0(1,2,3,5,6) f'(2)])
      (use f0(1,2) f'(1) assms in \<open>simp add: AddOneToOneStep_def fbind_apply [of "new_step _ _ _"] fbind_apply [of "fget _"]
         fbind_apply [of "ffor _ _"] fbind_apply [of "fbind (fget _) _"] fget_apply fret_apply agree_shards cong del: if_weak_cong\<close>)
qed

end
