(* ===== verification/FlowDatasets.thy ===== *)
theory FlowDatasets
  imports FlowGraph
begin

text \<open>
  The operations on datasets (\<^verbatim>\<open>flow/dataset_*.go\<close>, \<^verbatim>\<open>context_hint.go\<close>): each adds datasets and steps to
  the flow and returns the resulting dataset.
\<close>

section \<open>Options\<close>

type_synonym SortOption = "OrderBy list"

definition Field :: "int list \<Rightarrow> SortOption" where
  "Field indexes = map (\<lambda>index. \<lparr>ob_Index = index, ob_Order = Ascending\<rparr>) indexes"

definition SortOption_OrderBy :: "int \<Rightarrow> bool \<Rightarrow> SortOption" where
  "SortOption_OrderBy index ascending = [\<lparr>ob_Index = index, ob_Order = if ascending then Ascending else Descending\<rparr>]"

definition SortOption_By :: "SortOption \<Rightarrow> int \<Rightarrow> bool \<Rightarrow> SortOption" where
  "SortOption_By opts index ascending =
     opts @ [\<lparr>ob_Index = index, ob_Order = if ascending then Ascending else Descending\<rparr>]"

definition Indexes :: "SortOption \<Rightarrow> int list" where
  "Indexes opts = map ob_Index opts"

definition SortOption_String :: "SortOption \<Rightarrow> string" where
  "SortOption_String opts =
     concat (map (\<lambda>b. Itoa (ob_Index b) @ '' '' @ (if ob_Order b = Ascending then ''asc'' else ''desc'')) opts)"

definition isOrderByEquals :: "OrderBy list \<Rightarrow> OrderBy list \<Rightarrow> bool" where
  "isOrderByEquals a b \<longleftrightarrow> length a = length b \<and>
     list_all2 (\<lambda>v w. ob_Index v = ob_Index w \<and> ob_Order v = ob_Order w) a b"

definition getReverseOrderBy :: "OrderBy list \<Rightarrow> OrderBy list" where
  "getReverseOrderBy a =
     map (\<lambda>v. \<lparr>ob_Index = ob_Index v, ob_Order = if ob_Order v = Ascending then Descending else Ascending\<rparr>) a"

definition intArrayEquals :: "int list \<Rightarrow> int list \<Rightarrow> bool" where
  "intArrayEquals a b \<longleftrightarrow> a = b"

section \<open>Names and sizes\<close>

definition shard_Name :: "Flow \<Rightarrow> shard_ref \<Rightarrow> string" where
  "shard_Name f s = ''f'' @ Itoa (uint (fl_HashCode f)) @ ''-d'' @ Itoa (int (fst s)) @ ''-s'' @ Itoa (int (snd s))"

definition go_div :: "int \<Rightarrow> int \<Rightarrow> int go" where
  "go_div a b = (if b = 0 then Inl PanicDivide else Inr (sgn a * sgn b * (\<bar>a\<bar> div \<bar>b\<bar>)))"

text \<open>
  The hinted total size, or the sum of those of the inputs, which is remembered. The recursion of an
  acyclic flow is at most as deep as it has datasets; a deeper one is a cycle, on which the program
  runs out of stack.
\<close>

fun total_size :: "nat \<Rightarrow> nat \<Rightarrow> int64 flow_m"
  and total_sizes :: "nat \<Rightarrow> nat list \<Rightarrow> int64 \<Rightarrow> int64 flow_m" where
  "total_size 0 d = flift (Inl PanicFatal)"
| "total_size (Suc fuel) d =
     fbind (fget (\<lambda>f. dataset f d)) (\<lambda>ds.
       if 0 \<le>s ds_TotalSize ds then fret (ds_TotalSize ds)
       else
         case ds_Step ds of
           None \<Rightarrow> flift (Inl PanicNil)
         | Some s \<Rightarrow>
             fbind (fget (\<lambda>f. st_InputDatasets (step f s))) (\<lambda>inputs.
             fbind (total_sizes fuel inputs 0) (\<lambda>n.
             fbind (fmod (set_dataset d (\<lambda>ds. ds\<lparr>ds_TotalSize := n\<rparr>))) (\<lambda>_. fret n))))"
| "total_sizes fuel [] n = fret n"
| "total_sizes fuel (d # inputs) n = fbind (total_size fuel d) (\<lambda>m. total_sizes fuel inputs (n + m))"

definition GetTotalSize :: "nat \<Rightarrow> int64 flow_m" where
  "GetTotalSize d = fbind (fget (\<lambda>f. length (fl_Datasets f))) (\<lambda>n. total_size (Suc n) d)"

definition GetPartitionSize :: "nat \<Rightarrow> int64 flow_m" where
  "GetPartitionSize d =
     fbind (GetTotalSize d) (\<lambda>n.
     fbind (fget (\<lambda>f. shards f d)) (\<lambda>k.
     fbind (flift (go_div (sint n) (int k))) (\<lambda>q. fret (word_of_int q))))"

definition GetIsOnDiskIO :: "nat \<Rightarrow> bool flow_m" where
  "GetIsOnDiskIO d = fget (\<lambda>f. ds_OnDisk (dataset f d) = ModeOnDisk)"

definition Hint_TotalSize :: "int64 \<Rightarrow> nat \<Rightarrow> unit flow_m" where
  "Hint_TotalSize n d = fmod (set_dataset d (\<lambda>ds. ds\<lparr>ds_TotalSize := n\<rparr>))"

definition Hint_PartitionSize :: "int64 \<Rightarrow> nat \<Rightarrow> unit flow_m" where
  "Hint_PartitionSize n d =
     fmod (set_dataset d (\<lambda>ds. ds\<lparr>ds_TotalSize := n * of_nat (length (ds_Shards ds))\<rparr>))"

section \<open>One shard to one shard\<close>

definition add1ShardTo1Step :: "nat \<Rightarrow> (nat \<times> nat) flow_m" where
  "add1ShardTo1Step d =
     fbind (fget (\<lambda>f. shards f d)) (\<lambda>n.
     fbind (NewNextDataset (int n)) (\<lambda>ret.
     fbind (AddOneToOneStep (Some d) (Some ret)) (\<lambda>s. fret (ret, s))))"

definition describe :: "nat \<Rightarrow> string \<Rightarrow> unit flow_m" where
  "describe s text = fmod (set_step s (\<lambda>st. st\<lparr>st_Description := text\<rparr>))"

definition set_sorted :: "nat \<Rightarrow> OrderBy list \<Rightarrow> unit flow_m" where
  "set_sorted d orderBys = fmod (set_dataset d (\<lambda>ds. ds\<lparr>ds_IsLocalSorted := orderBys\<rparr>))"

definition set_partitioned :: "nat \<Rightarrow> int list \<Rightarrow> unit flow_m" where
  "set_partitioned d indexes = fmod (set_dataset d (\<lambda>ds. ds\<lparr>ds_IsPartitionedBy := indexes\<rparr>))"

text \<open>A dataset that keeps how the one before is partitioned.\<close>

definition keep_partitioned :: "nat \<Rightarrow> nat \<Rightarrow> unit flow_m" where
  "keep_partitioned d ret = fbind (fget (\<lambda>f. ds_IsPartitionedBy (dataset f d))) (set_partitioned ret)"

definition keep_sorted :: "nat \<Rightarrow> nat \<Rightarrow> unit flow_m" where
  "keep_sorted d ret = fbind (fget (\<lambda>f. ds_IsLocalSorted (dataset f d))) (set_sorted ret)"

definition LocalDistinct :: "string \<Rightarrow> SortOption \<Rightarrow> nat \<Rightarrow> nat flow_m" where
  "LocalDistinct name sortOption d =
     fbind (add1ShardTo1Step d) (\<lambda>(ret, s).
     fbind (set_sorted ret sortOption) (\<lambda>_.
     fbind (keep_partitioned d ret) (\<lambda>_.
     fbind (SetInstruction s name (NewLocalDistinct sortOption)) (\<lambda>_. fret ret))))"

definition LocalSort :: "string \<Rightarrow> SortOption \<Rightarrow> nat \<Rightarrow> nat flow_m" where
  "LocalSort name sortOption d =
     fbind (fget (\<lambda>f. ds_IsLocalSorted (dataset f d))) (\<lambda>sorted.
       if isOrderByEquals sorted sortOption then fret d
       else
         fbind (add1ShardTo1Step d) (\<lambda>(ret, s).
         fbind (set_sorted ret sortOption) (\<lambda>_.
         fbind (keep_partitioned d ret) (\<lambda>_.
         fbind (GetPartitionSize d) (\<lambda>size.
         fbind (SetInstruction s name (NewLocalSort sortOption (sint (size * 3)))) (\<lambda>_.
         fbind (describe s (SortOption_String sortOption)) (\<lambda>_. fret ret)))))))"

definition LocalTop :: "string \<Rightarrow> int \<Rightarrow> SortOption \<Rightarrow> nat \<Rightarrow> nat flow_m" where
  "LocalTop name n sortOption d =
     fbind (add1ShardTo1Step d) (\<lambda>(ret, s).
     fbind (set_sorted ret (getReverseOrderBy sortOption)) (\<lambda>_.
     fbind (keep_partitioned d ret) (\<lambda>_.
     fbind (SetInstruction s name (NewLocalTop n (getReverseOrderBy sortOption))) (\<lambda>_.
     fbind (describe s (''local top '' @ Itoa n)) (\<lambda>_. fret ret)))))"

definition LocalLimit :: "string \<Rightarrow> int \<Rightarrow> int \<Rightarrow> nat \<Rightarrow> nat flow_m" where
  "LocalLimit name n offset d =
     fbind (add1ShardTo1Step d) (\<lambda>(ret, s).
     fbind (keep_sorted d ret) (\<lambda>_.
     fbind (keep_partitioned d ret) (\<lambda>_.
     fbind (SetInstruction s name (NewLocalLimit n offset)) (\<lambda>_.
     fbind (describe s (''local limit '' @ Itoa n)) (\<lambda>_. fret ret)))))"

definition LocalGroupBy :: "string \<Rightarrow> SortOption \<Rightarrow> nat \<Rightarrow> nat flow_m" where
  "LocalGroupBy name sortOption d =
     fbind (add1ShardTo1Step d) (\<lambda>(ret, s).
     fbind (set_partitioned ret (Indexes sortOption)) (\<lambda>_.
     fbind (SetInstruction s name (NewLocalGroupBySorted (Indexes sortOption))) (\<lambda>_. fret ret)))"

definition Select :: "string \<Rightarrow> SortOption \<Rightarrow> nat \<Rightarrow> nat flow_m" where
  "Select name sortOption d =
     fbind (add1ShardTo1Step d) (\<lambda>(ret, s).
     fbind (flift (go_index (Indexes sortOption) 0)) (\<lambda>key.
     fbind (SetInstruction s name (NewSelect [key] (tl (Indexes sortOption)))) (\<lambda>_.
     fbind (describe s (''select ['' @ joinInts (Indexes sortOption) '' '' @ '']'')) (\<lambda>_. fret ret))))"

definition SelectKV :: "string \<Rightarrow> SortOption \<Rightarrow> SortOption \<Rightarrow> nat \<Rightarrow> nat flow_m" where
  "SelectKV name keys values d =
     fbind (add1ShardTo1Step d) (\<lambda>(ret, s).
     fbind (SetInstruction s name (NewSelect (Indexes keys) (Indexes values))) (\<lambda>_. fret ret))"

definition PipeAsArgs :: "string \<Rightarrow> bytes \<Rightarrow> nat \<Rightarrow> nat flow_m" where
  "PipeAsArgs name code d =
     fbind (add1ShardTo1Step d) (\<lambda>(ret, s).
     fbind (fmod (set_step s (\<lambda>st. st\<lparr>st_IsPipe := True\<rparr>))) (\<lambda>_.
     fbind (SetInstruction s name (NewPipeAsArgs code)) (\<lambda>_. fret ret)))"

text \<open>Shell scripts (\<^verbatim>\<open>script/shell.go\<close>).\<close>

record Operation =
  op_Type :: string
  op_Code :: string

record ShellScript =
  sc_initCode :: string
  sc_env :: "string list"
  sc_operations :: "Operation list"

definition NewShellScript :: ShellScript where
  "NewShellScript = \<lparr>sc_initCode = [], sc_env = [], sc_operations = []\<rparr>"

definition ShellScript_Pipe :: "string \<Rightarrow> ShellScript \<Rightarrow> ShellScript" where
  "ShellScript_Pipe code c = c\<lparr>sc_operations := sc_operations c @ [\<lparr>op_Type = ''Pipe'', op_Code = code\<rparr>]\<rparr>"

definition GetCommand :: "ShellScript \<Rightarrow> Command go" where
  "GetCommand c = gbind (go_index (sc_operations c) 0) (\<lambda>op.
     Inr \<lparr>cmd_Path = ''sh'', cmd_Args = [''-c'', op_Code op], cmd_Env = sc_env c\<rparr>)"

definition Pipe :: "string \<Rightarrow> string \<Rightarrow> nat \<Rightarrow> nat flow_m" where
  "Pipe name code d =
     fbind (add1ShardTo1Step d) (\<lambda>(ret, s).
     fbind (flift (GetCommand (ShellScript_Pipe code NewShellScript))) (\<lambda>command.
     fbind (fmod (set_step s (\<lambda>st. st\<lparr>st_Name := name, st_Description := code, st_IsPipe := True,
       st_Command := Some command\<rparr>))) (\<lambda>_. fret ret)))"

text \<open>
  Mappers and reducers run in a copy of the program: its path, its arguments, and the registered names
  are the environment.
\<close>

record flow_env =
  fe_Executable :: string
  fe_Args :: "string list"
  fe_mapper_Name :: "string \<Rightarrow> string"
  fe_reducer_Name :: "string \<Rightarrow> string"

definition Map :: "flow_env \<Rightarrow> string \<Rightarrow> string \<Rightarrow> nat \<Rightarrow> nat flow_m" where
  "Map env name mapperId d =
     fbind (add1ShardTo1Step d) (\<lambda>(ret, s).
     fbind (fmod (set_step s (\<lambda>st. st\<lparr>st_Name := name @ ''.Map'', st_IsPipe := False, st_IsGoCode := True,
       st_Description := fe_mapper_Name env mapperId,
       st_Command := Some \<lparr>cmd_Path = fe_Executable env, cmd_Args = fe_Args env @ [''-gleam.mapper'', mapperId], cmd_Env = []\<rparr>\<rparr>))) (\<lambda>_. fret ret))"

definition LocalReduceBy :: "flow_env \<Rightarrow> string \<Rightarrow> string \<Rightarrow> SortOption option \<Rightarrow> nat \<Rightarrow> nat flow_m" where
  "LocalReduceBy env name reducerId sortOption d =
     fbind (add1ShardTo1Step d) (\<lambda>(ret, s).
       let keyPositions = (case sortOption of None \<Rightarrow> [] | Some opts \<Rightarrow> Indexes opts);
           keyFields = (if keyPositions = [] then ''0'' else joinInts keyPositions '','')
       in fbind (fmod (set_step s (\<lambda>st. st\<lparr>st_Name := name, st_IsPipe := False, st_IsGoCode := True,
            st_Description := fe_reducer_Name env reducerId,
            st_Command := Some \<lparr>cmd_Path = fe_Executable env,
              cmd_Args = fe_Args env @ [''-gleam.reducer'', reducerId, ''-gleam.keyFields'', keyFields], cmd_Env = []\<rparr>\<rparr>))) (\<lambda>_. fret ret))"

section \<open>Merging and partitioning\<close>

definition linked_merge :: "nat \<Rightarrow> int \<Rightarrow> (nat \<Rightarrow> unit flow_m) \<Rightarrow> (nat \<times> nat) flow_m" where
  "linked_merge d partitionCount meta =
     fbind (fget (\<lambda>f. int (shards f d))) (\<lambda>n.
     fbind (NewNextDataset partitionCount) (\<lambda>ret.
     fbind (flift (go_div n partitionCount)) (\<lambda>q.
     fbind (flift (go_mod n partitionCount)) (\<lambda>r.
     fbind (meta ret) (\<lambda>_.
     fbind (AddLinkedNToOneStep d (if 0 < r then q + 1 else q) ret) (\<lambda>s. fret (ret, s)))))))"

definition MergeSortedTo :: "string \<Rightarrow> int \<Rightarrow> nat \<Rightarrow> nat flow_m" where
  "MergeSortedTo name partitionCount d =
     fbind (fget (\<lambda>f. int (shards f d))) (\<lambda>n.
       if n = partitionCount then fret d
       else
         fbind (linked_merge d partitionCount (\<lambda>ret. fbind (keep_sorted d ret) (\<lambda>_. keep_partitioned d ret))) (\<lambda>(ret, s).
         fbind (fget (\<lambda>f. ds_IsLocalSorted (dataset f d))) (\<lambda>orderBys.
         fbind (SetInstruction s name (NewMergeSortedTo orderBys)) (\<lambda>_. fret ret))))"

definition MergeTo :: "string \<Rightarrow> int \<Rightarrow> nat \<Rightarrow> nat flow_m" where
  "MergeTo name partitionCount d =
     fbind (fget (\<lambda>f. int (shards f d))) (\<lambda>n.
       if n = partitionCount then fret d
       else
         fbind (linked_merge d partitionCount (keep_partitioned d)) (\<lambda>(ret, s).
         fbind (SetInstruction s name NewMergeTo) (\<lambda>_. fret ret)))"

text \<open>
  The recursion shrinks the number of shards unless \<open>factor\<close> is 1, when it does not end and the program
  runs out of stack; as many calls as there are shards, and two more, are enough otherwise.
\<close>

fun tree_merge :: "nat \<Rightarrow> string \<Rightarrow> int \<Rightarrow> int \<Rightarrow> nat \<Rightarrow> nat flow_m" where
  "tree_merge 0 name partitionCount factor d = flift (Inl PanicFatal)"
| "tree_merge (Suc fuel) name partitionCount factor d =
     fbind (fget (\<lambda>f. int (shards f d))) (\<lambda>n.
       if n > factor \<and> n > partitionCount then
         fbind (flift (go_div n factor)) (\<lambda>k.
         fbind (MergeSortedTo name k d) (tree_merge fuel name partitionCount factor))
       else if n > partitionCount then MergeSortedTo name partitionCount d
       else fret d)"

definition TreeMergeSortedTo :: "string \<Rightarrow> int \<Rightarrow> int \<Rightarrow> nat \<Rightarrow> nat flow_m" where
  "TreeMergeSortedTo name partitionCount factor d =
     fbind (fget (\<lambda>f. shards f d)) (\<lambda>n. tree_merge (n + 2) name partitionCount factor d)"

definition RoundRobin :: "string \<Rightarrow> int \<Rightarrow> nat \<Rightarrow> nat flow_m" where
  "RoundRobin name n d =
     (if n \<le> 1 then fret d
      else
        fbind (fget (\<lambda>f. n * int (shards f d))) (\<lambda>shard.
        fbind (NewNextDataset shard) (\<lambda>ret.
        fbind (AddAllToAllStep d ret) (\<lambda>s.
        fbind (SetInstruction s name NewRoundRobin) (\<lambda>_. fret ret)))))"

definition partition_scatter :: "string \<Rightarrow> int \<Rightarrow> int list \<Rightarrow> nat \<Rightarrow> nat flow_m" where
  "partition_scatter name shardCount indexes d =
     fbind (fget (\<lambda>f. int (shards f d))) (\<lambda>n.
     fbind (NewNextDataset (n * shardCount)) (\<lambda>ret.
     fbind (set_partitioned ret indexes) (\<lambda>_.
     fbind (AddOneToEveryNStep d shardCount ret) (\<lambda>s.
     fbind (SetInstruction s name (NewScatterPartitions indexes)) (\<lambda>_. fret ret)))))"

definition partition_collect :: "string \<Rightarrow> int \<Rightarrow> int list \<Rightarrow> nat \<Rightarrow> nat flow_m" where
  "partition_collect name shardCount indexes d =
     fbind (NewNextDataset shardCount) (\<lambda>ret.
     fbind (set_partitioned ret indexes) (\<lambda>_.
     fbind (fget (\<lambda>f. int (shards f d))) (\<lambda>n.
     fbind (flift (go_div n shardCount)) (\<lambda>q.
     fbind (AddLinkedNToOneStep d q ret) (\<lambda>s.
     fbind (SetInstruction s name NewCollectPartitions) (\<lambda>_. fret ret))))))"

definition Partition :: "string \<Rightarrow> int \<Rightarrow> SortOption \<Rightarrow> nat \<Rightarrow> nat flow_m" where
  "Partition name shard sortOption d =
     (let indexes = Indexes sortOption in
      fbind (fget (\<lambda>f. dataset f d)) (\<lambda>ds.
        if intArrayEquals (ds_IsPartitionedBy ds) indexes \<and> shard = int (length (ds_Shards ds)) then fret d
        else if length (ds_Shards ds) = 1 \<and> shard = 1 then fret d
        else
          fbind (partition_scatter name shard indexes d) (\<lambda>ret.
          fbind (if shard > 1 then partition_collect name shard indexes ret else fret ret) (\<lambda>ret.
          fbind (set_partitioned ret indexes) (\<lambda>_. fret ret)))))"

definition PartitionByKey :: "string \<Rightarrow> int \<Rightarrow> nat \<Rightarrow> nat flow_m" where
  "PartitionByKey name shard d = Partition name shard (Field [1]) d"

section \<open>Combinations\<close>

definition several :: "nat \<Rightarrow> bool flow_m" where
  "several d = fget (\<lambda>f. 1 < shards f d)"

definition Distinct :: "string \<Rightarrow> SortOption \<Rightarrow> nat \<Rightarrow> nat flow_m" where
  "Distinct name sortOption d =
     fbind (LocalSort name sortOption d) (\<lambda>t.
     fbind (LocalDistinct name sortOption t) (\<lambda>ret.
     fbind (several d) (\<lambda>b.
       if b then fbind (MergeSortedTo name 1 ret) (LocalDistinct name sortOption) else fret ret)))"

definition Sort :: "string \<Rightarrow> SortOption \<Rightarrow> nat \<Rightarrow> nat flow_m" where
  "Sort name sortOption d = fbind (LocalSort name sortOption d) (TreeMergeSortedTo name 1 10)"

definition SortByKey :: "string \<Rightarrow> nat \<Rightarrow> nat flow_m" where
  "SortByKey name d = Sort name (Field [1]) d"

definition Dataset_Top :: "string \<Rightarrow> int \<Rightarrow> SortOption \<Rightarrow> nat \<Rightarrow> nat flow_m" where
  "Dataset_Top name k sortOption d =
     fbind (LocalTop name k sortOption d) (\<lambda>ret.
     fbind (several d) (\<lambda>b.
       if b then fbind (MergeSortedTo name 1 ret) (LocalLimit name k 0) else fret ret))"

definition GroupBy :: "string \<Rightarrow> SortOption \<Rightarrow> nat \<Rightarrow> nat flow_m" where
  "GroupBy name sortOption d =
     fbind (LocalSort name sortOption d) (\<lambda>t.
     fbind (LocalGroupBy name sortOption t) (\<lambda>ret.
     fbind (several d) (\<lambda>b.
     fbind (if b then fbind (MergeSortedTo name 1 ret) (LocalGroupBy name sortOption) else fret ret) (\<lambda>ret.
     fbind (set_sorted ret sortOption) (\<lambda>_. fret ret)))))"

definition ReduceBy :: "flow_env \<Rightarrow> string \<Rightarrow> string \<Rightarrow> SortOption \<Rightarrow> nat \<Rightarrow> nat flow_m" where
  "ReduceBy env name reducerId keyFields d =
     (let name = name @ ''.ReduceBy'' in
      fbind (LocalSort name keyFields d) (\<lambda>t.
      fbind (LocalReduceBy env (name @ ''.LocalReduceBy'') reducerId (Some keyFields) t) (\<lambda>ret.
      fbind (several d) (\<lambda>b.
        if b then
          fbind (MergeSortedTo name 1 ret) (LocalReduceBy env (name @ ''.LocalReduceBy2'') reducerId (Some keyFields))
        else fret ret))))"

definition ReduceByKey :: "flow_env \<Rightarrow> string \<Rightarrow> string \<Rightarrow> nat \<Rightarrow> nat flow_m" where
  "ReduceByKey env name reducerId d = ReduceBy env name reducerId (Field [1]) d"

definition Reduce :: "flow_env \<Rightarrow> string \<Rightarrow> string \<Rightarrow> nat \<Rightarrow> nat flow_m" where
  "Reduce env name reducerId d =
     (let name = name @ ''.Reduce'' in
      fbind (LocalReduceBy env (name @ ''.LocalReduce'') reducerId None d) (\<lambda>ret.
      fbind (several d) (\<lambda>b.
        if b then fbind (MergeTo name 1 ret) (LocalReduceBy env (name @ ''.LocalReduce2'') reducerId None)
        else fret ret)))"

definition JoinPartitionedSorted :: "string \<Rightarrow> nat \<Rightarrow> SortOption \<Rightarrow> bool \<Rightarrow> bool \<Rightarrow> nat \<Rightarrow> nat flow_m" where
  "JoinPartitionedSorted name that sortOption isLeftOuterJoin isRightOuterJoin this =
     fbind (fget (\<lambda>f. int (shards f this))) (\<lambda>n.
     fbind (NewNextDataset n) (\<lambda>ret.
     fbind (keep_partitioned that ret) (\<lambda>_.
     fbind (keep_sorted that ret) (\<lambda>_.
     fbind (MergeDatasets1ShardTo1Step [this, that] (Some ret)) (\<lambda>s.
     fbind (SetInstruction s name (NewJoinPartitionedSorted isLeftOuterJoin isRightOuterJoin (Indexes sortOption))) (\<lambda>_. fret ret))))))"

definition DoJoin :: "string \<Rightarrow> nat \<Rightarrow> bool \<Rightarrow> bool \<Rightarrow> SortOption \<Rightarrow> nat \<Rightarrow> nat flow_m" where
  "DoJoin name other leftOuter rightOuter sortOption d =
     fbind (fget (\<lambda>f. int (shards f d))) (\<lambda>n.
     fbind (Partition (name @ ''.left'') n sortOption d) (\<lambda>p.
     fbind (LocalSort (name @ ''.left'') sortOption p) (\<lambda>sorted_d.
     fbind (if d = other then fret sorted_d
            else fbind (Partition (name @ ''.right'') n sortOption other) (LocalSort (name @ ''.right'') sortOption)) (\<lambda>sorted_other.
       JoinPartitionedSorted name sorted_other sortOption leftOuter rightOuter sorted_d))))"

definition Join :: "string \<Rightarrow> nat \<Rightarrow> SortOption \<Rightarrow> nat \<Rightarrow> nat flow_m" where
  "Join name other sortOption d = DoJoin name other False False sortOption d"

definition JoinByKey :: "string \<Rightarrow> nat \<Rightarrow> nat \<Rightarrow> nat flow_m" where
  "JoinByKey name other d = DoJoin name other False False (Field [1]) d"

definition LeftOuterJoin :: "string \<Rightarrow> nat \<Rightarrow> SortOption \<Rightarrow> nat \<Rightarrow> nat flow_m" where
  "LeftOuterJoin name other sortOption d = DoJoin name other True False sortOption d"

definition LeftOuterJoinByKey :: "string \<Rightarrow> nat \<Rightarrow> nat \<Rightarrow> nat flow_m" where
  "LeftOuterJoinByKey name other d = DoJoin name other True False (Field [1]) d"

definition RightOuterJoin :: "string \<Rightarrow> nat \<Rightarrow> SortOption \<Rightarrow> nat \<Rightarrow> nat flow_m" where
  "RightOuterJoin name other sortOption d = DoJoin name other False True sortOption d"

definition RightOuterJoinByKey :: "string \<Rightarrow> nat \<Rightarrow> nat \<Rightarrow> nat flow_m" where
  "RightOuterJoinByKey name other d = DoJoin name other False True (Field [1]) d"

definition CoGroupPartitionedSorted :: "string \<Rightarrow> nat \<Rightarrow> int list \<Rightarrow> nat \<Rightarrow> nat flow_m" where
  "CoGroupPartitionedSorted name that indexes this =
     fbind (fget (\<lambda>f. int (shards f this))) (\<lambda>n.
     fbind (NewNextDataset n) (\<lambda>ret.
     fbind (set_partitioned ret indexes) (\<lambda>_.
     fbind (MergeDatasets1ShardTo1Step [this, that] (Some ret)) (\<lambda>s.
     fbind (SetInstruction s name (NewCoGroupPartitionedSorted indexes)) (\<lambda>_. fret ret)))))"

definition CoGroup :: "string \<Rightarrow> nat \<Rightarrow> SortOption \<Rightarrow> nat \<Rightarrow> nat flow_m" where
  "CoGroup name other sortOption d =
     fbind (fget (\<lambda>f. int (shards f d))) (\<lambda>n.
     fbind (Partition name n sortOption d) (\<lambda>p.
     fbind (LocalSort name sortOption p) (\<lambda>sorted_d.
       if d = other then LocalGroupBy name sortOption sorted_d
       else
         fbind (Partition name n sortOption other) (\<lambda>q.
         fbind (LocalSort name sortOption q) (\<lambda>sorted_other.
         fbind (CoGroupPartitionedSorted name sorted_other (Indexes sortOption) sorted_d) (\<lambda>t.
         fbind (set_sorted t sortOption) (\<lambda>_. fret t)))))))"

definition Broadcast :: "string \<Rightarrow> int \<Rightarrow> nat \<Rightarrow> nat flow_m" where
  "Broadcast name shardCount d =
     fbind (fget (\<lambda>f. int (shards f d))) (\<lambda>n.
       if shardCount = 1 \<and> n = shardCount then fret d
       else
         fbind (NewNextDataset shardCount) (\<lambda>ret.
         fbind (AddOneToAllStep (Some d) ret) (\<lambda>s.
         fbind (SetInstruction s name NewBroadcast) (\<lambda>_. fret ret))))"

definition LocalHashAndJoinWith :: "string \<Rightarrow> nat \<Rightarrow> SortOption \<Rightarrow> nat \<Rightarrow> nat flow_m" where
  "LocalHashAndJoinWith name that sortOption this =
     fbind (fget (\<lambda>f. int (shards f that))) (\<lambda>n.
     fbind (NewNextDataset n) (\<lambda>ret.
     fbind (keep_partitioned that ret) (\<lambda>_.
     fbind (keep_sorted that ret) (\<lambda>_.
     fbind (MergeDatasets1ShardTo1Step [this, that] (Some ret)) (\<lambda>s.
     fbind (SetInstruction s name (NewLocalHashAndJoinWith (Indexes sortOption))) (\<lambda>_. fret ret))))))"

definition HashJoin :: "string \<Rightarrow> nat \<Rightarrow> SortOption \<Rightarrow> nat \<Rightarrow> nat flow_m" where
  "HashJoin name smaller sortOption bigger =
     fbind (fget (\<lambda>f. int (shards f bigger))) (\<lambda>n.
     fbind (Broadcast name n smaller) (LocalHashAndJoinWith name bigger sortOption))"

definition Union :: "string \<Rightarrow> nat list \<Rightarrow> bool \<Rightarrow> nat \<Rightarrow> nat flow_m" where
  "Union name others isParallel this =
     fbind (fget (\<lambda>f. int (shards f this))) (\<lambda>n.
     fbind (NewNextDataset n) (\<lambda>ret.
     fbind (MergeDatasets1ShardTo1Step (this # others) (Some ret)) (\<lambda>s.
     fbind (SetInstruction s name (NewUnion isParallel)) (\<lambda>_. fret ret))))"

section \<open>Sources and outputs\<close>

definition driver_source :: "string \<Rightarrow> nat flow_m" where
  "driver_source name =
     fbind (NewNextDataset 1) (\<lambda>ret.
     fbind (AddOneToOneStep None (Some ret)) (\<lambda>s.
     fbind (fmod (set_step s (\<lambda>st. st\<lparr>st_IsOnDriverSide := True, st_Name := name\<rparr>))) (\<lambda>_. fret ret)))"

definition Source :: "string \<Rightarrow> nat flow_m" where
  "Source name = driver_source name"

definition Channel :: "nat flow_m" where
  "Channel = driver_source ''Channel''"

definition Slices :: "nat flow_m" where
  "Slices = driver_source ''Slices''"

definition Output :: "nat \<Rightarrow> nat flow_m" where
  "Output d =
     fbind (AddAllToOneStep d None) (\<lambda>s.
     fbind (fmod (set_step s (\<lambda>st. st\<lparr>st_IsOnDriverSide := True, st_Name := ''Output''\<rparr>))) (\<lambda>_. fret d))"

section \<open>Datasets and the steps between them\<close>

lemma NewNextDataset_apply:
  "NewNextDataset n f = Inr (length (fl_Datasets f), f\<lparr>fl_Datasets := fl_Datasets f @
     [\<lparr>ds_Id = length (fl_Datasets f), ds_Shards = replicate (nat n) \<lparr>sh_ReadingTasks = []\<rparr>, ds_Step = None, ds_ReadingSteps = [],
       ds_IsPartitionedBy = [], ds_IsLocalSorted = [], ds_TotalSize = - 1, ds_OnDisk = ModeInMemory\<rparr>]\<rparr>)"
  by (simp add: NewNextDataset_def newDataset_def setupDatasetShard_def flow_eval set_dataset_def dataset_def)

text \<open>\<open>with_next n f g\<close>: \<open>g\<close> is \<open>f\<close> with one more dataset, of \<open>n\<close> shards.\<close>

definition with_next :: "nat \<Rightarrow> Flow \<Rightarrow> Flow \<Rightarrow> bool" where
  "with_next n f g \<longleftrightarrow> length (fl_Datasets g) = Suc (length (fl_Datasets f)) \<and> shards g (length (fl_Datasets f)) = n \<and>
     fl_Steps g = fl_Steps f \<and> (\<forall>d<length (fl_Datasets f). dataset g d = dataset f d)"

lemma with_next_shards: "with_next n f g \<Longrightarrow> d < length (fl_Datasets f) \<Longrightarrow> shards g d = shards f d"
  by (simp add: with_next_def shards_def)

lemma NewNextDataset_ok:
  obtains g where "NewNextDataset (int n) f = Inr (length (fl_Datasets f), g)" "with_next n f g"
  by (rule that [OF NewNextDataset_apply]) (simp add: with_next_def shards_def dataset_def nth_append)

lemma length_set_dataset [simp]: "length (fl_Datasets (set_dataset d h f)) = length (fl_Datasets f)"
  by (simp add: set_dataset_def)

lemma with_next_set_dataset:
  "with_next n f g \<Longrightarrow> (\<And>ds. length (ds_Shards (h ds)) = length (ds_Shards ds)) \<Longrightarrow>
    with_next n f (set_dataset (length (fl_Datasets f)) h g)"
  by (auto simp: with_next_def shards_def dataset_set_dataset)

lemma go_div_nat: "0 < p \<Longrightarrow> go_div (int n) (int p) = Inr (int (n div p))"
  by (auto simp: go_div_def zdiv_int sgn_if)

lemma go_mod_nat: "0 < p \<Longrightarrow> go_mod (int n) (int p) = Inr (int (n mod p))"
  by (auto simp: go_mod_def zmod_int sgn_if)

text \<open>The tasks of a merge of \<open>n\<close> shards into \<open>p\<close>, \<open>k\<close> to each.\<close>

definition linked_tasks :: "nat \<Rightarrow> nat \<Rightarrow> nat \<Rightarrow> nat \<Rightarrow> Task list" where
  "linked_tasks input k ret p = map (\<lambda>i. \<lparr>tk_Id = i, tk_InputShards = map (\<lambda>j. (input, i * k + j)) [0..<k],
     tk_OutputShards = [(ret, i)]\<rparr>) [0..<p]"

lemma linked_tasks_reads: "concat (map tk_InputShards (linked_tasks d k ret p)) = map (Pair d) [0..<p * k]"
proof (induction p)
  case (Suc p)
  have "[0..<Suc p * k] = [0..<p * k] @ map (\<lambda>j. p * k + j) [0..<k]"
    using upt_add_eq_append [of 0 "p * k" k] by (simp add: add.commute map_add_upt)
  then show ?case using Suc.IH by (simp add: linked_tasks_def)
qed (simp add: linked_tasks_def)

lemma linked_merge_cases:
  assumes p: "0 < p" and d: "d < length (fl_Datasets f)" and n: "n = shards f d"
    and meta: "\<And>g. with_next p f g \<Longrightarrow> \<exists>h. meta (length (fl_Datasets f)) g = Inr ((), h) \<and> with_next p f h \<and> Q h"
  shows "if p dvd n
    then \<exists>g f'. linked_merge d (int p) meta f = Inr ((length (fl_Datasets f), length (fl_Steps f)), f') \<and> with_next p f g \<and> Q g \<and>
      network_ok (linked_tasks d (n div p) (length (fl_Datasets f)) p) (Some (length (fl_Datasets f))) g (Inr (length (fl_Steps f), f'))
    else linked_merge d (int p) meta f = Inl PanicIndex"
proof -
  let ?ret = "length (fl_Datasets f)" and ?k = "if 0 < n mod p then n div p + 1 else n div p"
  obtain g where g: "NewNextDataset (int p) f = Inr (?ret, g)" "with_next p f g" by (rule NewNextDataset_ok)
  obtain h where h: "meta ?ret g = Inr ((), h)" "with_next p f h" "Q h" using meta [OF g(2)] by blast
  have "(if 0 < int (n mod p) then int (n div p) + 1 else int (n div p)) = int ?k" by simp
  then have eq: "linked_merge d (int p) meta f = gbind (AddLinkedNToOneStep d (int ?k) ?ret h) (\<lambda>(s, f'). Inr ((?ret, s), f'))"
    using g(1) h(1) p by (simp add: linked_merge_def flow_eval go_div_nat go_mod_nat flip: n)
  have sh: "p = shards h ?ret" "shards h d = n" using h(2) d n by (simp_all add: with_next_def with_next_shards)
  have st: "length (fl_Steps h) = length (fl_Steps f)" using h(2) by (simp add: with_next_def)
  show ?thesis
  proof (cases "p dvd n")
    case True
    then have "?k = n div p" "p * (n div p) \<le> shards h d" using sh(2) by auto
    with AddLinkedNToOneStep_ok [OF sh(1)] have
      ok: "network_ok (linked_tasks d (n div p) ?ret p) (Some ?ret) h (AddLinkedNToOneStep d (int ?k) ?ret h)"
      by (simp add: linked_tasks_def)
    then obtain f' where "AddLinkedNToOneStep d (int ?k) ?ret h = Inr (length (fl_Steps f), f')" by (auto simp: network_ok_def st)
    then show ?thesis using True ok h(2,3) eq by auto
  next
    case False
    then have "0 < n mod p" by (simp add: dvd_eq_mod_eq_0)
    moreover have "p * (n div p + 1) > n" using dividend_less_times_div [OF p, of n] by simp
    ultimately have "shards h d < p * ?k" using sh(2) by simp
    with AddLinkedNToOneStep_panics [OF sh(1)] have "AddLinkedNToOneStep d (int ?k) ?ret h = Inl PanicIndex" by blast
    then show ?thesis using False eq by simp
  qed
qed

text \<open>\<open>one_step n ts ins f f'\<close>: \<open>f'\<close> has one more dataset, of \<open>n\<close> shards, written by one more step.\<close>

definition one_step :: "nat \<Rightarrow> Task list \<Rightarrow> Instruction \<Rightarrow> Flow \<Rightarrow> Flow \<Rightarrow> bool" where
  "one_step n ts ins f f' \<longleftrightarrow> length (fl_Datasets f') = Suc (length (fl_Datasets f)) \<and> shards f' (length (fl_Datasets f)) = n \<and>
     (\<forall>d<length (fl_Datasets f). shards f' d = shards f d) \<and>
     length (fl_Steps f') = Suc (length (fl_Steps f)) \<and> (\<forall>s<length (fl_Steps f). step f' s = step f s) \<and>
     st_Tasks (step f' (length (fl_Steps f))) = ts \<and> st_Instruction (step f' (length (fl_Steps f))) = Some ins"

lemma one_stepI:
  assumes "with_next n f g" "network_ok ts out g (Inr (length (fl_Steps f), h))"
  obtains f' where "SetInstruction (length (fl_Steps f)) name ins h = Inr ((), f')" "one_step n ts ins f f'"
  using assms by (auto simp: SetInstruction_def fmod_apply one_step_def with_next_def network_ok_def agree_def step_def
      shards_def dataset_def set_step_def nth_list_update intro!: that)

lemma MergeSortedTo_cases:
  assumes "0 < p" "d < length (fl_Datasets f)" "n = shards f d" "n \<noteq> p"
  shows "if p dvd n
    then \<exists>f'. MergeSortedTo name (int p) d f = Inr (length (fl_Datasets f), f') \<and>
      one_step p (linked_tasks d (n div p) (length (fl_Datasets f)) p) (NewMergeSortedTo (ds_IsLocalSorted (dataset f d))) f f' \<and>
      ds_IsLocalSorted (dataset f' (length (fl_Datasets f))) = ds_IsLocalSorted (dataset f d)
    else MergeSortedTo name (int p) d f = Inl PanicIndex"
proof -
  let ?ret = "length (fl_Datasets f)" and ?s = "length (fl_Steps f)"
  let ?meta = "\<lambda>ret. fbind (keep_sorted d ret) (\<lambda>_. keep_partitioned d ret)"
  let ?Q = "\<lambda>g. ds_IsLocalSorted (dataset g ?ret) = ds_IsLocalSorted (dataset f d)"
  have "\<exists>h. ?meta ?ret g = Inr ((), h) \<and> with_next p f h \<and> ?Q h" if g: "with_next p f g" for g
    using g assms(2)
    by (simp add: keep_sorted_def keep_partitioned_def set_sorted_def set_partitioned_def flow_eval with_next_set_dataset)
      (simp add: dataset_set_dataset with_next_def)
  note cases = linked_merge_cases [where meta = ?meta and Q = ?Q, OF assms(1-3) this]
  show ?thesis
  proof (cases "p dvd n")
    case True
    with cases obtain g f1 where g: "linked_merge d (int p) ?meta f = Inr ((?ret, ?s), f1)" "with_next p f g" "?Q g"
      "network_ok (linked_tasks d (n div p) ?ret p) (Some ?ret) g (Inr (?s, f1))" by auto
    then have f1: "agree g f1" by (simp add: network_ok_def)
    have d: "ds_IsLocalSorted (dataset f1 d) = ds_IsLocalSorted (dataset f d)" "?Q f1"
      using f1 g(2,3) assms(2) by (simp_all add: agree_def with_next_def)
    obtain f' where f': "SetInstruction ?s name (NewMergeSortedTo (ds_IsLocalSorted (dataset f d))) f1 = Inr ((), f')"
      "one_step p (linked_tasks d (n div p) ?ret p) (NewMergeSortedTo (ds_IsLocalSorted (dataset f d))) f f'"
      using g(4) by (rule one_stepI [OF g(2)])
    have "MergeSortedTo name (int p) d f = Inr (?ret, f')"
      using g(1) f'(1) assms(3,4) by (simp add: MergeSortedTo_def flow_eval d(1))
    moreover have "?Q f'" using f'(1) d(2) by (auto simp: SetInstruction_def fmod_apply dataset_def set_step_def)
    ultimately show ?thesis using True f'(2) by auto
  next
    case False
    then show ?thesis using cases assms(3,4) by (simp add: MergeSortedTo_def flow_eval)
  qed
qed

text \<open>
  C38: merging a dataset of \<open>n\<close> shards into another number \<open>p\<close> of sorted shards succeeds exactly if \<open>p\<close>
  divides \<open>n\<close>: then it adds one dataset of \<open>p\<close> shards with the order of the input and one step that merges by
  that order, in which task \<open>i\<close> writes shard \<open>i\<close> and reads the \<open>i\<close>-th block of \<open>n div p\<close> shards, so every
  shard is read exactly once. Otherwise the last task indexes a shard that does not exist and the
  program panics.
\<close>

theorem MergeSortedTo_correct:
  assumes "0 < p" "d < length (fl_Datasets f)" "n = shards f d" "n \<noteq> p"
  shows "if p dvd n
    then \<exists>f'. MergeSortedTo name (int p) d f = Inr (length (fl_Datasets f), f') \<and>
      shards f' (length (fl_Datasets f)) = p \<and>
      ds_IsLocalSorted (dataset f' (length (fl_Datasets f))) = ds_IsLocalSorted (dataset f d) \<and>
      st_Instruction (step f' (length (fl_Steps f))) = Some (NewMergeSortedTo (ds_IsLocalSorted (dataset f d))) \<and>
      st_Tasks (step f' (length (fl_Steps f))) = linked_tasks d (n div p) (length (fl_Datasets f)) p \<and>
      concat (map tk_InputShards (st_Tasks (step f' (length (fl_Steps f))))) = map (Pair d) [0..<n]
    else MergeSortedTo name (int p) d f = Inl PanicIndex"
  using MergeSortedTo_cases [OF assms, of name] linked_tasks_reads [of d "n div p" "length (fl_Datasets f)" p]
  by (auto simp: one_step_def)

text \<open>A flow of one dataset, of \<open>n\<close> shards.\<close>

definition sample_flow :: "nat \<Rightarrow> Flow" where
  "sample_flow n = (New ''sample'' 0)\<lparr>fl_Datasets := [\<lparr>ds_Id = 0, ds_Shards = replicate n \<lparr>sh_ReadingTasks = []\<rparr>, ds_Step = None,
     ds_ReadingSteps = [], ds_IsPartitionedBy = [], ds_IsLocalSorted = Field [1], ds_TotalSize = 0, ds_OnDisk = ModeInMemory\<rparr>]\<rparr>"

lemma sample_flow_simps [simp]:
  "length (fl_Datasets (sample_flow n)) = 1" "fl_Steps (sample_flow n) = []" "shards (sample_flow n) 0 = n"
  "ds_IsLocalSorted (dataset (sample_flow n) 0) = Field [1]" "ds_IsPartitionedBy (dataset (sample_flow n) 0) = []"
  by (simp_all add: sample_flow_def New_def shards_def dataset_def)

theorem MergeSortedTo_correct_witness:
  "(\<exists>f'. MergeSortedTo ''m'' 2 0 (sample_flow 4) = Inr (1, f') \<and> shards f' 1 = 2) \<and>
    MergeSortedTo ''m'' 2 0 (sample_flow 5) = Inl PanicIndex"
proof
  show "\<exists>f'. MergeSortedTo ''m'' 2 0 (sample_flow 4) = Inr (1, f') \<and> shards f' 1 = 2"
    using MergeSortedTo_correct [of 2 0 "sample_flow 4" 4 "''m''"] by auto
  show "MergeSortedTo ''m'' 2 0 (sample_flow 5) = Inl PanicIndex"
    using MergeSortedTo_correct [of 2 0 "sample_flow 5" 5 "''m''"] by simp
qed

section \<open>Partitioning\<close>

definition scatter_tasks :: "nat \<Rightarrow> nat \<Rightarrow> nat \<Rightarrow> nat \<Rightarrow> Task list" where
  "scatter_tasks d m ret p = map (\<lambda>i. \<lparr>tk_Id = i, tk_InputShards = [(d, i)], tk_OutputShards = map (\<lambda>k. (ret, k * m + i)) [0..<p]\<rparr>) [0..<m]"

lemma partition_scatter_ok:
  assumes "d < length (fl_Datasets f)" "m = shards f d"
  obtains f' where "partition_scatter name (int p) indexes d f = Inr (length (fl_Datasets f), f')"
    "one_step (m * p) (scatter_tasks d m (length (fl_Datasets f)) p) (NewScatterPartitions indexes) f f'"
proof -
  let ?ret = "length (fl_Datasets f)" and ?s = "length (fl_Steps f)"
  obtain g where g: "NewNextDataset (int (m * p)) f = Inr (?ret, g)" "with_next (m * p) f g" by (rule NewNextDataset_ok)
  let ?h = "set_dataset ?ret (\<lambda>ds. ds\<lparr>ds_IsPartitionedBy := indexes\<rparr>) g"
  have h: "with_next (m * p) f ?h" using g(2) by (rule with_next_set_dataset) simp
  then have sh: "m = shards ?h d" "shards ?h ?ret = m * p" "length (fl_Steps ?h) = ?s"
    using assms by (simp_all add: with_next_shards) (simp_all add: with_next_def)
  note ok = AddOneToEveryNStep_ok [OF sh(1,2), folded scatter_tasks_def]
  then obtain f1 where f1: "AddOneToEveryNStep d (int p) ?ret ?h = Inr (?s, f1)" unfolding network_ok_def sh(3) by blast
  obtain f' where "SetInstruction ?s name (NewScatterPartitions indexes) f1 = Inr ((), f')"
    "one_step (m * p) (scatter_tasks d m ?ret p) (NewScatterPartitions indexes) f f'"
    using ok unfolding f1 by (rule one_stepI [OF h])
  then show thesis using that g(1) f1 assms(2) by (simp add: partition_scatter_def set_partitioned_def flow_eval)
qed

lemma partition_collect_ok:
  assumes "d < length (fl_Datasets f)" "shards f d = m * p" "0 < p"
  obtains f' where "partition_collect name (int p) indexes d f = Inr (length (fl_Datasets f), f')"
    "one_step p (linked_tasks d m (length (fl_Datasets f)) p) NewCollectPartitions f f'"
proof -
  let ?ret = "length (fl_Datasets f)" and ?s = "length (fl_Steps f)"
  obtain g where g: "NewNextDataset (int p) f = Inr (?ret, g)" "with_next p f g" by (rule NewNextDataset_ok)
  let ?h = "set_dataset ?ret (\<lambda>ds. ds\<lparr>ds_IsPartitionedBy := indexes\<rparr>) g"
  have h: "with_next p f ?h" using g(2) by (rule with_next_set_dataset) simp
  then have sh: "p = shards ?h ?ret" "shards ?h d = m * p" "length (fl_Steps ?h) = ?s"
    using assms by (simp_all add: with_next_shards) (simp_all add: with_next_def)
  have "p * m \<le> shards ?h d" using sh(2) by simp
  note ok = AddLinkedNToOneStep_ok [OF sh(1) this, folded linked_tasks_def]
  then obtain f1 where f1: "AddLinkedNToOneStep d (int m) ?ret ?h = Inr (?s, f1)" unfolding network_ok_def sh(3) by blast
  obtain f' where "SetInstruction ?s name NewCollectPartitions f1 = Inr ((), f')"
    "one_step p (linked_tasks d m ?ret p) NewCollectPartitions f f'"
    using ok unfolding f1 by (rule one_stepI [OF h])
  moreover have "go_div (int (m * p)) (int p) = Inr (int m)" using assms(3) by (simp only: go_div_nat) simp
  ultimately show thesis using that g(1) f1 sh(2)
    by (simp add: partition_collect_def set_partitioned_def flow_eval)
qed

text \<open>
  C9: partitioning into \<open>p > 1\<close> shards adds a scatter step and a collect step, and the collect task
  \<open>k\<close> reads exactly the \<open>k\<close>-th output of every scatter task and writes shard \<open>k\<close> of the result: a row the
  scatter instruction sends to its output \<open>k\<close> ends in shard \<open>k\<close>, whichever shard it came from.
\<close>

theorem Partition_routes:
  assumes "1 < p" "d < length (fl_Datasets f)" "m = shards f d"
    and "\<not> (ds_IsPartitionedBy (dataset f d) = Indexes sortOption \<and> p = m)"
  shows "\<exists>f'. Partition name (int p) sortOption d f = Inr (Suc (length (fl_Datasets f)), f') \<and>
     shards f' (Suc (length (fl_Datasets f))) = p \<and>
     ds_IsPartitionedBy (dataset f' (Suc (length (fl_Datasets f)))) = Indexes sortOption \<and>
     (let scatter = step f' (length (fl_Steps f)); collect = step f' (Suc (length (fl_Steps f))) in
       st_Instruction scatter = Some (NewScatterPartitions (Indexes sortOption)) \<and>
       st_Instruction collect = Some NewCollectPartitions \<and>
       map tk_InputShards (st_Tasks scatter) = map (\<lambda>i. [(d, i)]) [0..<m] \<and>
       map tk_OutputShards (st_Tasks collect) = map (\<lambda>k. [(Suc (length (fl_Datasets f)), k)]) [0..<p] \<and>
       (\<forall>k<p. tk_InputShards (st_Tasks collect ! k) = map (\<lambda>task. tk_OutputShards task ! k) (st_Tasks scatter)))"
proof -
  let ?ret = "length (fl_Datasets f)" and ?s = "length (fl_Steps f)" and ?ix = "Indexes sortOption"
  obtain g where g: "partition_scatter name (int p) ?ix d f = Inr (?ret, g)"
    "one_step (m * p) (scatter_tasks d m ?ret p) (NewScatterPartitions ?ix) f g"
    using assms(2,3) by (rule partition_scatter_ok)
  have "?ret < length (fl_Datasets g)" "shards g ?ret = m * p" "0 < p" using g(2) assms(1) by (simp_all add: one_step_def)
  then obtain h where h: "partition_collect name (int p) ?ix ?ret g = Inr (length (fl_Datasets g), h)"
    "one_step p (linked_tasks ?ret m (length (fl_Datasets g)) p) NewCollectPartitions g h" by (rule partition_collect_ok)
  let ?f' = "set_dataset (Suc ?ret) (\<lambda>ds. ds\<lparr>ds_IsPartitionedBy := ?ix\<rparr>) h"
  have len: "length (fl_Datasets g) = Suc ?ret" "length (fl_Steps g) = Suc ?s" "length (fl_Datasets h) = Suc (Suc ?ret)"
    using g(2) h(2) by (simp_all add: one_step_def)
  have "Partition name (int p) sortOption d f = Inr (Suc ?ret, ?f')"
    using assms g(1) h(1) len(1) by (auto simp: Partition_def Let_def flow_eval set_partitioned_def intArrayEquals_def shards_def)
  moreover have "shards ?f' (Suc ?ret) = p" using h(2) len by (simp add: one_step_def shards_def dataset_set_dataset)
  moreover have "ds_IsPartitionedBy (dataset ?f' (Suc ?ret)) = ?ix" using len by (simp add: dataset_set_dataset)
  moreover have "st_Tasks (step ?f' ?s) = scatter_tasks d m ?ret p" "st_Tasks (step ?f' (Suc ?s)) = linked_tasks ?ret m (Suc ?ret) p"
    "st_Instruction (step ?f' ?s) = Some (NewScatterPartitions ?ix)" "st_Instruction (step ?f' (Suc ?s)) = Some NewCollectPartitions"
    using g(2) h(2) len by (simp_all add: one_step_def)
  ultimately show ?thesis by (simp add: Let_def scatter_tasks_def linked_tasks_def comp_def)
qed

theorem Partition_routes_witness:
  "\<exists>f'. Partition ''p'' 2 (Field [1]) 0 (sample_flow 3) = Inr (2, f') \<and> shards f' 2 = 2 \<and>
     tk_InputShards (st_Tasks (step f' 1) ! 1) = map (\<lambda>task. tk_OutputShards task ! 1) (st_Tasks (step f' 0))"
proof -
  have "\<not> (ds_IsPartitionedBy (dataset (sample_flow 3) 0) = Indexes (Field [1]) \<and> 2 = (3::nat))" by simp
  from Partition_routes [OF _ _ _ this, of "''p''"] obtain f' where
    f': "Partition ''p'' 2 (Field [1]) 0 (sample_flow 3) = Inr (2, f')" "shards f' 2 = 2"
    "\<forall>k<2. tk_InputShards (st_Tasks (step f' 1) ! k) = map (\<lambda>task. tk_OutputShards task ! k) (st_Tasks (step f' 0))"
    unfolding Let_def sample_flow_simps by (auto simp: numeral_2_eq_2 simp del: map_eq_conv)
  then have "tk_InputShards (st_Tasks (step f' 1) ! 1) = map (\<lambda>task. tk_OutputShards task ! 1) (st_Tasks (step f' 0))" by simp
  with f' show ?thesis by blast
qed

text \<open>
  Partitioning a dataset of several shards into one shard is not collected: the result has as
  many shards as before, so a caller that then joins shard 0 with another one-shard dataset misses
  the rows of the others.
\<close>

theorem Partition_to_one_not_collected:
  assumes "1 < shards f d" "d < length (fl_Datasets f)"
  shows "\<exists>f'. Partition name 1 sortOption d f = Inr (length (fl_Datasets f), f') \<and>
     shards f' (length (fl_Datasets f)) = shards f d"
proof -
  let ?ret = "length (fl_Datasets f)" and ?ix = "Indexes sortOption"
  obtain g where g: "partition_scatter name (int 1) ?ix d f = Inr (?ret, g)"
    "one_step (shards f d * 1) (scatter_tasks d (shards f d) ?ret 1) (NewScatterPartitions ?ix) f g"
    using assms(2) HOL.refl by (rule partition_scatter_ok)
  then show ?thesis using assms
    by (simp add: Partition_def Let_def flow_eval set_partitioned_def one_step_def shards_def dataset_set_dataset)
qed

theorem Partition_to_one_not_collected_witness:
  "\<exists>f'. Partition ''p'' 1 (Field [1]) 0 (sample_flow 3) = Inr (1, f') \<and> shards f' 1 = 3"
  using Partition_to_one_not_collected [of "sample_flow 3" 0 "''p''" "Field [1]"] by simp

section \<open>Merging as a tree\<close>

lemma MergeSortedTo_shards:
  assumes "0 < p" "d < length (fl_Datasets f)"
  obtains "MergeSortedTo name (int p) d f = Inl PanicIndex" "\<not> p dvd shards f d"
  | r f' where "MergeSortedTo name (int p) d f = Inr (r, f')" "r < length (fl_Datasets f')" "shards f' r = p" "p dvd shards f d"
proof (cases "shards f d = p")
  case True
  then show ?thesis using that(2) [of d f] assms by (simp add: MergeSortedTo_def flow_eval)
next
  case False
  show ?thesis
    using MergeSortedTo_cases [OF assms HOL.refl False, of name] that(1) that(2) [of "length (fl_Datasets f)"]
    by (auto simp: one_step_def split: if_splits)
qed

lemma tree_merge_ends:
  assumes "2 \<le> factor" "1 \<le> partitionCount" "d < length (fl_Datasets f)" "shards f d < fuel"
  shows "tree_merge fuel name (int partitionCount) (int factor) d f = Inl PanicIndex \<or>
    (\<exists>r f'. tree_merge fuel name (int partitionCount) (int factor) d f = Inr (r, f') \<and> shards f' r \<le> partitionCount \<and>
       (0 < shards f d \<longrightarrow> 0 < shards f' r))"
  using assms(3,4)
proof (induction fuel arbitrary: d f)
  case (Suc fuel)
  let ?n = "shards f d"
  have one: "tree_merge (Suc fuel) name (int partitionCount) (int factor) d f =
      (if factor < ?n \<and> partitionCount < ?n then
         gbind (MergeSortedTo name (int (?n div factor)) d f) (\<lambda>(r, f'). tree_merge fuel name (int partitionCount) (int factor) r f')
       else if partitionCount < ?n then MergeSortedTo name (int partitionCount) d f else Inr (d, f))"
    using assms(1) by (simp add: flow_eval go_div_nat)
  consider (deep) "factor < ?n" "partitionCount < ?n" | (last) "\<not> (factor < ?n \<and> partitionCount < ?n)" "partitionCount < ?n"
    | (enough) "?n \<le> partitionCount" by linarith
  then show ?case
  proof cases
    case deep
    have k: "0 < ?n div factor" "?n div factor < ?n" using deep assms(1) by (simp_all add: div_greater_zero_iff)
    show ?thesis
    proof (rule MergeSortedTo_shards [OF k(1) Suc.prems(1), of name])
      fix r f' assume r: "MergeSortedTo name (int (?n div factor)) d f = Inr (r, f')" "r < length (fl_Datasets f')" "shards f' r = ?n div factor"
      have "shards f' r < fuel" using r(3) k(2) Suc.prems(2) by simp
      from Suc.IH [OF r(2) this] show ?thesis unfolding one using deep r(1,3) k(1) by simp
    qed (simp only: one deep simp_thms if_True gbind_Inl)
  next
    case last
    have pos: "0 < partitionCount" using assms(2) by simp
    show ?thesis unfolding one
      by (rule MergeSortedTo_shards [OF pos Suc.prems(1), of name]) (use last pos in auto)
  next
    case enough
    then show ?thesis unfolding one by simp
  qed
qed simp



text \<open>
  \<^verbatim>\<open>Sort\<close> merges its shards with \<^verbatim>\<open>TreeMergeSortedTo(1, 10)\<close>, which panics for a dataset of 21 shards: it
  first merges them into \<^verbatim>\<open>21/10\<close>, two, shards of eleven, and the twenty-second shard does not exist.
\<close>

theorem TreeMergeSortedTo_uneven_panics:
  assumes "shards f d = 21" "d < length (fl_Datasets f)"
  shows "TreeMergeSortedTo name 1 10 d f = Inl PanicIndex"
proof -
  have "MergeSortedTo name (int 2) d f = Inl PanicIndex"
    using MergeSortedTo_cases [of 2 d f 21 name] assms by simp
  moreover have "go_div 21 10 = Inr 2" by (simp add: go_div_def)
  ultimately show ?thesis using assms by (simp add: TreeMergeSortedTo_def flow_eval numeral_eq_Suc)
qed

theorem TreeMergeSortedTo_uneven_panics_witness:
  "TreeMergeSortedTo ''sort'' 1 10 0 (sample_flow 21) = Inl PanicIndex"
  by (rule TreeMergeSortedTo_uneven_panics) simp_all

section \<open>Grouping\<close>

lemma add1ShardTo1Step_ok:
  assumes "d < length (fl_Datasets f)" "n = shards f d"
  obtains g h where "add1ShardTo1Step d f = Inr ((length (fl_Datasets f), length (fl_Steps f)), h)" "with_next n f g"
    "network_ok (map (\<lambda>i. \<lparr>tk_Id = i, tk_InputShards = [(d, i)], tk_OutputShards = [(length (fl_Datasets f), i)]\<rparr>) [0..<n])
       (Some (length (fl_Datasets f))) g (Inr (length (fl_Steps f), h))"
    "ds_IsLocalSorted (dataset h (length (fl_Datasets f))) = []"
proof -
  let ?ret = "length (fl_Datasets f)" and ?s = "length (fl_Steps f)"
  obtain g where g: "NewNextDataset (int n) f = Inr (?ret, g)" "with_next n f g" by (rule NewNextDataset_ok)
  then have sorted: "ds_IsLocalSorted (dataset g ?ret) = []" by (auto simp: NewNextDataset_apply dataset_def)
  from g have sh: "n = shards g d" "shards g ?ret = n" "length (fl_Steps g) = ?s"
    using assms by (simp_all add: with_next_shards) (simp_all add: with_next_def)
  note ok = AddOneToOneStep_ok [OF sh(1,2)]
  then obtain h where h: "AddOneToOneStep (Some d) (Some ?ret) g = Inr (?s, h)" "agree g h"
    unfolding network_ok_def sh(3) by blast
  show thesis
    by (rule that [OF _ g(2) ok [unfolded h(1)]])
      (use g(1) h sorted assms(2) in \<open>simp_all add: add1ShardTo1Step_def flow_eval agree_def\<close>)
qed

lemma LocalGroupBy_ok:
  assumes "d < length (fl_Datasets f)" "n = shards f d"
  obtains f' ts where "LocalGroupBy name sortOption d f = Inr (length (fl_Datasets f), f')"
    "one_step n ts (NewLocalGroupBySorted (Indexes sortOption)) f f'"
    "ds_IsLocalSorted (dataset f' (length (fl_Datasets f))) = []"
proof -
  let ?ret = "length (fl_Datasets f)" and ?s = "length (fl_Steps f)" and ?ins = "NewLocalGroupBySorted (Indexes sortOption)"
  obtain g h where h: "add1ShardTo1Step d f = Inr ((?ret, ?s), h)" "with_next n f g"
    "network_ok (map (\<lambda>i. \<lparr>tk_Id = i, tk_InputShards = [(d, i)], tk_OutputShards = [(?ret, i)]\<rparr>) [0..<n]) (Some ?ret) g (Inr (?s, h))"
    "ds_IsLocalSorted (dataset h ?ret) = []"
    using assms by (rule add1ShardTo1Step_ok)
  let ?ts = "map (\<lambda>i. \<lparr>tk_Id = i, tk_InputShards = [(d, i)], tk_OutputShards = [(?ret, i)]\<rparr>) [0..<n]"
  obtain f' where f': "SetInstruction ?s name ?ins h = Inr ((), f')" "one_step n ?ts ?ins f f'"
    using h(3) by (rule one_stepI [OF h(2)])
  let ?set = "\<lambda>g. set_dataset ?ret (\<lambda>ds. ds\<lparr>ds_IsPartitionedBy := Indexes sortOption\<rparr>) g"
  have swap: "SetInstruction ?s name ?ins (?set h) = Inr ((), ?set f')"
    using f'(1) by (auto simp: SetInstruction_def fmod_apply set_step_def set_dataset_def step_def dataset_def)
  have "f' = set_step ?s (\<lambda>st. st\<lparr>st_Name := Instruction_Name ?ins name, st_Instruction := Some ?ins\<rparr>) h"
    using f'(1) by (simp add: SetInstruction_def fmod_apply)
  then have "ds_IsLocalSorted (dataset (?set f') ?ret) = []" using h(4)
    by (simp add: dataset_set_dataset) (simp add: dataset_def set_step_def)
  moreover have "LocalGroupBy name sortOption d f = Inr (?ret, ?set f')"
    using h(1) swap by (simp add: LocalGroupBy_def set_partitioned_def flow_eval)
  moreover have "one_step n ?ts ?ins f (?set f')"
    using f'(2) by (simp add: one_step_def shards_def dataset_set_dataset)
  ultimately show thesis using that by blast
qed

text \<open>
  Grouping a sorted dataset of several shards merges the groups of the shards with an empty order,
  since the dataset of the local groups does not say that it is sorted: the second grouping, which needs
  its input sorted, gets it in no order.
\<close>

theorem GroupBy_merges_unordered:
  assumes "d < length (fl_Datasets f)" "1 < shards f d" "ds_IsLocalSorted (dataset f d) = sortOption"
  shows "\<exists>r f'. GroupBy name sortOption d f = Inr (r, f') \<and>
    map (\<lambda>i. st_Instruction (step f' (length (fl_Steps f) + i))) [0, 1, 2] =
      [Some (NewLocalGroupBySorted (Indexes sortOption)), Some (NewMergeSortedTo []),
       Some (NewLocalGroupBySorted (Indexes sortOption))]"
proof -
  let ?n = "length (fl_Datasets f)" and ?s = "length (fl_Steps f)" and ?ins = "NewLocalGroupBySorted (Indexes sortOption)"
  obtain f1 ts1 where f1: "LocalGroupBy name sortOption d f = Inr (?n, f1)" "one_step (shards f d) ts1 ?ins f f1"
    "ds_IsLocalSorted (dataset f1 ?n) = []" using assms(1) HOL.refl by (rule LocalGroupBy_ok)
  from f1(2) have l1: "length (fl_Datasets f1) = Suc ?n" "length (fl_Steps f1) = Suc ?s" "shards f1 ?n = shards f d"
    by (simp_all add: one_step_def)
  then obtain f2 ts2 where f2: "MergeSortedTo name (int 1) ?n f1 = Inr (Suc ?n, f2)" "one_step 1 ts2 (NewMergeSortedTo []) f1 f2"
    using MergeSortedTo_cases [of 1 ?n f1 "shards f d" name] assms(2) f1(3) by auto
  from f2(2) l1 have l2: "length (fl_Datasets f2) = Suc (Suc ?n)" "length (fl_Steps f2) = Suc (Suc ?s)" "Suc ?n < length (fl_Datasets f2)"
    by (simp_all add: one_step_def)
  obtain f3 ts3 where f3: "LocalGroupBy name sortOption (Suc ?n) f2 = Inr (length (fl_Datasets f2), f3)"
    "one_step (shards f2 (Suc ?n)) ts3 ?ins f2 f3" using l2(3) HOL.refl by (rule LocalGroupBy_ok)
  have "isOrderByEquals sortOption sortOption" by (simp add: isOrderByEquals_def list_all2_same)
  moreover have "shards f1 d = shards f d" using f1(2) assms(1) by (simp add: one_step_def)
  ultimately have "GroupBy name sortOption d f = Inr (Suc (Suc ?n), set_dataset (Suc (Suc ?n)) (\<lambda>ds. ds\<lparr>ds_IsLocalSorted := sortOption\<rparr>) f3)"
    using assms(2,3) f1(1) f2(1) f3(1) l2(1)
    by (simp add: GroupBy_def LocalSort_def several_def set_sorted_def flow_eval)
  moreover have "st_Instruction (step f3 ?s) = Some ?ins" "st_Instruction (step f3 (Suc ?s)) = Some (NewMergeSortedTo [])"
    "st_Instruction (step f3 (Suc (Suc ?s))) = Some ?ins"
    using f1(2) f2(2) f3(2) l1(2) l2(2) by (simp_all add: one_step_def)
  ultimately show ?thesis by simp
qed

theorem GroupBy_merges_unordered_witness:
  "\<exists>r f'. GroupBy ''g'' (Field [1]) 0 (sample_flow 2) = Inr (r, f') \<and> st_Instruction (step f' 1) = Some (NewMergeSortedTo [])"
proof -
  have "\<exists>r f'. GroupBy ''g'' (Field [1]) 0 (sample_flow 2) = Inr (r, f') \<and>
    map (\<lambda>i. st_Instruction (step f' (length (fl_Steps (sample_flow 2)) + i))) [0, 1, 2] =
      [Some (NewLocalGroupBySorted (Indexes (Field [1]))), Some (NewMergeSortedTo []), Some (NewLocalGroupBySorted (Indexes (Field [1])))]"
    by (rule GroupBy_merges_unordered) simp_all
  then show ?thesis by auto
qed

end
