(* ===== verification/FlowTyping.thy ===== *)
theory FlowTyping
  imports FlowDatasets
begin

text \<open>
  Well-formed flow graphs. The pointers between datasets, steps, shards and tasks that the operations of
  \<^verbatim>\<open>flow/\<close> maintain on both sides agree, every dataset is produced by an earlier step than those that read
  it, and every operation a user can call keeps this. The operations are checked with rules in the style of a
  type system: a rule says which datasets a computation needs and which it hands on.
\<close>

section \<open>Well-formed flows\<close>

definition reading_tasks :: "Flow \<Rightarrow> shard_ref \<Rightarrow> task_ref list" where
  "reading_tasks f sh = sh_ReadingTasks (ds_Shards (dataset f (fst sh)) ! snd sh)"

definition ids_ok :: "Flow \<Rightarrow> bool" where
  "ids_ok f \<longleftrightarrow> (\<forall>s<length (fl_Steps f). st_Id (step f s) = s) \<and> (\<forall>d<length (fl_Datasets f). ds_Id (dataset f d) = d)"

definition inputs_ok :: "Flow \<Rightarrow> bool" where
  "inputs_ok f \<longleftrightarrow> (\<forall>s<length (fl_Steps f). \<forall>d\<in>set (st_InputDatasets (step f s)).
     d < length (fl_Datasets f) \<and> s \<in> set (ds_ReadingSteps (dataset f d)) \<and> (\<exists>p < s. ds_Step (dataset f d) = Some p))"

definition readers_ok :: "Flow \<Rightarrow> bool" where
  "readers_ok f \<longleftrightarrow> (\<forall>d<length (fl_Datasets f). \<forall>s\<in>set (ds_ReadingSteps (dataset f d)).
     s < length (fl_Steps f) \<and> d \<in> set (st_InputDatasets (step f s)))"

definition outputs_ok :: "Flow \<Rightarrow> bool" where
  "outputs_ok f \<longleftrightarrow>
     (\<forall>s<length (fl_Steps f). \<forall>d. st_OutputDataset (step f s) = Some d \<longrightarrow>
        d < length (fl_Datasets f) \<and> ds_Step (dataset f d) = Some s) \<and>
     (\<forall>d<length (fl_Datasets f). \<forall>s. ds_Step (dataset f d) = Some s \<longrightarrow>
        s < length (fl_Steps f) \<and> st_OutputDataset (step f s) = Some d)"

definition tasks_ok :: "Flow \<Rightarrow> bool" where
  "tasks_ok f \<longleftrightarrow> (\<forall>s<length (fl_Steps f). \<forall>t<length (st_Tasks (step f s)).
     let task = st_Tasks (step f s) ! t in
     tk_Id task = t \<and>
     (\<forall>sh\<in>set (tk_InputShards task).
        fst sh \<in> set (st_InputDatasets (step f s)) \<and> snd sh < shards f (fst sh) \<and> (s, t) \<in> set (reading_tasks f sh)) \<and>
     (\<forall>sh\<in>set (tk_OutputShards task). st_OutputDataset (step f s) = Some (fst sh) \<and> snd sh < shards f (fst sh)))"

definition shard_readers_ok :: "Flow \<Rightarrow> bool" where
  "shard_readers_ok f \<longleftrightarrow> (\<forall>d<length (fl_Datasets f). \<forall>i < shards f d. \<forall>(s, t)\<in>set (reading_tasks f (d, i)).
     s < length (fl_Steps f) \<and> t < length (st_Tasks (step f s)) \<and> (d, i) \<in> set (tk_InputShards (st_Tasks (step f s) ! t)))"

definition flow_wf :: "Flow \<Rightarrow> bool" where
  "flow_wf f \<longleftrightarrow> ids_ok f \<and> inputs_ok f \<and> readers_ok f \<and> outputs_ok f \<and> tasks_ok f \<and> shard_readers_ok f"

lemmas wf_parts = ids_ok_def inputs_ok_def readers_ok_def outputs_ok_def tasks_ok_def shard_readers_ok_def

text \<open>A dataset that a step produces, and one that no step produces or reads yet.\<close>

definition produced :: "Flow \<Rightarrow> nat \<Rightarrow> bool" where
  "produced f d \<longleftrightarrow> d < length (fl_Datasets f) \<and> ds_Step (dataset f d) \<noteq> None"

definition fresh :: "Flow \<Rightarrow> nat \<Rightarrow> bool" where
  "fresh f d \<longleftrightarrow> d < length (fl_Datasets f) \<and> ds_Step (dataset f d) = None \<and> ds_ReadingSteps (dataset f d) = []"

lemma step_set_step:
  "step (set_step s h f) s' = (if s' = s \<and> s < length (fl_Steps f) then h (step f s) else step f s')"
  by (cases "s < length (fl_Steps f)") (auto simp: step_def list_update_beyond)

lemma set_step_datasets [simp]: "fl_Datasets (set_step s h f) = fl_Datasets f"
  "dataset (set_step s h f) = dataset f" "shards (set_step s h f) = shards f"
  "reading_tasks (set_step s h f) = reading_tasks f"
  by (auto simp: set_step_def dataset_def shards_def reading_tasks_def fun_eq_iff)

lemma flow_wf_New: "flow_wf (New name hashCode)"
  by (simp add: flow_wf_def wf_parts New_def)

lemma wf_inputD:
  assumes "flow_wf f" "s < length (fl_Steps f)" "d \<in> set (st_InputDatasets (step f s))"
  obtains p where "d < length (fl_Datasets f)" "s \<in> set (ds_ReadingSteps (dataset f d))" "p < s" "ds_Step (dataset f d) = Some p"
  using assms unfolding flow_wf_def inputs_ok_def by blast

lemma wf_outputD:
  assumes "flow_wf f" "s < length (fl_Steps f)" "st_OutputDataset (step f s) = Some d"
  shows "d < length (fl_Datasets f)" "ds_Step (dataset f d) = Some s"
  using assms unfolding flow_wf_def outputs_ok_def by blast+

lemma wf_stepD:
  assumes "flow_wf f" "d < length (fl_Datasets f)" "ds_Step (dataset f d) = Some s"
  shows "s < length (fl_Steps f)" "st_OutputDataset (step f s) = Some d"
  using assms unfolding flow_wf_def outputs_ok_def by blast+

lemma wf_readerD:
  assumes "flow_wf f" "d < length (fl_Datasets f)" "s \<in> set (ds_ReadingSteps (dataset f d))"
  shows "s < length (fl_Steps f)" "d \<in> set (st_InputDatasets (step f s))"
  using assms unfolding flow_wf_def readers_ok_def by blast+

lemma wf_shard_readerD:
  assumes "flow_wf f" "d < length (fl_Datasets f)" "i < shards f d" "(s, t) \<in> set (reading_tasks f (d, i))"
  shows "s < length (fl_Steps f)" "t < length (st_Tasks (step f s))" "(d, i) \<in> set (tk_InputShards (st_Tasks (step f s) ! t))"
  using assms unfolding flow_wf_def shard_readers_ok_def by blast+

text \<open>A task: its number, what it reads and what it writes.\<close>

definition task_ok :: "Flow \<Rightarrow> nat \<Rightarrow> nat \<Rightarrow> Task \<Rightarrow> bool" where
  "task_ok f s t task \<longleftrightarrow> tk_Id task = t \<and>
     (\<forall>sh\<in>set (tk_InputShards task).
        fst sh \<in> set (st_InputDatasets (step f s)) \<and> snd sh < shards f (fst sh) \<and> (s, t) \<in> set (reading_tasks f sh)) \<and>
     (\<forall>sh\<in>set (tk_OutputShards task). st_OutputDataset (step f s) = Some (fst sh) \<and> snd sh < shards f (fst sh))"

lemma tasks_ok_alt:
  "tasks_ok f \<longleftrightarrow> (\<forall>s<length (fl_Steps f). \<forall>t<length (st_Tasks (step f s)). task_ok f s t (st_Tasks (step f s) ! t))"
  by (simp add: tasks_ok_def task_ok_def Let_def)

lemma wf_taskD:
  assumes "flow_wf f" "s < length (fl_Steps f)" "t < length (st_Tasks (step f s))"
  shows "task_ok f s t (st_Tasks (step f s) ! t)"
  using assms by (simp add: flow_wf_def tasks_ok_alt)

lemma flow_wfI:
  assumes "\<And>s. s < length (fl_Steps f) \<Longrightarrow> st_Id (step f s) = s" "\<And>d. d < length (fl_Datasets f) \<Longrightarrow> ds_Id (dataset f d) = d"
    and "\<And>s d. s < length (fl_Steps f) \<Longrightarrow> d \<in> set (st_InputDatasets (step f s)) \<Longrightarrow>
      d < length (fl_Datasets f) \<and> s \<in> set (ds_ReadingSteps (dataset f d)) \<and> (\<exists>p < s. ds_Step (dataset f d) = Some p)"
    and "\<And>d s. d < length (fl_Datasets f) \<Longrightarrow> s \<in> set (ds_ReadingSteps (dataset f d)) \<Longrightarrow>
      s < length (fl_Steps f) \<and> d \<in> set (st_InputDatasets (step f s))"
    and "\<And>s d. s < length (fl_Steps f) \<Longrightarrow> st_OutputDataset (step f s) = Some d \<Longrightarrow>
      d < length (fl_Datasets f) \<and> ds_Step (dataset f d) = Some s"
    and "\<And>d s. d < length (fl_Datasets f) \<Longrightarrow> ds_Step (dataset f d) = Some s \<Longrightarrow>
      s < length (fl_Steps f) \<and> st_OutputDataset (step f s) = Some d"
    and "\<And>s t. s < length (fl_Steps f) \<Longrightarrow> t < length (st_Tasks (step f s)) \<Longrightarrow> task_ok f s t (st_Tasks (step f s) ! t)"
    and "\<And>d i s t. d < length (fl_Datasets f) \<Longrightarrow> i < shards f d \<Longrightarrow> (s, t) \<in> set (reading_tasks f (d, i)) \<Longrightarrow>
      s < length (fl_Steps f) \<and> t < length (st_Tasks (step f s)) \<and> (d, i) \<in> set (tk_InputShards (st_Tasks (step f s) ! t))"
  shows "flow_wf f"
  unfolding flow_wf_def ids_ok_def inputs_ok_def readers_ok_def outputs_ok_def tasks_ok_alt shard_readers_ok_def
  using assms by blast

section \<open>Changes that keep a flow well-formed\<close>

text \<open>Labels: what a dataset or a step says about itself without pointing anywhere.\<close>

lemma flow_wf_label_dataset:
  assumes "flow_wf f" "\<And>ds. ds_Id (h ds) = ds_Id ds" "\<And>ds. ds_Shards (h ds) = ds_Shards ds"
    "\<And>ds. ds_Step (h ds) = ds_Step ds" "\<And>ds. ds_ReadingSteps (h ds) = ds_ReadingSteps ds"
  shows "flow_wf (set_dataset d h f)"
proof -
  have "shards (set_dataset d h f) e = shards f e" for e using assms by (simp add: shards_def dataset_set_dataset)
  moreover have "reading_tasks (set_dataset d h f) e = reading_tasks f e" for e
    using assms by (simp add: reading_tasks_def dataset_set_dataset)
  moreover have "ds_Id (dataset (set_dataset d h f) e) = ds_Id (dataset f e)"
    "ds_Step (dataset (set_dataset d h f) e) = ds_Step (dataset f e)"
    "ds_ReadingSteps (dataset (set_dataset d h f) e) = ds_ReadingSteps (dataset f e)" for e
    using assms by (simp_all add: dataset_set_dataset)
  ultimately have "flow_wf (set_dataset d h f) = flow_wf f" unfolding flow_wf_def wf_parts by simp
  then show ?thesis using assms(1) by simp
qed

lemma flow_wf_label_step:
  assumes "flow_wf f" "\<And>st. st_Id (h st) = st_Id st" "\<And>st. st_InputDatasets (h st) = st_InputDatasets st"
    "\<And>st. st_OutputDataset (h st) = st_OutputDataset st" "\<And>st. st_Tasks (h st) = st_Tasks st"
  shows "flow_wf (set_step s h f)"
proof -
  have "st_Id (step (set_step s h f) t) = st_Id (step f t)"
    "st_InputDatasets (step (set_step s h f) t) = st_InputDatasets (step f t)"
    "st_OutputDataset (step (set_step s h f) t) = st_OutputDataset (step f t)"
    "st_Tasks (step (set_step s h f) t) = st_Tasks (step f t)" for t
    using assms by (simp_all add: step_set_step)
  then have "flow_wf (set_step s h f) = flow_wf f" unfolding flow_wf_def wf_parts by simp
  then show ?thesis using assms(1) by simp
qed

text \<open>A new dataset and a new step.\<close>

lemma nth_snoc: "i < Suc (length xs) \<Longrightarrow> (xs @ [x]) ! i = (if i < length xs then xs ! i else x)"
  by (auto simp: nth_append less_Suc_eq)

lemma flow_wf_new_dataset:
  assumes "flow_wf f" "ds_Id ds = length (fl_Datasets f)" "ds_Step ds = None" "ds_ReadingSteps ds = []"
    "\<forall>sh\<in>set (ds_Shards ds). sh_ReadingTasks sh = []"
  shows "flow_wf (f\<lparr>fl_Datasets := fl_Datasets f @ [ds]\<rparr>)"
proof -
  let ?g = "f\<lparr>fl_Datasets := fl_Datasets f @ [ds]\<rparr>"
  have old: "dataset ?g d = dataset f d" "shards ?g d = shards f d" "reading_tasks ?g (d, i) = reading_tasks f (d, i)"
    if "d < length (fl_Datasets f)" for d i
    using that by (simp_all add: dataset_def nth_append shards_def reading_tasks_def)
  have new: "dataset ?g (length (fl_Datasets f)) = ds" by (simp add: dataset_def)
  have readers: "reading_tasks ?g (length (fl_Datasets f), i) = []" if "i < shards ?g (length (fl_Datasets f))" for i
    using that assms(5) new by (simp add: reading_tasks_def shards_def)
  have [simp]: "step ?g = step f" by (simp add: step_def fun_eq_iff)
  have "task_ok ?g s t task" if "task_ok f s t task" "s < length (fl_Steps f)" for s t task
  proof -
    have "shards ?g (fst sh) = shards f (fst sh) \<and> reading_tasks ?g sh = reading_tasks f sh"
      if "fst sh \<in> set (st_InputDatasets (step f s)) \<or> st_OutputDataset (step f s) = Some (fst sh)" for sh
      using that old(2) [of "fst sh"] old(3) [of "fst sh" "snd sh"] wf_inputD [OF assms(1) \<open>s < _\<close>] wf_outputD(1) [OF assms(1) \<open>s < _\<close>]
      by (metis prod.collapse)
    then show ?thesis using that(1) unfolding task_ok_def \<open>step ?g = step f\<close> by metis
  qed
  then have "tasks_ok ?g" using assms(1) by (simp add: flow_wf_def tasks_ok_alt)
  moreover have "shard_readers_ok ?g"
    using assms(1) old readers by (auto simp: flow_wf_def shard_readers_ok_def less_Suc_eq)
  moreover have "ids_ok ?g" using assms(1,2) old(1) new by (simp add: flow_wf_def ids_ok_def less_Suc_eq_le le_less_Suc_eq) (metis le_neq_implies_less)
  moreover have "inputs_ok ?g" unfolding inputs_ok_def \<open>step ?g = step f\<close>
    using wf_inputD [OF assms(1)] old(1) by simp (metis less_SucI)
  moreover have "readers_ok ?g" unfolding readers_ok_def \<open>step ?g = step f\<close>
    using wf_readerD [OF assms(1)] old(1) new assms(4) by (simp add: less_Suc_eq)
  moreover have "outputs_ok ?g" unfolding outputs_ok_def \<open>step ?g = step f\<close>
  proof (intro conjI allI impI)
    fix s d assume "s < length (fl_Steps ?g)" "st_OutputDataset (step f s) = Some d"
    then show "d < length (fl_Datasets ?g)" "ds_Step (dataset ?g d) = Some s"
      using wf_outputD [OF assms(1), of s d] old(1) by simp_all
  next
    fix d s assume "d < length (fl_Datasets ?g)" "ds_Step (dataset ?g d) = Some s"
    then have "d < length (fl_Datasets f)" "ds_Step (dataset f d) = Some s"
      using new assms(3) old(1) by (cases "d = length (fl_Datasets f)"; simp)+
    then show "s < length (fl_Steps ?g)" "st_OutputDataset (step f s) = Some d" using wf_stepD [OF assms(1)] by simp_all
  qed
  ultimately show ?thesis by (simp add: flow_wf_def)
qed

lemma flow_wf_new_step:
  assumes "flow_wf f" "st_Id st = length (fl_Steps f)" "st_InputDatasets st = []" "st_OutputDataset st = None" "st_Tasks st = []"
  shows "flow_wf (f\<lparr>fl_Steps := fl_Steps f @ [st]\<rparr>)"
proof -
  let ?g = "f\<lparr>fl_Steps := fl_Steps f @ [st]\<rparr>"
  have old: "step ?g s = step f s" if "s < length (fl_Steps f)" for s using that by (simp add: step_def nth_append)
  have new: "step ?g (length (fl_Steps f)) = st" by (simp add: step_def)
  have [simp]: "dataset ?g = dataset f" "shards ?g = shards f" "reading_tasks ?g = reading_tasks f"
    by (simp_all add: dataset_def shards_def reading_tasks_def fun_eq_iff)
  have last: "s < length (fl_Steps f) \<or> step ?g s = st" if "s < length (fl_Steps ?g)" for s
    using that new by (auto simp: less_Suc_eq)
  note wf = assms(1)
  show ?thesis
  proof (rule flow_wfI, goal_cases)
    case (1 s)
    then show ?case using wf old new assms(2) by (cases "s = length (fl_Steps f)") (simp_all add: flow_wf_def ids_ok_def)
  next
    case (2 d)
    then show ?case using wf by (simp add: flow_wf_def ids_ok_def)
  next
    case (3 s d)
    then have s: "s < length (fl_Steps f)" "d \<in> set (st_InputDatasets (step f s))" using last [of s] assms(3) old by force+
    obtain p where "d < length (fl_Datasets f)" "s \<in> set (ds_ReadingSteps (dataset f d))" "p < s" "ds_Step (dataset f d) = Some p"
      using wf_inputD [OF wf s] .
    then show ?case by simp
  next
    case (4 d s)
    then show ?case using wf_readerD [OF wf, of d s] old by simp
  next
    case (5 s d)
    then have "s < length (fl_Steps f)" "st_OutputDataset (step f s) = Some d" using last [of s] assms(4) old by force+
    then show ?case using wf_outputD [OF wf, of s d] by simp
  next
    case (6 d s)
    then show ?case using wf_stepD [OF wf, of d s] old by simp
  next
    case (7 s t)
    then have "s < length (fl_Steps f)" "t < length (st_Tasks (step f s))" using last [of s] assms(5) old by force+
    then show ?case using wf_taskD [OF wf, of s t] old by (simp add: task_ok_def)
  next
    case (8 d i s t)
    then show ?case using wf_shard_readerD [OF wf, of d i s t] old by simp
  qed
qed

text \<open>Links between steps and datasets, on both sides.\<close>

lemma set_dataset_shards:
  "(\<And>ds. ds_Shards (h ds) = ds_Shards ds) \<Longrightarrow> shards (set_dataset d h f) = shards f \<and> reading_tasks (set_dataset d h f) = reading_tasks f"
  by (auto simp: shards_def reading_tasks_def dataset_set_dataset fun_eq_iff)

lemma flow_wf_output_link:
  assumes wf: "flow_wf f" and s: "s < length (fl_Steps f)" "st_OutputDataset (step f s) = None" and d: "fresh f d"
  shows "flow_wf (set_step s (\<lambda>st. st\<lparr>st_OutputDataset := Some d\<rparr>) (set_dataset d (\<lambda>ds. ds\<lparr>ds_Step := Some s\<rparr>) f))"
    (is "flow_wf ?g")
proof -
  define g where "g = ?g"
  have g: "dataset g e = (if e = d then (dataset f d)\<lparr>ds_Step := Some s\<rparr> else dataset f e)"
    "step g s' = (if s' = s then (step f s)\<lparr>st_OutputDataset := Some d\<rparr> else step f s')"
    "length (fl_Datasets g) = length (fl_Datasets f)" "length (fl_Steps g) = length (fl_Steps f)" for e s'
    using d s(1) by (simp_all add: g_def fresh_def dataset_set_dataset step_set_step)
  have sh: "shards g = shards f" "reading_tasks g = reading_tasks f" by (simp_all add: g_def set_dataset_shards)
  have read: "e \<noteq> d" if "s' < length (fl_Steps f)" "e \<in> set (st_InputDatasets (step f s'))" for s' e
    by (rule wf_inputD [OF wf that]) (use d in \<open>auto simp: fresh_def\<close>)
  have "flow_wf g"
  proof (rule flow_wfI, goal_cases)
    case (3 s' e)
    then have e: "s' < length (fl_Steps f)" "e \<in> set (st_InputDatasets (step f s'))" by (auto simp: g split: if_splits)
    obtain p where "e < length (fl_Datasets f)" "s' \<in> set (ds_ReadingSteps (dataset f e))" "p < s'" "ds_Step (dataset f e) = Some p"
      using wf_inputD [OF wf e] .
    then show ?case using read [OF e] by (simp add: g)
  next
    case (5 s' e)
    then show ?case using wf_outputD [OF wf, of s' e] d by (auto simp: g fresh_def split: if_splits)
  next
    case (6 e s')
    then show ?case using wf_stepD [OF wf, of e s'] s by (auto simp: g split: if_splits)
  next
    case (7 s' t)
    then show ?case using wf_taskD [OF wf, of s' t] s by (auto simp: g sh task_ok_def split: if_splits)
  next
    case (8 e i s' t)
    then show ?case using wf_shard_readerD [OF wf, of e i s' t] by (auto simp: g sh split: if_splits)
  qed (use wf wf_readerD [OF wf] in \<open>auto simp: g flow_wf_def ids_ok_def split: if_splits\<close>)
  then show ?thesis by (simp add: g_def)
qed

lemma flow_wf_input_link:
  assumes wf: "flow_wf f" and s: "s < length (fl_Steps f)"
    and d: "d < length (fl_Datasets f)" "ds_Step (dataset f d) = Some p" "p < s"
  shows "flow_wf (set_dataset d (\<lambda>ds. ds\<lparr>ds_ReadingSteps := ds_ReadingSteps ds @ [s]\<rparr>)
    (set_step s (\<lambda>st. st\<lparr>st_InputDatasets := st_InputDatasets st @ [d]\<rparr>) f))" (is "flow_wf ?g")
proof -
  define g where "g = ?g"
  have g: "dataset g e = (if e = d then (dataset f d)\<lparr>ds_ReadingSteps := ds_ReadingSteps (dataset f d) @ [s]\<rparr> else dataset f e)"
    "step g s' = (if s' = s then (step f s)\<lparr>st_InputDatasets := st_InputDatasets (step f s) @ [d]\<rparr> else step f s')"
    "length (fl_Datasets g) = length (fl_Datasets f)" "length (fl_Steps g) = length (fl_Steps f)" for e s'
    using d s(1) by (simp_all add: g_def dataset_set_dataset step_set_step)
  have sh: "shards g = shards f" "reading_tasks g = reading_tasks f" by (simp_all add: g_def set_dataset_shards)
  have "flow_wf g"
  proof (rule flow_wfI, goal_cases)
    case (3 s' e)
    show ?case
    proof (cases "s' = s \<and> e = d")
      case True
      then show ?thesis using d by (simp add: g)
    next
      case False
      then have e: "s' < length (fl_Steps f)" "e \<in> set (st_InputDatasets (step f s'))" using 3 by (auto simp: g split: if_splits)
      obtain p where "e < length (fl_Datasets f)" "s' \<in> set (ds_ReadingSteps (dataset f e))" "p < s'" "ds_Step (dataset f e) = Some p"
        using wf_inputD [OF wf e] .
      then show ?thesis by (auto simp: g)
    qed
  next
    case (4 e s')
    then show ?case using wf_readerD [OF wf, of e s'] s by (auto simp: g split: if_splits)
  next
    case (5 s' e)
    then show ?case using wf_outputD [OF wf, of s' e] by (auto simp: g split: if_splits)
  next
    case (6 e s')
    then show ?case using wf_stepD [OF wf, of e s'] by (auto simp: g split: if_splits)
  next
    case (7 s' t)
    then show ?case using wf_taskD [OF wf, of s' t] by (auto simp: g sh task_ok_def split: if_splits)
  next
    case (8 e i s' t)
    then show ?case using wf_shard_readerD [OF wf, of e i s' t] by (auto simp: g sh split: if_splits)
  qed (use wf in \<open>auto simp: g flow_wf_def ids_ok_def split: if_splits\<close>)
  then show ?thesis by (simp add: g_def)
qed

text \<open>Tasks of a step.\<close>

lemma flow_wf_new_task:
  assumes wf: "flow_wf f" and s: "s < length (fl_Steps f)" and t: "tk_Id t = length (st_Tasks (step f s))"
    "tk_InputShards t = []" "tk_OutputShards t = []"
  shows "flow_wf (set_step s (\<lambda>st. st\<lparr>st_Tasks := st_Tasks st @ [t]\<rparr>) f)" (is "flow_wf ?g")
proof -
  define g where "g = ?g"
  have g: "step g s' = (if s' = s then (step f s)\<lparr>st_Tasks := st_Tasks (step f s) @ [t]\<rparr> else step f s')"
    "dataset g = dataset f" "shards g = shards f" "reading_tasks g = reading_tasks f"
    "length (fl_Datasets g) = length (fl_Datasets f)" "length (fl_Steps g) = length (fl_Steps f)" for s'
    using s by (simp_all add: g_def step_set_step)
  have "flow_wf g"
  proof (rule flow_wfI, goal_cases)
    case (3 s' e)
    then have e: "s' < length (fl_Steps f)" "e \<in> set (st_InputDatasets (step f s'))" by (auto simp: g split: if_splits)
    obtain p where "e < length (fl_Datasets f)" "s' \<in> set (ds_ReadingSteps (dataset f e))" "p < s'" "ds_Step (dataset f e) = Some p"
      using wf_inputD [OF wf e] .
    then show ?case by (auto simp: g)
  next
    case (4 e s')
    then show ?case using wf_readerD [OF wf, of e s'] by (auto simp: g split: if_splits)
  next
    case (5 s' e)
    then show ?case using wf_outputD [OF wf, of s' e] by (auto simp: g split: if_splits)
  next
    case (6 e s')
    then show ?case using wf_stepD [OF wf, of e s'] by (auto simp: g split: if_splits)
  next
    case (7 s' k)
    then show ?case using wf_taskD [OF wf, of s' k] t by (auto simp: g task_ok_def nth_append less_Suc_eq split: if_splits)
  next
    case (8 e i s' k)
    then show ?case using wf_shard_readerD [OF wf, of e i s' k] by (auto simp: g nth_append split: if_splits)
  qed (use wf in \<open>auto simp: g flow_wf_def ids_ok_def split: if_splits\<close>)
  then show ?thesis by (simp add: g_def)
qed

lemma flow_wf_read:
  assumes wf: "flow_wf f" and s: "s < length (fl_Steps f)" "t < length (st_Tasks (step f s))"
    and d: "d \<in> set (st_InputDatasets (step f s))" "i < shards f d"
  shows "flow_wf (set_step s (\<lambda>st. st\<lparr>st_Tasks := (st_Tasks st)[t := (st_Tasks st ! t)
        \<lparr>tk_InputShards := tk_InputShards (st_Tasks st ! t) @ [(d, i)]\<rparr>]\<rparr>)
      (set_dataset d (\<lambda>ds. ds\<lparr>ds_Shards := (ds_Shards ds)[i := (ds_Shards ds ! i)
        \<lparr>sh_ReadingTasks := sh_ReadingTasks (ds_Shards ds ! i) @ [(s, t)]\<rparr>]\<rparr>) f))" (is "flow_wf ?g")
proof -
  define g where "g = ?g"
  define task where "task = (st_Tasks (step f s) ! t)\<lparr>tk_InputShards := tk_InputShards (st_Tasks (step f s) ! t) @ [(d, i)]\<rparr>"
  have dl: "d < length (fl_Datasets f)" using wf_inputD [OF wf s(1) d(1)] .
  have g: "step g s' = (if s' = s then (step f s)\<lparr>st_Tasks := (st_Tasks (step f s))[t := task]\<rparr> else step f s')"
    "ds_Id (dataset g e) = ds_Id (dataset f e)" "ds_Step (dataset g e) = ds_Step (dataset f e)"
    "ds_ReadingSteps (dataset g e) = ds_ReadingSteps (dataset f e)" "shards g e = shards f e"
    "length (fl_Datasets g) = length (fl_Datasets f)" "length (fl_Steps g) = length (fl_Steps f)" for e s'
    using s(1) by (simp_all add: g_def task_def dataset_set_dataset step_set_step shards_def)
  have rt: "reading_tasks g sh = (if sh = (d, i) then reading_tasks f sh @ [(s, t)] else reading_tasks f sh)" for sh
    using dl d(2) by (cases sh) (auto simp: g_def reading_tasks_def dataset_set_dataset shards_def nth_list_update)
  have "flow_wf g"
  proof (rule flow_wfI, goal_cases)
    case (3 s' e)
    then have e: "s' < length (fl_Steps f)" "e \<in> set (st_InputDatasets (step f s'))" by (auto simp: g split: if_splits)
    obtain p where "e < length (fl_Datasets f)" "s' \<in> set (ds_ReadingSteps (dataset f e))" "p < s'" "ds_Step (dataset f e) = Some p"
      using wf_inputD [OF wf e] .
    then show ?case by (auto simp: g)
  next
    case (4 e s')
    then show ?case using wf_readerD [OF wf, of e s'] by (auto simp: g split: if_splits)
  next
    case (5 s' e)
    then show ?case using wf_outputD [OF wf, of s' e] by (auto simp: g split: if_splits)
  next
    case (6 e s')
    then show ?case using wf_stepD [OF wf, of e s'] by (auto simp: g split: if_splits)
  next
    case (7 s' k)
    then show ?case using wf_taskD [OF wf, of s' k] d s
      by (auto simp: g rt task_ok_def task_def nth_list_update split: if_splits)
  next
    case (8 e j s' k)
    show ?case
    proof (cases "(e, j) = (d, i) \<and> (s', k) = (s, t)")
      case True
      then show ?thesis using s by (simp add: g task_def)
    next
      case False
      then have "(s', k) \<in> set (reading_tasks f (e, j))" using 8 by (auto simp: rt split: if_splits)
      then show ?thesis using wf_shard_readerD [OF wf, of e j s' k] 8 s by (auto simp: g task_def nth_list_update)
    qed
  qed (use wf in \<open>auto simp: g flow_wf_def ids_ok_def split: if_splits\<close>)
  then show ?thesis by (simp add: g_def)
qed

lemma flow_wf_write:
  assumes wf: "flow_wf f" and s: "s < length (fl_Steps f)" "t < length (st_Tasks (step f s))"
    and d: "st_OutputDataset (step f s) = Some d" "i < shards f d"
  shows "flow_wf (set_step s (\<lambda>st. st\<lparr>st_Tasks := (st_Tasks st)[t := (st_Tasks st ! t)
        \<lparr>tk_OutputShards := tk_OutputShards (st_Tasks st ! t) @ [(d, i)]\<rparr>]\<rparr>) f)" (is "flow_wf ?g")
proof -
  define g where "g = ?g"
  define task where "task = (st_Tasks (step f s) ! t)\<lparr>tk_OutputShards := tk_OutputShards (st_Tasks (step f s) ! t) @ [(d, i)]\<rparr>"
  have g: "step g s' = (if s' = s then (step f s)\<lparr>st_Tasks := (st_Tasks (step f s))[t := task]\<rparr> else step f s')"
    "dataset g = dataset f" "shards g = shards f" "reading_tasks g = reading_tasks f"
    "length (fl_Datasets g) = length (fl_Datasets f)" "length (fl_Steps g) = length (fl_Steps f)" for s'
    using s by (simp_all add: g_def task_def step_set_step)
  have "flow_wf g"
  proof (rule flow_wfI, goal_cases)
    case (3 s' e)
    then have e: "s' < length (fl_Steps f)" "e \<in> set (st_InputDatasets (step f s'))" by (auto simp: g split: if_splits)
    obtain p where "e < length (fl_Datasets f)" "s' \<in> set (ds_ReadingSteps (dataset f e))" "p < s'" "ds_Step (dataset f e) = Some p"
      using wf_inputD [OF wf e] .
    then show ?case by (auto simp: g)
  next
    case (4 e s')
    then show ?case using wf_readerD [OF wf, of e s'] by (auto simp: g split: if_splits)
  next
    case (5 s' e)
    then show ?case using wf_outputD [OF wf, of s' e] by (auto simp: g split: if_splits)
  next
    case (6 e s')
    then show ?case using wf_stepD [OF wf, of e s'] by (auto simp: g split: if_splits)
  next
    case (7 s' k)
    then show ?case using wf_taskD [OF wf, of s' k] d s by (auto simp: g task_ok_def task_def nth_list_update split: if_splits)
  next
    case (8 e j s' k)
    then show ?case using wf_shard_readerD [OF wf, of e j s' k] s by (auto simp: g task_def nth_list_update split: if_splits)
  qed (use wf in \<open>auto simp: g flow_wf_def ids_ok_def split: if_splits\<close>)
  then show ?thesis by (simp add: g_def)
qed

section \<open>Partial correctness of computations\<close>

definition ensures :: "(Flow \<Rightarrow> bool) \<Rightarrow> 'a flow_m \<Rightarrow> ('a \<Rightarrow> Flow \<Rightarrow> bool) \<Rightarrow> bool" where
  "ensures P m Q \<longleftrightarrow> (\<forall>f x f'. P f \<longrightarrow> m f = Inr (x, f') \<longrightarrow> Q x f')"

lemma ensuresD: "ensures P m Q \<Longrightarrow> P f \<Longrightarrow> m f = Inr (x, f') \<Longrightarrow> Q x f'"
  by (auto simp: ensures_def)

lemma ensures_fret: "(\<And>f. P f \<Longrightarrow> Q x f) \<Longrightarrow> ensures P (fret x) Q"
  by (simp add: ensures_def fret_apply)

lemma ensures_fbind: "ensures P m R \<Longrightarrow> (\<And>x. ensures (R x) (k x) Q) \<Longrightarrow> ensures P (fbind m k) Q"
  unfolding ensures_def fbind_apply gbind_eq_Inr by force

lemma ensures_fget: "(\<And>x f. P f \<Longrightarrow> x = g f \<Longrightarrow> Q x f) \<Longrightarrow> ensures P (fget g) Q"
  by (simp add: ensures_def fget_apply)

lemma ensures_fmod: "(\<And>f. P f \<Longrightarrow> Q () (h f)) \<Longrightarrow> ensures P (fmod h) Q"
  by (simp add: ensures_def fmod_apply)

lemma ensures_flift: "(\<And>x f. P f \<Longrightarrow> Q x f) \<Longrightarrow> ensures P (flift r) Q"
  by (auto simp: ensures_def flift_def gbind_eq_Inr)

lemma ensures_ffor: "(\<And>x. x \<in> set xs \<Longrightarrow> ensures P (body x) (\<lambda>_. P)) \<Longrightarrow> ensures P (ffor xs body) (\<lambda>_. P)"
  by (induction xs) (auto intro!: ensures_fret ensures_fbind)

lemma ensures_shard_at: "ensures P (shard_at d i) (\<lambda>sh f. P f \<and> fst sh = d \<and> snd sh < shards f d)"
  by (auto simp: ensures_def shard_at_def nat_less_iff split: if_splits)

lemma ensures_pre: "ensures P m Q \<Longrightarrow> (\<And>f. P' f \<Longrightarrow> P f) \<Longrightarrow> ensures P' m Q"
  by (auto simp: ensures_def)

lemma ensures_post: "ensures P m Q \<Longrightarrow> (\<And>x f. Q x f \<Longrightarrow> Q' x f) \<Longrightarrow> ensures P m Q'"
  by (auto simp: ensures_def)

section \<open>Networks build well-formed steps\<close>

text \<open>A step under construction: which datasets it reads and writes is settled, its tasks are being added.\<close>

definition building :: "Flow \<Rightarrow> nat \<Rightarrow> nat set \<Rightarrow> nat option \<Rightarrow> Flow \<Rightarrow> bool" where
  "building f0 s ins out f \<longleftrightarrow> flow_wf f \<and> s < length (fl_Steps f) \<and> ins \<subseteq> set (st_InputDatasets (step f s)) \<and>
     st_OutputDataset (step f s) = out \<and> length (fl_Datasets f) = length (fl_Datasets f0) \<and>
     (\<forall>d. shards f d = shards f0 d) \<and> (\<forall>d. ds_Step (dataset f d) = ds_Step (dataset f0 d))"

definition building_task :: "Flow \<Rightarrow> nat \<Rightarrow> nat set \<Rightarrow> nat option \<Rightarrow> task_ref \<Rightarrow> Flow \<Rightarrow> bool" where
  "building_task f0 s ins out task f \<longleftrightarrow>
     building f0 s ins out f \<and> fst task = s \<and> snd task < length (st_Tasks (step f s))"

lemma building_taskD: "building_task f0 s ins out task f \<Longrightarrow> building f0 s ins out f"
  by (simp add: building_task_def)

lemma ensures_NewTask: "ensures (building f0 s ins out) (NewTask s) (building_task f0 s ins out)"
proof -
  have "building_task f0 s ins out (s, length (st_Tasks (step f s)))
      (set_step s (\<lambda>st. st\<lparr>st_Tasks := st_Tasks st @ [\<lparr>tk_Id = length (st_Tasks (step f s)), tk_InputShards = [], tk_OutputShards = []\<rparr>]\<rparr>) f)"
    if "building f0 s ins out f" for f
    using that unfolding building_task_def building_def by (simp add: flow_wf_new_task step_set_step)
  then show ?thesis by (auto simp: ensures_def NewTask_def Let_def)
qed

lemma ensures_read:
  assumes "fst sh \<in> ins" "\<And>f. P f \<Longrightarrow> building_task f0 s ins out task f \<and> snd sh < shards f (fst sh)"
  shows "ensures P (fromDatasetShardToTask sh task) (\<lambda>_. building_task f0 s ins out task)"
  unfolding fromDatasetShardToTask_def
proof (rule ensures_fmod)
  fix f assume "P f"
  then have b: "building_task f0 s ins out task f" and i: "snd sh < shards f (fst sh)" using assms(2) by auto
  then have "flow_wf f" "s < length (fl_Steps f)" "snd task < length (st_Tasks (step f s))" "fst sh \<in> set (st_InputDatasets (step f s))"
    using assms(1) by (auto simp: building_task_def building_def)
  from flow_wf_read [OF this i] b show "building_task f0 s ins out task
     ((set_step (fst task) (\<lambda>st. st\<lparr>st_Tasks := (st_Tasks st)[snd task := (st_Tasks st ! snd task)
              \<lparr>tk_InputShards := tk_InputShards (st_Tasks st ! snd task) @ [sh]\<rparr>]\<rparr>) \<circ>
           set_dataset (fst sh) (\<lambda>ds. ds\<lparr>ds_Shards := (ds_Shards ds)[snd sh := (ds_Shards ds ! snd sh)
              \<lparr>sh_ReadingTasks := sh_ReadingTasks (ds_Shards ds ! snd sh) @ [task]\<rparr>]\<rparr>)) f)"
    by (cases task, cases sh) (auto simp: building_task_def building_def step_set_step shards_def dataset_set_dataset)
qed

lemma ensures_write:
  assumes "out = Some (fst sh)" "\<And>f. P f \<Longrightarrow> building_task f0 s ins out task f \<and> snd sh < shards f (fst sh)"
  shows "ensures P (fromTaskToDatasetShard task sh) (\<lambda>_. building_task f0 s ins out task)"
  unfolding fromTaskToDatasetShard_def
proof (rule ensures_fmod)
  fix f assume "P f"
  then have b: "building_task f0 s ins out task f" and i: "snd sh < shards f (fst sh)" using assms(2) by auto
  then have "flow_wf f" "s < length (fl_Steps f)" "snd task < length (st_Tasks (step f s))" "st_OutputDataset (step f s) = Some (fst sh)"
    using assms(1) by (auto simp: building_task_def building_def)
  from flow_wf_write [OF this i] b show "building_task f0 s ins out task
     (set_step (fst task) (\<lambda>st. st\<lparr>st_Tasks := (st_Tasks st)[snd task := (st_Tasks st ! snd task)
              \<lparr>tk_OutputShards := tk_OutputShards (st_Tasks st ! snd task) @ [sh]\<rparr>]\<rparr>) f)"
    by (cases task, cases sh) (auto simp: building_task_def building_def step_set_step)
qed

lemma ensures_shard_read:
  assumes "d \<in> ins"
  shows "ensures (building_task f0 s ins out task) (fbind (shard_at d i) (\<lambda>sh. fromDatasetShardToTask sh task))
    (\<lambda>_. building_task f0 s ins out task)"
proof (rule ensures_fbind [OF ensures_shard_at])
  fix sh
  show "ensures (\<lambda>f. building_task f0 s ins out task f \<and> fst sh = d \<and> snd sh < shards f d) (fromDatasetShardToTask sh task)
    (\<lambda>_. building_task f0 s ins out task)"
  proof (cases "fst sh = d")
    case True
    then show ?thesis using assms by (intro ensures_read) simp_all
  qed (simp add: ensures_def)
qed

lemma ensures_shard_write:
  assumes "out = Some d"
  shows "ensures (building_task f0 s ins out task) (fbind (shard_at d i) (fromTaskToDatasetShard task))
    (\<lambda>_. building_task f0 s ins out task)"
proof (rule ensures_fbind [OF ensures_shard_at])
  fix sh
  show "ensures (\<lambda>f. building_task f0 s ins out task f \<and> fst sh = d \<and> snd sh < shards f d) (fromTaskToDatasetShard task sh)
    (\<lambda>_. building_task f0 s ins out task)"
  proof (cases "fst sh = d")
    case True
    then show ?thesis using assms by (intro ensures_write) simp_all
  qed (simp add: ensures_def)
qed

text \<open>
  What a network needs and gives: its inputs are produced and its output is fresh; afterwards the flow is
  well-formed, its output is produced and so is every dataset that was.
\<close>

definition net_ok :: "nat set \<Rightarrow> nat option \<Rightarrow> 'a flow_m \<Rightarrow> bool" where
  "net_ok ins out m \<longleftrightarrow> (\<forall>f x f'. flow_wf f \<longrightarrow> (\<forall>d\<in>ins. produced f d) \<longrightarrow> (\<forall>d. out = Some d \<longrightarrow> fresh f d) \<longrightarrow>
     m f = Inr (x, f') \<longrightarrow> flow_wf f' \<and> (\<forall>d. produced f d \<longrightarrow> produced f' d) \<and> (\<forall>d. out = Some d \<longrightarrow> produced f' d))"

definition inputs_of :: "nat option list \<Rightarrow> nat set" where
  "inputs_of inputs = {d. Some d \<in> set inputs}"

lemma ensures_fromDatasetToStep:
  "ensures (\<lambda>f. building f0 s ins out f \<and> (\<forall>d. input = Some d \<longrightarrow> d < length (fl_Datasets f0) \<and> (\<exists>p < s. ds_Step (dataset f0 d) = Some p)))
    (fromDatasetToStep input s) (\<lambda>_. building f0 s (ins \<union> inputs_of [input]) out)"
proof (cases input)
  case None
  then show ?thesis by (auto simp: fromDatasetToStep_def inputs_of_def intro: ensures_fret)
next
  case (Some d)
  let ?g = "\<lambda>f. set_dataset d (\<lambda>ds. ds\<lparr>ds_ReadingSteps := ds_ReadingSteps ds @ [s]\<rparr>)
      (set_step s (\<lambda>st. st\<lparr>st_InputDatasets := st_InputDatasets st @ [d]\<rparr>) f)"
  have "building f0 s (ins \<union> inputs_of [input]) out (?g f)"
    if b: "building f0 s ins out f" and d: "d < length (fl_Datasets f0)" and p: "p < s" "ds_Step (dataset f0 d) = Some p" for f p
  proof -
    have "flow_wf (?g f)" by (rule flow_wf_input_link [where p = p]) (use b d p in \<open>simp_all add: building_def\<close>)
    then show ?thesis using b Some
      by (auto simp: building_def inputs_of_def step_set_step dataset_set_dataset set_dataset_shards)
  qed
  then show ?thesis using Some by (auto simp: fromDatasetToStep_def intro!: ensures_fmod)
qed

lemma ensures_inputs:
  assumes "\<forall>d\<in>inputs_of inputs. d < length (fl_Datasets f0) \<and> (\<exists>p < s. ds_Step (dataset f0 d) = Some p)"
  shows "ensures (building f0 s ins out) (ffor inputs (\<lambda>input. fromDatasetToStep input s)) (\<lambda>_. building f0 s (ins \<union> inputs_of inputs) out)"
  using assms
proof (induction inputs arbitrary: ins)
  case Nil
  then show ?case by (auto simp: inputs_of_def intro!: ensures_fret)
next
  case (Cons input inputs)
  have eq: "inputs_of (input # inputs) = inputs_of [input] \<union> inputs_of inputs" by (auto simp: inputs_of_def)
  have first: "ensures (building f0 s ins out) (fromDatasetToStep input s) (\<lambda>_. building f0 s (ins \<union> inputs_of [input]) out)"
    by (rule ensures_pre [OF ensures_fromDatasetToStep]) (use Cons.prems in \<open>auto simp: inputs_of_def\<close>)
  have "\<forall>d\<in>inputs_of inputs. d < length (fl_Datasets f0) \<and> (\<exists>p < s. ds_Step (dataset f0 d) = Some p)"
    using Cons.prems unfolding eq by blast
  from ensures_fbind [OF first Cons.IH [OF this]] show ?case unfolding eq Un_assoc [symmetric] ffor.simps .
qed

text \<open>A new step, wired to its datasets.\<close>

lemma new_step_building:
  assumes wf: "flow_wf f" and ins: "\<forall>d\<in>inputs_of inputs. produced f d" and out: "\<forall>d. out = Some d \<longrightarrow> fresh f d"
    and run: "new_step network inputs out f = Inr (s, f')"
  obtains f0 where "building f0 s (inputs_of inputs) out f'" "\<forall>d. produced f d \<longrightarrow> produced f0 d" "\<forall>d. out = Some d \<longrightarrow> produced f0 d"
proof -
  let ?s = "length (fl_Steps f)"
  define st where "st = \<lparr>st_Id = ?s, st_InputDatasets = [], st_OutputDataset = None,
       st_Instruction = None, st_Tasks = [], st_Name = [], st_Description = [], st_NetworkType = OneShardToOneShard,
       st_IsOnDriverSide = False, st_IsPipe = False, st_IsGoCode = False, st_Command = None,
       st_IsRestartable = False, st_IsIdempotent = True\<rparr>"
  define f1 where "f1 = f\<lparr>fl_Steps := fl_Steps f @ [st]\<rparr>"
  define f2 where "f2 = set_step ?s (\<lambda>st. st\<lparr>st_NetworkType := network\<rparr>) f1"
  have f2: "flow_wf f2" "length (fl_Steps f2) = Suc ?s" "st_OutputDataset (step f2 ?s) = None" "fl_Datasets f2 = fl_Datasets f"
    unfolding f2_def using flow_wf_new_step [OF wf, of st]
    by (auto simp: f1_def st_def step_set_step intro!: flow_wf_label_step) (simp add: step_def)
  then have ds2: "dataset f2 = dataset f" "produced f2 = produced f" "fresh f2 = fresh f"
    by (auto simp: dataset_def produced_def fresh_def fun_eq_iff)
  obtain f3 where f3: "fromStepToDataset ?s out f2 = Inr ((), f3)" "flow_wf f3" "length (fl_Steps f3) = Suc ?s"
    "st_OutputDataset (step f3 ?s) = out" "length (fl_Datasets f3) = length (fl_Datasets f)"
    "\<forall>d. produced f d \<longrightarrow> ds_Step (dataset f3 d) = ds_Step (dataset f d)" "\<forall>d. out = Some d \<longrightarrow> produced f3 d"
  proof (cases out)
    case None
    then show ?thesis using that f2 ds2 by (simp add: fromStepToDataset_def fret_apply)
  next
    case (Some d)
    have "flow_wf (set_step ?s (\<lambda>st. st\<lparr>st_OutputDataset := Some d\<rparr>) (set_dataset d (\<lambda>ds. ds\<lparr>ds_Step := Some ?s\<rparr>) f2))"
      by (rule flow_wf_output_link) (use f2 ds2 out Some in simp_all)
    then show ?thesis using that Some f2 ds2 out
      by (simp add: fromStepToDataset_def fmod_apply step_set_step dataset_set_dataset produced_def fresh_def)
  qed
  have early: "\<exists>p < ?s. ds_Step (dataset f3 d) = Some p" if "produced f d" for d
    using that f3(6) wf_stepD [OF wf, of d] by (auto simp: produced_def)
  have "building f3 ?s {} out f3" using f3 by (simp add: building_def)
  moreover have "ensures (building f3 ?s {} out) (ffor inputs (\<lambda>input. fromDatasetToStep input ?s)) (\<lambda>_. building f3 ?s (inputs_of inputs) out)"
    using ensures_inputs [of inputs f3 ?s "{}" out] ins early f3(5) by (simp add: produced_def)
  moreover have "s = ?s" "ffor inputs (\<lambda>input. fromDatasetToStep input ?s) f3 = Inr ((), f')"
    using run f3(1) by (auto simp: new_step_def NewStep_def flow_eval f2_def f1_def st_def gbind_eq_Inr)
  ultimately have "building f3 s (inputs_of inputs) out f'" using ensuresD by metis
  moreover have "produced f3 d" if "produced f d" for d using that f3(5,6) by (simp add: produced_def)
  ultimately show thesis using that f3(7) by blast
qed

lemma net_okI:
  assumes "\<And>f0 s. ensures (building f0 s (inputs_of inputs) out) (k s) (\<lambda>_. building f0 s (inputs_of inputs) out)"
  shows "net_ok (inputs_of inputs) out (fbind (new_step network inputs out) k)"
  unfolding net_ok_def
proof (intro allI impI)
  fix f x f' assume wf: "flow_wf f" and ins: "\<forall>d\<in>inputs_of inputs. produced f d" and out: "\<forall>d. out = Some d \<longrightarrow> fresh f d"
    and run: "fbind (new_step network inputs out) k f = Inr (x, f')"
  then obtain s f1 where s: "new_step network inputs out f = Inr (s, f1)" "k s f1 = Inr (x, f')"
    by (auto simp: fbind_apply gbind_eq_Inr)
  obtain f0 where f0: "building f0 s (inputs_of inputs) out f1" "\<forall>d. produced f d \<longrightarrow> produced f0 d" "\<forall>d. out = Some d \<longrightarrow> produced f0 d"
    using new_step_building [OF wf ins out s(1)] .
  have "building f0 s (inputs_of inputs) out f'" using ensuresD [OF assms f0(1) s(2)] .
  then show "flow_wf f' \<and> (\<forall>d. produced f d \<longrightarrow> produced f' d) \<and> (\<forall>d. out = Some d \<longrightarrow> produced f' d)"
    using f0(2,3) by (auto simp: building_def produced_def)
qed

lemma ensures_shards:
  assumes "ensures (building f0 s ins out) (k (shards f0 d)) Q"
  shows "ensures (building f0 s ins out) (fbind (fget (\<lambda>f. shards f d)) k) Q"
  using assms by (simp add: ensures_def fbind_apply fget_apply building_def)

lemma ensures_task_shards:
  assumes "ensures (building_task f0 s ins out task) (k (shards f0 d)) Q"
  shows "ensures (building_task f0 s ins out task) (fbind (fget (\<lambda>f. shards f d)) k) Q"
  using assms by (simp add: ensures_def fbind_apply fget_apply building_task_def building_def)

lemma ensures_read_at:
  "d \<in> ins \<Longrightarrow> i < shards f0 d \<Longrightarrow>
    ensures (building_task f0 s ins out task) (fromDatasetShardToTask (d, i) task) (\<lambda>_. building_task f0 s ins out task)"
  by (rule ensures_read) (auto simp: building_task_def building_def)

lemma ensures_write_at:
  "out = Some d \<Longrightarrow> i < shards f0 d \<Longrightarrow>
    ensures (building_task f0 s ins out task) (fromTaskToDatasetShard task (d, i)) (\<lambda>_. building_task f0 s ins out task)"
  by (rule ensures_write) (auto simp: building_task_def building_def)

lemma ensures_task:
  assumes "\<And>task. ensures (building_task f0 s ins out task) (k task) (\<lambda>_. building_task f0 s ins out task)"
  shows "ensures (building f0 s ins out) (fbind (NewTask s) k) (\<lambda>_. building f0 s ins out)"
  by (rule ensures_fbind [OF ensures_NewTask], rule ensures_post [OF assms], erule building_taskD)

lemma ensures_seq:
  "ensures P m (\<lambda>_. P) \<Longrightarrow> (\<And>x. ensures P (k x) (\<lambda>_. P)) \<Longrightarrow> ensures P (fbind m k) (\<lambda>_. P)"
  by (rule ensures_fbind)

lemma ensures_return: "ensures P (fret x) (\<lambda>_. P)"
  by (rule ensures_fret)

lemmas network_rules = ensures_seq ensures_return ensures_ffor ensures_shard_read ensures_shard_write ensures_read_at ensures_write_at

lemma ensures_when:
  "(\<And>b. (b \<Longrightarrow> C) \<Longrightarrow> ensures P (k b) Q) \<Longrightarrow> (\<And>f. P f \<Longrightarrow> g f \<Longrightarrow> C) \<Longrightarrow> ensures P (fbind (fget g) k) Q"
  by (auto simp: ensures_def fbind_apply fget_apply)

lemma AddOneToOneStep_net: "net_ok (inputs_of [input]) out (AddOneToOneStep input out)"
  unfolding AddOneToOneStep_def
proof (rule net_okI, rule ensures_when [where C = "out = Some (the out)"], rule ensures_seq [OF _ ensures_return], goal_cases)
  case (1 f0 s b)
  then show ?case
    by (cases input; cases b) (auto intro!: ensures_shards ensures_ffor ensures_task ensures_seq ensures_shard_write ensures_return ensures_read_at
        simp: inputs_of_def)
next
  case (2 f0 s f)
  then show ?case by (cases out) auto
qed

lemma AddAllToOneStep_net: "net_ok {input} out (AddAllToOneStep input out)"
proof -
  have "net_ok (inputs_of [Some input]) out (AddAllToOneStep input out)"
    unfolding AddAllToOneStep_def
    by (rule net_okI)
      (cases out; auto intro!: ensures_task ensures_seq ensures_shard_write ensures_return ensures_task_shards ensures_ffor ensures_read_at
        simp: inputs_of_def)
  then show ?thesis by (simp add: inputs_of_def)
qed

lemma AddOneToAllStep_net: "net_ok (inputs_of [input]) (Some out) (AddOneToAllStep input out)"
  unfolding AddOneToAllStep_def
  by (rule net_okI)
    (cases input; auto intro!: ensures_task ensures_seq ensures_shard_read ensures_return ensures_task_shards ensures_ffor ensures_write_at
      simp: inputs_of_def)

lemma AddAllToAllStep_net: "net_ok {input} (Some out) (AddAllToAllStep input out)"
proof -
  have "net_ok (inputs_of [Some input]) (Some out) (AddAllToAllStep input out)"
    unfolding AddAllToAllStep_def
    by (rule net_okI) (auto intro!: ensures_task ensures_task_shards ensures_seq ensures_return ensures_ffor ensures_read_at ensures_write_at
        simp: inputs_of_def)
  then show ?thesis by (simp add: inputs_of_def)
qed

lemma AddOneToEveryNStep_net: "net_ok {input} (Some out) (AddOneToEveryNStep input n out)"
proof -
  have "net_ok (inputs_of [Some input]) (Some out) (AddOneToEveryNStep input n out)"
    unfolding AddOneToEveryNStep_def
    by (rule net_okI) (auto intro!: ensures_shards ensures_task ensures_seq ensures_return ensures_ffor ensures_read_at ensures_shard_write
        simp: inputs_of_def)
  then show ?thesis by (simp add: inputs_of_def)
qed

lemma AddLinkedNToOneStep_net: "net_ok {input} (Some out) (AddLinkedNToOneStep input m out)"
proof -
  have "net_ok (inputs_of [Some input]) (Some out) (AddLinkedNToOneStep input m out)"
    unfolding AddLinkedNToOneStep_def
    by (rule net_okI) (auto intro!: ensures_shards ensures_task ensures_seq ensures_return ensures_ffor ensures_write_at ensures_shard_read
        simp: inputs_of_def)
  then show ?thesis by (simp add: inputs_of_def)
qed

lemma MergeDatasets1ShardTo1Step_net: "net_ok (set inputs) out (MergeDatasets1ShardTo1Step inputs out)"
proof -
  have "net_ok (inputs_of (map Some inputs)) out (MergeDatasets1ShardTo1Step inputs out)"
    unfolding MergeDatasets1ShardTo1Step_def
    by (rule net_okI)
      (cases out; auto intro!: ensures_shards ensures_task ensures_seq ensures_return ensures_ffor ensures_write_at ensures_shard_read
        simp: inputs_of_def)
  then show ?thesis by (simp add: inputs_of_def image_iff)
qed

section \<open>Rules for the operations\<close>

text \<open>
  \<open>typed V F m R G\<close>: when the datasets in \<open>V\<close> are produced and those in \<open>F\<close> fresh, \<open>m\<close> keeps the flow
  well-formed and every produced dataset produced; its result \<open>x\<close> hands on the produced datasets \<open>R x\<close>
  and the fresh ones \<open>G x\<close>.
\<close>

definition typed :: "nat set \<Rightarrow> nat set \<Rightarrow> 'a flow_m \<Rightarrow> ('a \<Rightarrow> nat set) \<Rightarrow> ('a \<Rightarrow> nat set) \<Rightarrow> bool" where
  "typed V F m R G \<longleftrightarrow> (\<forall>f x f'. flow_wf f \<longrightarrow> (\<forall>d\<in>V. produced f d) \<longrightarrow> (\<forall>d\<in>F. fresh f d) \<longrightarrow> m f = Inr (x, f') \<longrightarrow>
     flow_wf f' \<and> (\<forall>d. produced f d \<longrightarrow> produced f' d) \<and> (\<forall>d\<in>R x. produced f' d) \<and> (\<forall>d\<in>G x. fresh f' d))"

lemma typed_fret: "R x \<subseteq> V \<Longrightarrow> G x \<subseteq> F \<Longrightarrow> typed V F (fret x) R G"
  by (auto simp: typed_def fret_apply)

lemma typed_ret: "d \<in> V \<Longrightarrow> typed V F (fret d) (\<lambda>r. {r}) (\<lambda>_. {})"
  by (rule typed_fret) simp_all

lemma typed_fbind:
  assumes "typed V F m R G" "\<And>x. typed (V \<union> R x) (G x) (k x) T H"
  shows "typed V F (fbind m k) T H"
  unfolding typed_def
proof (intro allI impI)
  fix f y f' assume f: "flow_wf f" "\<forall>d\<in>V. produced f d" "\<forall>d\<in>F. fresh f d" and run: "fbind m k f = Inr (y, f')"
  then obtain x g where x: "m f = Inr (x, g)" "k x g = Inr (y, f')" by (auto simp: fbind_apply gbind_eq_Inr)
  have g: "flow_wf g" "\<forall>d. produced f d \<longrightarrow> produced g d" "\<forall>d\<in>R x. produced g d" "\<forall>d\<in>G x. fresh g d"
    using assms(1) f x(1) unfolding typed_def by blast+
  then have "\<forall>d\<in>V \<union> R x. produced g d" using f(2) by blast
  then have "flow_wf f' \<and> (\<forall>d. produced g d \<longrightarrow> produced f' d) \<and> (\<forall>d\<in>T y. produced f' d) \<and> (\<forall>d\<in>H y. fresh f' d)"
    using assms(2) [of x] g(1,4) x(2) unfolding typed_def by blast
  then show "flow_wf f' \<and> (\<forall>d. produced f d \<longrightarrow> produced f' d) \<and> (\<forall>d\<in>T y. produced f' d) \<and> (\<forall>d\<in>H y. fresh f' d)"
    using g(2) by blast
qed

lemma typed_fget: "typed V F (fget g) (\<lambda>_. {}) (\<lambda>_. F)"
  by (auto simp: typed_def fget_apply)

lemma typed_flift: "typed V F (flift r) (\<lambda>_. {}) (\<lambda>_. F)"
  by (auto simp: typed_def flift_def gbind_eq_Inr)

lemma typed_if: "typed V F a R G \<Longrightarrow> typed V F b R G \<Longrightarrow> typed V F (if c then a else b) R G"
  by simp

lemma typed_prod: "(\<And>a b. x = (a, b) \<Longrightarrow> typed V F (k a b) R G) \<Longrightarrow> typed V F (case x of (a, b) \<Rightarrow> k a b) R G"
  by (cases x) simp

lemma typed_label_dataset:
  assumes "\<And>ds. ds_Id (h ds) = ds_Id ds" "\<And>ds. ds_Shards (h ds) = ds_Shards ds"
    "\<And>ds. ds_Step (h ds) = ds_Step ds" "\<And>ds. ds_ReadingSteps (h ds) = ds_ReadingSteps ds"
  shows "typed V F (fmod (set_dataset d h)) (\<lambda>_. {}) (\<lambda>_. F)"
proof -
  have "produced (set_dataset d h f) = produced f" "fresh (set_dataset d h f) = fresh f" for f
    using assms by (auto simp: produced_def fresh_def dataset_set_dataset fun_eq_iff)
  then show ?thesis using flow_wf_label_dataset [of _ h d] assms by (auto simp: typed_def fmod_apply)
qed

lemma typed_label_step:
  assumes "\<And>st. st_Id (h st) = st_Id st" "\<And>st. st_InputDatasets (h st) = st_InputDatasets st"
    "\<And>st. st_OutputDataset (h st) = st_OutputDataset st" "\<And>st. st_Tasks (h st) = st_Tasks st"
  shows "typed V F (fmod (set_step s h)) (\<lambda>_. {}) (\<lambda>_. F)"
proof -
  have "produced (set_step s h f) = produced f" "fresh (set_step s h f) = fresh f" for f
    by (auto simp: produced_def fresh_def fun_eq_iff)
  then show ?thesis using flow_wf_label_step [of _ h s] assms by (auto simp: typed_def fmod_apply)
qed

lemma typed_NewNextDataset: "typed V F (NewNextDataset n) (\<lambda>_. {}) (\<lambda>x. insert x F)"
  unfolding typed_def NewNextDataset_apply
proof (intro allI impI, elim Inr_inject [elim_format] Pair_inject, goal_cases)
  case (1 f x f')
  let ?ds = "\<lparr>ds_Id = length (fl_Datasets f), ds_Shards = replicate (nat n) \<lparr>sh_ReadingTasks = []\<rparr>, ds_Step = None, ds_ReadingSteps = [],
       ds_IsPartitionedBy = [], ds_IsLocalSorted = [], ds_TotalSize = - 1, ds_OnDisk = ModeInMemory\<rparr>"
  have "flow_wf (f\<lparr>fl_Datasets := fl_Datasets f @ [?ds]\<rparr>)" by (rule flow_wf_new_dataset) (use 1 in simp_all)
  moreover have "dataset (f\<lparr>fl_Datasets := fl_Datasets f @ [?ds]\<rparr>) d = (if d < length (fl_Datasets f) then dataset f d else ?ds)"
    if "d < Suc (length (fl_Datasets f))" for d
    using that by (auto simp: dataset_def nth_append)
  ultimately show ?case using 1(3) 1(4,5)[symmetric] by (auto simp: produced_def fresh_def)
qed

lemma typed_net: "net_ok ins (Some out) m \<Longrightarrow> ins \<subseteq> V \<Longrightarrow> out \<in> F \<Longrightarrow> typed V F m (\<lambda>_. {out}) (\<lambda>_. {})"
  unfolding net_ok_def typed_def by blast

lemma typed_sink: "net_ok ins None m \<Longrightarrow> ins \<subseteq> V \<Longrightarrow> typed V F m (\<lambda>_. {}) (\<lambda>_. {})"
  unfolding net_ok_def typed_def by blast

end
