(* ===== verification/FlowOnDisk.thy ===== *)
theory FlowOnDisk
  imports FlowTyping
begin

text \<open>
  \<^verbatim>\<open>Dataset.OnDisk\<close> (\<^verbatim>\<open>flow/dataset_hint.go\<close>): a function builds a part of the flow from a dataset \<open>d\<close>; afterwards the loop walks
  from its result back towards \<open>d\<close>, level by level, and marks the datasets in between as persisted and their steps as
  restartable. The loop follows pointers and need not end, so it is a partial function: \<open>None\<close> means that it does not return.
\<close>

section \<open>Operations\<close>

definition on_disk_one :: "nat \<Rightarrow> nat \<Rightarrow> nat \<Rightarrow> nat list flow_m" where
  "on_disk_one d ret t =
     fbind (fget (\<lambda>f. ds_Step (dataset f t))) (\<lambda>producer.
       case producer of
         None \<Rightarrow> flift (Inl PanicNil)
       | Some s \<Rightarrow>
           fbind (if t = ret then fret ()
                  else fbind (fget (\<lambda>f. st_OutputDataset (step f s))) (\<lambda>out.
                    case out of
                      None \<Rightarrow> fret ()
                    | Some e \<Rightarrow> fmod (set_dataset e (\<lambda>ds. ds\<lparr>ds_OnDisk := ModeOnDisk\<rparr>)))) (\<lambda>_.
           fbind (fget (\<lambda>f. st_InputDatasets (step f s))) (\<lambda>inputs.
           fbind (if d \<notin> set inputs \<and> t \<noteq> ret then fmod (set_step s (\<lambda>st. st\<lparr>st_IsRestartable := True\<rparr>)) else fret ()) (\<lambda>_.
           fret (filter (\<lambda>p. p \<noteq> d) inputs)))))"

fun on_disk_level :: "nat \<Rightarrow> nat \<Rightarrow> nat list \<Rightarrow> nat list flow_m" where
  "on_disk_level d ret [] = fret []"
| "on_disk_level d ret (t # currents) =
     fbind (on_disk_one d ret t) (\<lambda>parents.
     fbind (on_disk_level d ret currents) (\<lambda>rest. fret (parents @ rest)))"

partial_function (option) on_disk_loop :: "nat \<Rightarrow> nat \<Rightarrow> nat list \<Rightarrow> Flow \<Rightarrow> Flow go option" where
  "on_disk_loop d ret currents f =
     (case on_disk_level d ret currents f of
        Inl p \<Rightarrow> Some (Inl p)
      | Inr (parents, f') \<Rightarrow> if parents = [] then Some (Inr f') else on_disk_loop d ret parents f')"

declare on_disk_loop.simps [code]

definition OnDisk :: "(nat \<Rightarrow> nat flow_m) \<Rightarrow> nat \<Rightarrow> Flow \<Rightarrow> (nat \<times> Flow) go option" where
  "OnDisk fn d f =
     (case fn d f of
        Inl p \<Rightarrow> Some (Inl p)
      | Inr (ret, f') \<Rightarrow> map_option (\<lambda>r. gbind r (\<lambda>f''. Inr (ret, f''))) (on_disk_loop d ret [ret] f'))"

section \<open>Marks\<close>

text \<open>A flow with some datasets marked as persisted and some steps as restartable.\<close>

definition marked :: "nat set \<Rightarrow> nat set \<Rightarrow> Flow \<Rightarrow> Flow" where
  "marked D S f = f\<lparr>
     fl_Datasets := map (\<lambda>i. if i \<in> D then (fl_Datasets f ! i)\<lparr>ds_OnDisk := ModeOnDisk\<rparr> else fl_Datasets f ! i) [0..<length (fl_Datasets f)],
     fl_Steps := map (\<lambda>i. if i \<in> S then (fl_Steps f ! i)\<lparr>st_IsRestartable := True\<rparr> else fl_Steps f ! i) [0..<length (fl_Steps f)]\<rparr>"

lemma marked_length [simp]: "length (fl_Datasets (marked D S f)) = length (fl_Datasets f)" "length (fl_Steps (marked D S f)) = length (fl_Steps f)"
  by (simp_all add: marked_def)

lemma marked_dataset:
  "e < length (fl_Datasets f) \<Longrightarrow> dataset (marked D S f) e = (if e \<in> D then (dataset f e)\<lparr>ds_OnDisk := ModeOnDisk\<rparr> else dataset f e)"
  by (simp add: marked_def dataset_def)

lemma marked_step:
  "s < length (fl_Steps f) \<Longrightarrow> step (marked D S f) s = (if s \<in> S then (step f s)\<lparr>st_IsRestartable := True\<rparr> else step f s)"
  by (simp add: marked_def step_def)

lemma marked_none [simp]: "marked {} {} f = f"
  by (simp add: marked_def map_nth)

lemma marked_fields:
  "e < length (fl_Datasets f) \<Longrightarrow> ds_Step (dataset (marked D S f) e) = ds_Step (dataset f e)"
  "e < length (fl_Datasets f) \<Longrightarrow> ds_ReadingSteps (dataset (marked D S f) e) = ds_ReadingSteps (dataset f e)"
  "e < length (fl_Datasets f) \<Longrightarrow> ds_Id (dataset (marked D S f) e) = ds_Id (dataset f e)"
  "e < length (fl_Datasets f) \<Longrightarrow> ds_Shards (dataset (marked D S f) e) = ds_Shards (dataset f e)"
  "s < length (fl_Steps f) \<Longrightarrow> st_InputDatasets (step (marked D S f) s) = st_InputDatasets (step f s)"
  "s < length (fl_Steps f) \<Longrightarrow> st_OutputDataset (step (marked D S f) s) = st_OutputDataset (step f s)"
  "s < length (fl_Steps f) \<Longrightarrow> st_Id (step (marked D S f) s) = st_Id (step f s)"
  "s < length (fl_Steps f) \<Longrightarrow> st_Tasks (step (marked D S f) s) = st_Tasks (step f s)"
  by (simp_all add: marked_dataset marked_step)

lemma marked_set_dataset:
  assumes "e < length (fl_Datasets f)"
  shows "set_dataset e (\<lambda>ds. ds\<lparr>ds_OnDisk := ModeOnDisk\<rparr>) (marked D S f) = marked (insert e D) S f"
proof -
  have "(fl_Datasets (marked D S f))[e := (dataset (marked D S f) e)\<lparr>ds_OnDisk := ModeOnDisk\<rparr>] = fl_Datasets (marked (insert e D) S f)"
    using assms by (intro nth_equalityI) (auto simp: nth_list_update marked_def dataset_def)
  then show ?thesis by (simp add: set_dataset_def marked_def)
qed

lemma marked_set_step:
  assumes "s < length (fl_Steps f)"
  shows "set_step s (\<lambda>st. st\<lparr>st_IsRestartable := True\<rparr>) (marked D S f) = marked D (insert s S) f"
proof -
  have "(fl_Steps (marked D S f))[s := (step (marked D S f) s)\<lparr>st_IsRestartable := True\<rparr>] = fl_Steps (marked D (insert s S) f)"
    using assms by (intro nth_equalityI) (auto simp: nth_list_update marked_def step_def)
  then show ?thesis by (simp add: set_step_def marked_def)
qed

lemma marked_beyond: "marked D S f = marked (D \<inter> {..<length (fl_Datasets f)}) (S \<inter> {..<length (fl_Steps f)}) f"
  by (simp add: marked_def)

lemma flow_wf_marked:
  assumes "flow_wf f"
  shows "flow_wf (marked D S f)"
proof -
  have "flow_wf (marked {} S f)" if "finite S" "S \<subseteq> {..<length (fl_Steps f)}" for S
    using that
  proof (induction rule: finite_induct)
    case (insert s S)
    then show ?case using flow_wf_label_step [of "marked {} S f" "\<lambda>st. st\<lparr>st_IsRestartable := True\<rparr>" s] marked_set_step [of s f "{}" S] by simp
  qed (simp add: assms)
  then have steps: "flow_wf (marked {} (S \<inter> {..<length (fl_Steps f)}) f)" by simp
  have "flow_wf (marked D (S \<inter> {..<length (fl_Steps f)}) f)" if "finite D" "D \<subseteq> {..<length (fl_Datasets f)}" for D
    using that
  proof (induction rule: finite_induct)
    case (insert e D)
    then show ?case
      using flow_wf_label_dataset [of "marked D (S \<inter> {..<length (fl_Steps f)}) f" "\<lambda>ds. ds\<lparr>ds_OnDisk := ModeOnDisk\<rparr>" e]
        marked_set_dataset [of e f D "S \<inter> {..<length (fl_Steps f)}"] by simp
  qed (simp add: steps)
  then show ?thesis using marked_beyond [of D S f] by simp
qed

lemma produced_marked: "produced f e \<Longrightarrow> produced (marked D S f) e"
  by (simp add: produced_def marked_fields)

section \<open>What the loop marks\<close>

text \<open>The datasets between a set of datasets and \<open>d\<close>: what is reached against the direction of the data without passing \<open>d\<close>.\<close>

inductive upstream :: "Flow \<Rightarrow> nat \<Rightarrow> nat set \<Rightarrow> nat \<Rightarrow> bool" for f d C where
  up_start: "e \<in> C \<Longrightarrow> upstream f d C e"
| up_input: "upstream f d C e \<Longrightarrow> ds_Step (dataset f e) = Some s \<Longrightarrow> p \<in> set (st_InputDatasets (step f s)) \<Longrightarrow> p \<noteq> d \<Longrightarrow> upstream f d C p"

definition inputs_but :: "Flow \<Rightarrow> nat \<Rightarrow> nat \<Rightarrow> nat list" where
  "inputs_but f d e = filter (\<lambda>p. p \<noteq> d) (st_InputDatasets (step f (the (ds_Step (dataset f e)))))"

definition persisted :: "Flow \<Rightarrow> nat \<Rightarrow> nat \<Rightarrow> nat set \<Rightarrow> nat set" where
  "persisted f d ret C = {e. upstream f d C e \<and> e \<noteq> ret}"

definition restartable :: "Flow \<Rightarrow> nat \<Rightarrow> nat \<Rightarrow> nat set \<Rightarrow> nat set" where
  "restartable f d ret C = {s. \<exists>e. upstream f d C e \<and> e \<noteq> ret \<and> ds_Step (dataset f e) = Some s \<and> d \<notin> set (st_InputDatasets (step f s))}"

lemma upstream_level:
  assumes "\<forall>e\<in>C. ds_Step (dataset f e) \<noteq> None"
  shows "upstream f d C e \<longleftrightarrow> e \<in> C \<or> upstream f d (\<Union>e\<in>C. set (inputs_but f d e)) e"
proof
  assume "upstream f d C e"
  then show "e \<in> C \<or> upstream f d (\<Union>e\<in>C. set (inputs_but f d e)) e"
  proof (induction rule: upstream.induct)
    case (up_input e s p)
    have "p \<in> set (inputs_but f d e)" using up_input.hyps by (simp add: inputs_but_def)
    then show ?case using up_input upstream.up_start [of p "\<Union>e\<in>C. set (inputs_but f d e)"] by (blast intro: upstream.up_input)
  qed simp
next
  assume "e \<in> C \<or> upstream f d (\<Union>e\<in>C. set (inputs_but f d e)) e"
  moreover have "upstream f d C e" if "upstream f d (\<Union>e\<in>C. set (inputs_but f d e)) e"
    using that
  proof (induction rule: upstream.induct)
    case (up_start p)
    then obtain e where "e \<in> C" "p \<in> set (inputs_but f d e)" by blast
    then show ?case using assms upstream.up_input [OF upstream.up_start, of e C f _ p d] by (auto simp: inputs_but_def)
  next
    case (up_input e s p)
    then show ?case by (blast intro: upstream.up_input)
  qed
  ultimately show "upstream f d C e" by (blast intro: upstream.up_start)
qed

lemma on_disk_one_marks:
  assumes wf: "flow_wf f" and t: "produced f t"
  shows "on_disk_one d ret t (marked D S f) = Inr (inputs_but f d t, marked (D \<union> ({t} - {ret}))
    (S \<union> {s. t \<noteq> ret \<and> ds_Step (dataset f t) = Some s \<and> d \<notin> set (st_InputDatasets (step f s))}) f)"
proof -
  obtain s where s: "t < length (fl_Datasets f)" "ds_Step (dataset f t) = Some s" using t by (auto simp: produced_def)
  note out = wf_stepD [OF wf s]
  have set: "{s'. t \<noteq> ret \<and> ds_Step (dataset f t) = Some s' \<and> d \<notin> set (st_InputDatasets (step f s'))} =
      (if d \<notin> set (st_InputDatasets (step f s)) \<and> t \<noteq> ret then {s} else {})" using s(2) by auto
  show ?thesis unfolding set using s out
    by (cases "t = ret"; cases "d \<in> set (st_InputDatasets (step f s))")
      (simp_all add: on_disk_one_def flow_eval marked_fields marked_set_dataset marked_set_step inputs_but_def)
qed

text \<open>The marks that one level and those above it set.\<close>

definition level_restartable :: "Flow \<Rightarrow> nat \<Rightarrow> nat \<Rightarrow> nat set \<Rightarrow> nat set" where
  "level_restartable f d ret C =
     {s. \<exists>e\<in>C. e \<noteq> ret \<and> ds_Step (dataset f e) = Some s \<and> d \<notin> set (st_InputDatasets (step f s))}"

lemma on_disk_level_marks:
  assumes wf: "flow_wf f" and "\<forall>t\<in>set currents. produced f t"
  shows "on_disk_level d ret currents (marked D S f) = Inr (concat (map (inputs_but f d) currents),
    marked (D \<union> (set currents - {ret})) (S \<union> level_restartable f d ret (set currents)) f)"
  using assms(2)
proof (induction currents arbitrary: D S)
  case Nil
  then show ?case by (simp add: flow_eval level_restartable_def)
next
  case (Cons t currents)
  let ?s = "{s. t \<noteq> ret \<and> ds_Step (dataset f t) = Some s \<and> d \<notin> set (st_InputDatasets (step f s))}"
  have "D \<union> ({t} - {ret}) \<union> (set currents - {ret}) = D \<union> (set (t # currents) - {ret})" by auto
  moreover have "S \<union> ?s \<union> level_restartable f d ret (set currents) = S \<union> level_restartable f d ret (set (t # currents))"
    by (auto simp: level_restartable_def)
  ultimately show ?case using Cons.prems on_disk_one_marks [OF wf, of t d ret D S] Cons.IH [of "D \<union> ({t} - {ret})" "S \<union> ?s"]
    by (simp add: flow_eval)
qed

lemma inputs_but_earlier:
  assumes wf: "flow_wf f" and t: "produced f t" and p: "p \<in> set (inputs_but f d t)"
  shows "produced f p \<and> the (ds_Step (dataset f p)) < the (ds_Step (dataset f t))"
proof -
  obtain s where s: "t < length (fl_Datasets f)" "ds_Step (dataset f t) = Some s" using t by (auto simp: produced_def)
  then have "s < length (fl_Steps f)" "p \<in> set (st_InputDatasets (step f s))" using wf_stepD [OF wf s] p by (auto simp: inputs_but_def)
  from wf_inputD [OF wf this] s(2) show ?thesis unfolding produced_def by (metis option.distinct(1) option.sel)
qed

lemma marks_level:
  assumes "\<forall>e\<in>C. ds_Step (dataset f e) \<noteq> None" and P: "P = (\<Union>e\<in>C. set (inputs_but f d e))"
  shows "persisted f d ret C = (C - {ret}) \<union> persisted f d ret P"
    "restartable f d ret C = level_restartable f d ret C \<union> restartable f d ret P"
  using upstream_level [OF assms(1), of d, folded P]
  by (auto simp: persisted_def restartable_def level_restartable_def)

lemma upstream_none: "\<not> upstream f d {} e"
proof
  assume "upstream f d {} e"
  then show False by (induction rule: upstream.induct) simp_all
qed

text \<open>The loop ends: the steps that produce the datasets of a level come before those of the level below.\<close>

lemma on_disk_loop_marks:
  assumes wf: "flow_wf f" and "\<forall>t\<in>set currents. produced f t \<and> the (ds_Step (dataset f t)) < n"
  shows "on_disk_loop d ret currents (marked D S f) =
    Some (Inr (marked (D \<union> persisted f d ret (set currents)) (S \<union> restartable f d ret (set currents)) f))"
  using assms(2)
proof (induction n arbitrary: currents D S)
  case 0
  then have "currents = []" by (cases currents) auto
  then show ?case by (subst on_disk_loop.simps) (simp add: flow_eval persisted_def restartable_def upstream_none)
next
  case (Suc n)
  let ?ps = "concat (map (inputs_but f d) currents)"
  let ?D = "D \<union> (set currents - {ret})" and ?S = "S \<union> level_restartable f d ret (set currents)"
  have "\<forall>e\<in>set currents. ds_Step (dataset f e) \<noteq> None" using Suc.prems by (auto simp: produced_def)
  note eqs = marks_level [OF this HOL.refl, of d ret]
  have level: "on_disk_level d ret currents (marked D S f) = Inr (?ps, marked ?D ?S f)"
    using on_disk_level_marks [OF wf] Suc.prems by blast
  have "\<forall>t\<in>set ?ps. produced f t \<and> the (ds_Step (dataset f t)) < n"
    using Suc.prems inputs_but_earlier [OF wf] by fastforce
  from Suc.IH [OF this, of ?D ?S]
  have IH: "on_disk_loop d ret ?ps (marked ?D ?S f) = Some (Inr (marked (D \<union> persisted f d ret (set currents)) (S \<union> restartable f d ret (set currents)) f))"
    using eqs by (simp add: Un_assoc)
  show ?case
  proof (cases "?ps = []")
    case True
    then have "persisted f d ret (set currents) = set currents - {ret}" "restartable f d ret (set currents) = level_restartable f d ret (set currents)"
      using eqs by (simp_all add: persisted_def restartable_def upstream_none)
    then show ?thesis using level True by (subst on_disk_loop.simps) simp
  next
    case False
    then show ?thesis using level IH by (subst on_disk_loop.simps) auto
  qed
qed

lemma OnDisk_returns:
  assumes "fn d f = Inr (ret, f')" "flow_wf f'" "produced f' ret"
  shows "OnDisk fn d f = Some (Inr (ret, marked (persisted f' d ret {ret}) (restartable f' d ret {ret}) f'))"
proof -
  have "on_disk_loop d ret [ret] (marked {} {} f') = Some (Inr (marked (persisted f' d ret {ret}) (restartable f' d ret {ret}) f'))"
    using on_disk_loop_marks [OF assms(2), of "[ret]" "Suc (the (ds_Step (dataset f' ret)))" d ret "{}" "{}"] assms(3) by simp
  then show ?thesis using assms(1) by (simp add: OnDisk_def)
qed

end
