(* ===== verification/FlowBuild.thy ===== *)
theory FlowBuild
  imports FlowOnDisk
begin

text \<open>
  The flows a user can build: everything that is reached from an empty flow (\<^verbatim>\<open>flow.New\<close>) by calling the
  operations of \<^verbatim>\<open>flow/dataset*.go\<close> on datasets that earlier calls returned. All of them are
  well-formed.
\<close>

section \<open>Every operation keeps a flow well-formed\<close>

lemma typed_set_sorted: "typed V F (set_sorted d orderBys) (\<lambda>_. {}) (\<lambda>_. F)"
  unfolding set_sorted_def by (rule typed_label_dataset) simp_all

lemma typed_set_partitioned: "typed V F (set_partitioned d indexes) (\<lambda>_. {}) (\<lambda>_. F)"
  unfolding set_partitioned_def by (rule typed_label_dataset) simp_all

lemma typed_keep_partitioned: "typed V F (keep_partitioned d ret) (\<lambda>_. {}) (\<lambda>_. F)"
  unfolding keep_partitioned_def by (rule typed_fbind [OF typed_fget]) (simp add: typed_set_partitioned)

lemma typed_keep_sorted: "typed V F (keep_sorted d ret) (\<lambda>_. {}) (\<lambda>_. F)"
  unfolding keep_sorted_def by (rule typed_fbind [OF typed_fget]) (simp add: typed_set_sorted)

lemma typed_describe: "typed V F (describe s text) (\<lambda>_. {}) (\<lambda>_. F)"
  unfolding describe_def by (rule typed_label_step) simp_all

lemma typed_SetInstruction: "typed V F (SetInstruction s name ins) (\<lambda>_. {}) (\<lambda>_. F)"
  unfolding SetInstruction_def by (rule typed_label_step) simp_all

lemma typed_several: "typed V F (several d) (\<lambda>_. {}) (\<lambda>_. F)"
  unfolding several_def by (rule typed_fget)

lemma typed_total_size:
  "typed V F (total_size fuel d) (\<lambda>_. {}) (\<lambda>_. F)"
  "typed V F (total_sizes fuel inputs n) (\<lambda>_. {}) (\<lambda>_. F)"
proof (induction fuel d and fuel inputs n arbitrary: V and V rule: total_size_total_sizes.induct)
  case (1 d)
  then show ?case by (simp add: typed_flift)
next
  case (2 fuel d)
  show ?case unfolding total_size.simps
  proof (rule typed_fbind [OF typed_fget])
    fix ds :: Dataset
    let ?rest = "case ds_Step ds of
           None \<Rightarrow> flift (Inl PanicNil)
         | Some s \<Rightarrow>
             fbind (fget (\<lambda>f. st_InputDatasets (step f s))) (\<lambda>inputs.
             fbind (total_sizes fuel inputs 0) (\<lambda>n.
             fbind (fmod (set_dataset d (\<lambda>ds. ds\<lparr>ds_TotalSize := n\<rparr>))) (\<lambda>_. fret n)))"
    have "typed (V \<union> {}) F ?rest (\<lambda>_. {}) (\<lambda>_. F)" if "\<not> 0 \<le>s ds_TotalSize ds"
    proof (cases "ds_Step ds")
      case (Some s)
      show ?thesis unfolding Some option.case
        by (rule typed_fbind [OF typed_fget] typed_fbind [OF "2.IH" [OF that Some]] typed_fbind [OF typed_label_dataset] typed_fret | simp)+
    qed (simp add: typed_flift)
    then show "typed (V \<union> {}) F (if 0 \<le>s ds_TotalSize ds then fret (ds_TotalSize ds) else ?rest) (\<lambda>_. {}) (\<lambda>_. F)"
      by (auto intro: typed_fret)
  qed
next
  case (3 fuel n)
  then show ?case by (auto intro: typed_fret)
next
  case (4 fuel d inputs n)
  show ?case unfolding total_sizes.simps using 4 by (rule typed_fbind)
qed

lemma typed_GetPartitionSize: "typed V F (GetPartitionSize d) (\<lambda>_. {}) (\<lambda>_. F)"
  unfolding GetPartitionSize_def GetTotalSize_def
  by (rule typed_fbind typed_total_size typed_fget typed_flift typed_fret | simp)+

lemmas typed_labels = typed_set_sorted typed_set_partitioned typed_keep_partitioned typed_keep_sorted typed_describe
  typed_SetInstruction typed_several typed_GetPartitionSize typed_fget typed_flift typed_label_step typed_label_dataset

lemma typed_add1ShardTo1Step: "d \<in> V \<Longrightarrow> typed V F (add1ShardTo1Step d) (\<lambda>(ret, s). {ret}) (\<lambda>_. {})"
  unfolding add1ShardTo1Step_def
  by (rule typed_fbind [OF typed_fget] typed_fbind [OF typed_NewNextDataset] typed_fbind [OF typed_net [OF AddOneToOneStep_net]] typed_fret
      | simp add: inputs_of_def)+

lemmas op_rules = typed_prod typed_if typed_fbind typed_labels typed_ret typed_add1ShardTo1Step typed_NewNextDataset
  typed_net [OF AddAllToAllStep_net] typed_net [OF AddOneToEveryNStep_net] typed_net [OF AddLinkedNToOneStep_net]
  typed_net [OF MergeDatasets1ShardTo1Step_net] typed_net [OF AddOneToAllStep_net] typed_net [OF AddOneToOneStep_net]

lemma typed_LocalDistinct: "d \<in> V \<Longrightarrow> typed V {} (LocalDistinct name sortOption d) (\<lambda>r. {r}) (\<lambda>_. {})"
  unfolding LocalDistinct_def by (rule op_rules | simp)+

lemma typed_LocalSort: "d \<in> V \<Longrightarrow> typed V {} (LocalSort name sortOption d) (\<lambda>r. {r}) (\<lambda>_. {})"
  unfolding LocalSort_def by (rule op_rules | simp)+

lemma typed_LocalTop: "d \<in> V \<Longrightarrow> typed V {} (LocalTop name n sortOption d) (\<lambda>r. {r}) (\<lambda>_. {})"
  unfolding LocalTop_def by (rule op_rules | simp)+

lemma typed_LocalLimit: "d \<in> V \<Longrightarrow> typed V {} (LocalLimit name n offset d) (\<lambda>r. {r}) (\<lambda>_. {})"
  unfolding LocalLimit_def by (rule op_rules | simp)+

lemma typed_LocalGroupBy: "d \<in> V \<Longrightarrow> typed V {} (LocalGroupBy name sortOption d) (\<lambda>r. {r}) (\<lambda>_. {})"
  unfolding LocalGroupBy_def by (rule op_rules | simp)+

lemma typed_Select: "d \<in> V \<Longrightarrow> typed V {} (Select name sortOption d) (\<lambda>r. {r}) (\<lambda>_. {})"
  unfolding Select_def by (rule op_rules | simp)+

lemma typed_SelectKV: "d \<in> V \<Longrightarrow> typed V {} (SelectKV name keys values d) (\<lambda>r. {r}) (\<lambda>_. {})"
  unfolding SelectKV_def by (rule op_rules | simp)+

lemma typed_PipeAsArgs: "d \<in> V \<Longrightarrow> typed V {} (PipeAsArgs name code d) (\<lambda>r. {r}) (\<lambda>_. {})"
  unfolding PipeAsArgs_def by (rule op_rules | simp)+

lemma typed_Pipe: "d \<in> V \<Longrightarrow> typed V {} (Pipe name code d) (\<lambda>r. {r}) (\<lambda>_. {})"
  unfolding Pipe_def by (rule op_rules | simp)+

lemma typed_Map: "d \<in> V \<Longrightarrow> typed V {} (Map env name mapperId d) (\<lambda>r. {r}) (\<lambda>_. {})"
  unfolding Map_def by (rule op_rules | simp)+

lemma typed_LocalReduceBy: "d \<in> V \<Longrightarrow> typed V {} (LocalReduceBy env name reducerId sortOption d) (\<lambda>r. {r}) (\<lambda>_. {})"
  unfolding LocalReduceBy_def Let_def by (rule op_rules | simp)+

lemma typed_linked_merge:
  assumes "d \<in> V" "\<And>V F ret. typed V F (meta ret) (\<lambda>_. {}) (\<lambda>_. F)"
  shows "typed V {} (linked_merge d partitionCount meta) (\<lambda>(ret, s). {ret}) (\<lambda>_. {})"
  unfolding linked_merge_def by (rule op_rules assms(2) typed_fret | simp add: assms(1))+

lemma typed_MergeSortedTo: "d \<in> V \<Longrightarrow> typed V {} (MergeSortedTo name partitionCount d) (\<lambda>r. {r}) (\<lambda>_. {})"
  unfolding MergeSortedTo_def by (rule op_rules typed_linked_merge | simp)+

lemma typed_MergeTo: "d \<in> V \<Longrightarrow> typed V {} (MergeTo name partitionCount d) (\<lambda>r. {r}) (\<lambda>_. {})"
  unfolding MergeTo_def by (rule op_rules typed_linked_merge | simp)+

lemma typed_tree_merge: "d \<in> V \<Longrightarrow> typed V {} (tree_merge fuel name partitionCount factor d) (\<lambda>r. {r}) (\<lambda>_. {})"
proof (induction fuel arbitrary: d V)
  case 0
  then show ?case by (simp add: typed_def flift_def)
next
  case (Suc fuel)
  then show ?case unfolding tree_merge.simps by - (rule op_rules Suc.IH typed_MergeSortedTo | simp)+
qed

lemma typed_TreeMergeSortedTo: "d \<in> V \<Longrightarrow> typed V {} (TreeMergeSortedTo name partitionCount factor d) (\<lambda>r. {r}) (\<lambda>_. {})"
  unfolding TreeMergeSortedTo_def by (rule op_rules typed_tree_merge | simp)+

lemma typed_RoundRobin: "d \<in> V \<Longrightarrow> typed V {} (RoundRobin name n d) (\<lambda>r. {r}) (\<lambda>_. {})"
  unfolding RoundRobin_def by (rule op_rules | simp)+

lemma typed_Partition: "d \<in> V \<Longrightarrow> typed V {} (Partition name shard sortOption d) (\<lambda>r. {r}) (\<lambda>_. {})"
  unfolding Partition_def partition_scatter_def partition_collect_def Let_def by (rule op_rules | simp)+

lemmas local_rules = typed_LocalDistinct typed_LocalSort typed_LocalTop typed_LocalLimit typed_LocalGroupBy typed_LocalReduceBy
  typed_MergeSortedTo typed_MergeTo typed_TreeMergeSortedTo typed_Partition

lemma typed_Distinct: "d \<in> V \<Longrightarrow> typed V {} (Distinct name sortOption d) (\<lambda>r. {r}) (\<lambda>_. {})"
  unfolding Distinct_def by (rule op_rules local_rules | simp)+

lemma typed_Sort: "d \<in> V \<Longrightarrow> typed V {} (Sort name sortOption d) (\<lambda>r. {r}) (\<lambda>_. {})"
  unfolding Sort_def by (rule op_rules local_rules | simp)+

lemma typed_Top: "d \<in> V \<Longrightarrow> typed V {} (Dataset_Top name k sortOption d) (\<lambda>r. {r}) (\<lambda>_. {})"
  unfolding Dataset_Top_def by (rule op_rules local_rules | simp)+

lemma typed_GroupBy: "d \<in> V \<Longrightarrow> typed V {} (GroupBy name sortOption d) (\<lambda>r. {r}) (\<lambda>_. {})"
  unfolding GroupBy_def by (rule op_rules local_rules | simp)+

lemma typed_ReduceBy: "d \<in> V \<Longrightarrow> typed V {} (ReduceBy env name reducerId keyFields d) (\<lambda>r. {r}) (\<lambda>_. {})"
  unfolding ReduceBy_def Let_def by (rule op_rules local_rules | simp)+

lemma typed_Reduce: "d \<in> V \<Longrightarrow> typed V {} (Reduce env name reducerId d) (\<lambda>r. {r}) (\<lambda>_. {})"
  unfolding Reduce_def Let_def by (rule op_rules local_rules | simp)+

lemma typed_JoinPartitionedSorted:
  "this \<in> V \<Longrightarrow> that \<in> V \<Longrightarrow> typed V {} (JoinPartitionedSorted name that sortOption l r this) (\<lambda>r. {r}) (\<lambda>_. {})"
  unfolding JoinPartitionedSorted_def by (rule op_rules | simp)+

lemma typed_DoJoin:
  "d \<in> V \<Longrightarrow> other \<in> V \<Longrightarrow> typed V {} (DoJoin name other l r sortOption d) (\<lambda>r. {r}) (\<lambda>_. {})"
  unfolding DoJoin_def by (rule op_rules local_rules typed_JoinPartitionedSorted | simp)+

lemma typed_CoGroup:
  "d \<in> V \<Longrightarrow> other \<in> V \<Longrightarrow> typed V {} (CoGroup name other sortOption d) (\<lambda>r. {r}) (\<lambda>_. {})"
  unfolding CoGroup_def CoGroupPartitionedSorted_def by (rule op_rules local_rules | simp)+

lemma typed_Broadcast: "d \<in> V \<Longrightarrow> typed V {} (Broadcast name shardCount d) (\<lambda>r. {r}) (\<lambda>_. {})"
  unfolding Broadcast_def by (rule op_rules | simp add: inputs_of_def)+

lemma typed_LocalHashAndJoinWith:
  "this \<in> V \<Longrightarrow> that \<in> V \<Longrightarrow> typed V {} (LocalHashAndJoinWith name that sortOption this) (\<lambda>r. {r}) (\<lambda>_. {})"
  unfolding LocalHashAndJoinWith_def by (rule op_rules | simp)+

lemma typed_HashJoin:
  "smaller \<in> V \<Longrightarrow> bigger \<in> V \<Longrightarrow> typed V {} (HashJoin name smaller sortOption bigger) (\<lambda>r. {r}) (\<lambda>_. {})"
  unfolding HashJoin_def by (rule op_rules typed_Broadcast typed_LocalHashAndJoinWith | simp)+

lemma typed_Union:
  "this \<in> V \<Longrightarrow> set others \<subseteq> V \<Longrightarrow> typed V {} (Union name others isParallel this) (\<lambda>r. {r}) (\<lambda>_. {})"
  unfolding Union_def by (rule op_rules | auto)+

lemma typed_driver_source: "typed V {} (driver_source name) (\<lambda>r. {r}) (\<lambda>_. {})"
  unfolding driver_source_def by (rule op_rules | simp add: inputs_of_def)+

lemma typed_Output: "d \<in> V \<Longrightarrow> typed V {} (Output d) (\<lambda>r. {r}) (\<lambda>_. {})"
  unfolding Output_def by (rule typed_sink [OF AddAllToOneStep_net] op_rules | simp)+

lemma typed_hints:
  "d \<in> V \<Longrightarrow> typed V {} (fbind (Hint_TotalSize n d) (\<lambda>_. fret d)) (\<lambda>r. {r}) (\<lambda>_. {})"
  "d \<in> V \<Longrightarrow> typed V {} (fbind (Hint_PartitionSize n d) (\<lambda>_. fret d)) (\<lambda>r. {r}) (\<lambda>_. {})"
  unfolding Hint_TotalSize_def Hint_PartitionSize_def by (rule typed_fbind [OF typed_label_dataset] typed_fret | simp)+

section \<open>The flows a user can build\<close>

datatype source_op = OpSource string | OpChannel | OpSlices

datatype local_op =
    OpMap string string | OpPipe string string | OpPipeAsArgs string bytes
  | OpSelect string SortOption | OpSelectKV string SortOption SortOption
  | OpLocalSort string SortOption | OpLocalTop string int SortOption | OpLocalLimit string int int
  | OpLocalDistinct string SortOption | OpLocalGroupBy string SortOption | OpLocalReduceBy string string "SortOption option"

datatype hint_op = OpOutput | OpHintTotalSize int64 | OpHintPartitionSize int64

datatype shuffle_op =
    OpMergeSortedTo string int | OpTreeMergeSortedTo string int int | OpMergeTo string int | OpRoundRobin string int
  | OpPartition string int SortOption | OpPartitionByKey string int | OpBroadcast string int

datatype global_op =
    OpDistinct string SortOption | OpSort string SortOption | OpSortByKey string | OpTop string int SortOption
  | OpGroupBy string SortOption | OpReduceBy string string SortOption | OpReduceByKey string string | OpReduce string string

datatype join_op =
    OpJoin string SortOption | OpJoinByKey string | OpLeftOuterJoin string SortOption | OpLeftOuterJoinByKey string
  | OpRightOuterJoin string SortOption | OpRightOuterJoinByKey string | OpCoGroup string SortOption | OpHashJoin string SortOption

datatype flow_op =
    SourceOp source_op | LocalOp local_op nat | HintOp hint_op nat | ShuffleOp shuffle_op nat | GlobalOp global_op nat
  | JoinOp join_op nat nat | UnionOp string "nat list" bool nat

primrec op_inputs :: "flow_op \<Rightarrow> nat list" where
  "op_inputs (SourceOp p) = []"
| "op_inputs (LocalOp p d) = [d]"
| "op_inputs (HintOp p d) = [d]"
| "op_inputs (ShuffleOp p d) = [d]"
| "op_inputs (GlobalOp p d) = [d]"
| "op_inputs (JoinOp p e d) = [d, e]"
| "op_inputs (UnionOp name es par d) = d # es"

primrec run_source :: "source_op \<Rightarrow> nat flow_m" where
  "run_source (OpSource name) = Source name"
| "run_source OpChannel = Channel"
| "run_source OpSlices = Slices"

primrec run_local :: "flow_env \<Rightarrow> nat \<Rightarrow> local_op \<Rightarrow> nat flow_m" where
  "run_local env d (OpMap name m) = Map env name m d"
| "run_local env d (OpPipe name code) = Pipe name code d"
| "run_local env d (OpPipeAsArgs name code) = PipeAsArgs name code d"
| "run_local env d (OpSelect name so) = Select name so d"
| "run_local env d (OpSelectKV name ks vs) = SelectKV name ks vs d"
| "run_local env d (OpLocalSort name so) = LocalSort name so d"
| "run_local env d (OpLocalTop name n so) = LocalTop name n so d"
| "run_local env d (OpLocalLimit name n off) = LocalLimit name n off d"
| "run_local env d (OpLocalDistinct name so) = LocalDistinct name so d"
| "run_local env d (OpLocalGroupBy name so) = LocalGroupBy name so d"
| "run_local env d (OpLocalReduceBy name r so) = LocalReduceBy env name r so d"

primrec run_hint :: "nat \<Rightarrow> hint_op \<Rightarrow> nat flow_m" where
  "run_hint d OpOutput = Output d"
| "run_hint d (OpHintTotalSize n) = fbind (Hint_TotalSize n d) (\<lambda>_. fret d)"
| "run_hint d (OpHintPartitionSize n) = fbind (Hint_PartitionSize n d) (\<lambda>_. fret d)"

primrec run_shuffle :: "nat \<Rightarrow> shuffle_op \<Rightarrow> nat flow_m" where
  "run_shuffle d (OpMergeSortedTo name n) = MergeSortedTo name n d"
| "run_shuffle d (OpTreeMergeSortedTo name n k) = TreeMergeSortedTo name n k d"
| "run_shuffle d (OpMergeTo name n) = MergeTo name n d"
| "run_shuffle d (OpRoundRobin name n) = RoundRobin name n d"
| "run_shuffle d (OpPartition name n so) = Partition name n so d"
| "run_shuffle d (OpPartitionByKey name n) = PartitionByKey name n d"
| "run_shuffle d (OpBroadcast name n) = Broadcast name n d"

primrec run_global :: "flow_env \<Rightarrow> nat \<Rightarrow> global_op \<Rightarrow> nat flow_m" where
  "run_global env d (OpDistinct name so) = Distinct name so d"
| "run_global env d (OpSort name so) = Sort name so d"
| "run_global env d (OpSortByKey name) = SortByKey name d"
| "run_global env d (OpTop name k so) = Dataset_Top name k so d"
| "run_global env d (OpGroupBy name so) = GroupBy name so d"
| "run_global env d (OpReduceBy name r ks) = ReduceBy env name r ks d"
| "run_global env d (OpReduceByKey name r) = ReduceByKey env name r d"
| "run_global env d (OpReduce name r) = Reduce env name r d"

primrec run_join :: "nat \<Rightarrow> nat \<Rightarrow> join_op \<Rightarrow> nat flow_m" where
  "run_join e d (OpJoin name so) = Join name e so d"
| "run_join e d (OpJoinByKey name) = JoinByKey name e d"
| "run_join e d (OpLeftOuterJoin name so) = LeftOuterJoin name e so d"
| "run_join e d (OpLeftOuterJoinByKey name) = LeftOuterJoinByKey name e d"
| "run_join e d (OpRightOuterJoin name so) = RightOuterJoin name e so d"
| "run_join e d (OpRightOuterJoinByKey name) = RightOuterJoinByKey name e d"
| "run_join e d (OpCoGroup name so) = CoGroup name e so d"
| "run_join e d (OpHashJoin name so) = HashJoin name e so d"

primrec run_op :: "flow_env \<Rightarrow> flow_op \<Rightarrow> nat flow_m" where
  "run_op env (SourceOp p) = run_source p"
| "run_op env (LocalOp p d) = run_local env d p"
| "run_op env (HintOp p d) = run_hint d p"
| "run_op env (ShuffleOp p d) = run_shuffle d p"
| "run_op env (GlobalOp p d) = run_global env d p"
| "run_op env (JoinOp p e d) = run_join e d p"
| "run_op env (UnionOp name es par d) = Union name es par d"

text \<open>
  The function that \<^verbatim>\<open>OnDisk\<close> is given also calls operations; when it has returned \<open>ret\<close>, the rest of \<^verbatim>\<open>OnDisk\<close> is what it does for
  a function that just returns \<open>ret\<close>.
\<close>

inductive built :: "flow_env \<Rightarrow> nat set \<Rightarrow> Flow \<Rightarrow> bool" for env where
  built_New: "built env {} (New name hashCode)"
| built_op: "built env ds f \<Longrightarrow> set (op_inputs p) \<subseteq> ds \<Longrightarrow> run_op env p f = Inr (d, f') \<Longrightarrow> built env (insert d ds) f'"
| built_OnDisk: "built env ds f \<Longrightarrow> d \<in> ds \<Longrightarrow> ret \<in> ds \<Longrightarrow> OnDisk (\<lambda>_. fret ret) d f = Some (Inr (ret, f')) \<Longrightarrow> built env ds f'"

inductive_cases built_opE: "built env ds f"

text \<open>Every operation returns a produced dataset.\<close>

lemma typed_run_op:
  assumes "set (op_inputs p) \<subseteq> V"
  shows "typed V {} (run_op env p) (\<lambda>r. {r}) (\<lambda>_. {})"
proof (cases p)
  case (SourceOp q)
  then show ?thesis by (cases q) (simp_all add: Source_def Channel_def Slices_def typed_driver_source)
next
  case (LocalOp q d)
  then show ?thesis using assms
    by (cases q) (simp_all add: local_rules typed_Map typed_Pipe typed_PipeAsArgs typed_Select typed_SelectKV)
next
  case (HintOp q d)
  then show ?thesis using assms by (cases q) (simp_all add: typed_hints typed_Output)
next
  case (ShuffleOp q d)
  then show ?thesis using assms by (cases q) (simp_all add: local_rules typed_RoundRobin typed_Broadcast PartitionByKey_def)
next
  case (GlobalOp q d)
  then show ?thesis using assms
    by (cases q) (simp_all add: typed_Distinct typed_Sort typed_Top typed_GroupBy typed_ReduceBy typed_Reduce SortByKey_def ReduceByKey_def)
next
  case (JoinOp q e d)
  then show ?thesis using assms
    by (cases q) (simp_all add: typed_DoJoin typed_CoGroup typed_HashJoin Join_def JoinByKey_def LeftOuterJoin_def
        LeftOuterJoinByKey_def RightOuterJoin_def RightOuterJoinByKey_def)
next
  case (UnionOp name es par d)
  then show ?thesis using assms by (simp add: typed_Union)
qed

lemma built_wf: "built env ds f \<Longrightarrow> flow_wf f \<and> (\<forall>d\<in>ds. produced f d)"
proof (induction rule: built.induct)
  case (built_New name hashCode)
  then show ?case by (simp add: flow_wf_New)
next
  case (built_op ds f p d f')
  then have "\<forall>e\<in>set (op_inputs p). produced f e" by blast
  then have "flow_wf f' \<and> (\<forall>d. produced f d \<longrightarrow> produced f' d) \<and> (\<forall>e\<in>{d}. produced f' e)"
    using typed_run_op [of p "set (op_inputs p)" env] built_op unfolding typed_def by blast
  then show ?case using built_op.IH by blast
next
  case (built_OnDisk ds f d ret f')
  then have "f' = marked (persisted f d ret {ret}) (restartable f d ret {ret}) f"
    using OnDisk_returns [of "\<lambda>_. fret ret" d f ret f] by (simp add: fret_def)
  then show ?case using built_OnDisk.IH flow_wf_marked produced_marked by blast
qed

section \<open>Properties\<close>

lemma Channel_runs: "\<exists>f. Channel (New name h) = Inr (0, f)"
  by (simp add: Channel_def driver_source_def NewNextDataset_apply AddOneToOneStep_def new_step_def NewStep_def NewTask_def
      fromStepToDataset_def fromDatasetToStep_def fromTaskToDatasetShard_def shard_at_def flow_eval New_def Let_def
      step_def set_step_def set_dataset_def dataset_def shards_def)

text \<open>
  C13: Every flow a user can build, by any sequence of dataset operations on datasets that earlier operations returned, is
  well-formed: the numbers of datasets, steps and tasks are their positions, the links between datasets and steps and
  between shards and tasks agree on both sides, every dataset is produced by a step before those that read it, and the
  datasets in the user's hands are produced.
\<close>

theorem built_well_formed:
  assumes "built env ds f"
  shows "flow_wf f \<and> (\<forall>d\<in>ds. produced f d)"
  using built_wf [OF assms] .

theorem built_well_formed_witness:
  "\<exists>f. built \<lparr>fe_Executable = ''a'', fe_Args = [], fe_mapper_Name = id, fe_reducer_Name = id\<rparr> {0} f \<and> flow_wf f \<and> produced f 0"
proof -
  let ?env = "\<lparr>fe_Executable = ''a'', fe_Args = [], fe_mapper_Name = id, fe_reducer_Name = id\<rparr> :: flow_env"
  obtain f where f: "run_op ?env (SourceOp OpChannel) (New ''x'' 0) = Inr (0, f)" using Channel_runs by auto
  have "built ?env {0} f" using built_op [OF built_New _ f] by simp
  then show ?thesis using built_well_formed by blast
qed

text \<open>
  C16: \<^verbatim>\<open>OnDisk\<close> returns whenever the function it is given builds a well-formed flow, and changes nothing but marks: it persists exactly
  the datasets other than the result that are reached from the result against the direction of the data without passing the dataset it is
  called on, and makes exactly those of their steps restartable that do not read that dataset. The flow stays well-formed.
\<close>

theorem OnDisk_marks:
  assumes "fn d f = Inr (ret, f')" "flow_wf f'" "produced f' ret"
  shows "\<exists>f''. OnDisk fn d f = Some (Inr (ret, f'')) \<and> flow_wf f'' \<and>
    f'' = marked {e. upstream f' d {ret} e \<and> e \<noteq> ret}
      {s. \<exists>e. upstream f' d {ret} e \<and> e \<noteq> ret \<and> ds_Step (dataset f' e) = Some s \<and> d \<notin> set (st_InputDatasets (step f' s))} f'"
  using OnDisk_returns [of fn d f ret f'] assms flow_wf_marked [OF assms(2)] by (auto simp: persisted_def restartable_def)

lemma two_steps_run:
  "\<exists>f f'. Channel (New name h) = Inr (0, f) \<and> fbind (LocalDistinct ''a'' [] 0) (LocalDistinct ''b'' []) f = Inr (2, f') \<and>
    ds_Step (dataset f' 2) = Some 2 \<and> st_InputDatasets (step f' 2) = [1] \<and> length (fl_Datasets f') = 3"
  by (simp add: Channel_def driver_source_def NewNextDataset_apply AddOneToOneStep_def new_step_def NewStep_def NewTask_def
      fromStepToDataset_def fromDatasetToStep_def fromTaskToDatasetShard_def fromDatasetShardToTask_def shard_at_def flow_eval New_def Let_def
      step_def set_step_def set_dataset_def dataset_def shards_def LocalDistinct_def add1ShardTo1Step_def set_sorted_def
      keep_partitioned_def set_partitioned_def SetInstruction_def eval_nat_numeral)

theorem OnDisk_marks_witness:
  "\<exists>f f''. Channel (New ''x'' 0) = Inr (0, f) \<and> flow_wf f'' \<and> ds_OnDisk (dataset f'' 1) = ModeOnDisk \<and>
    OnDisk (\<lambda>d. fbind (LocalDistinct ''a'' [] d) (LocalDistinct ''b'' [])) 0 f = Some (Inr (2, f''))"
proof -
  let ?fn = "\<lambda>d. fbind (LocalDistinct ''a'' [] d) (LocalDistinct ''b'' [])"
  obtain f f' where run: "Channel (New ''x'' 0) = Inr (0, f)" "?fn 0 f = Inr (2, f')" and
      f': "ds_Step (dataset f' 2) = Some 2" "st_InputDatasets (step f' 2) = [1]" "length (fl_Datasets f') = 3"
    using two_steps_run by blast
  have "typed {} {} Channel (\<lambda>r. {r}) (\<lambda>_. {})" by (simp add: Channel_def typed_driver_source)
  then have "flow_wf f" "produced f 0" using run(1) flow_wf_New unfolding typed_def by blast+
  moreover have "typed {0} {} (?fn 0) (\<lambda>r. {r}) (\<lambda>_. {})" by (rule typed_fbind, rule typed_LocalDistinct, simp, rule typed_LocalDistinct, simp)
  ultimately have wf: "flow_wf f'" "produced f' 2" using run(2) unfolding typed_def by blast+
  have "upstream f' 0 {2} 1" using upstream.up_input [OF upstream.up_start, of 2 "{2}" f' 2 1 0] f' by simp
  then show ?thesis using OnDisk_marks [of ?fn 0 f 2 f'] run wf f' by (auto simp: marked_dataset)
qed

end
