(* ===== verification/Topology.thy ===== *)
theory Topology
  imports Prelude "HOL-Library.AList"
begin

text \<open>
  The master's view of the cluster: resources (\<^verbatim>\<open>pb/resource_proto_helper.go\<close>), the tree of data centers,
  racks and agents with the resources and allocations of every level (\<^verbatim>\<open>distributed/master/structure.go\<close>),
  heartbeats (\<^verbatim>\<open>resource_collect.go\<close>), and the assignment of servers (\<^verbatim>\<open>resource_assign.go\<close>).

  A Go map is an association list with distinct keys; the order of the list is the order in which
  the map is iterated, which Go leaves open, so every theorem is about any order. The operations of
  concurrent connections are modelled one after the other.
\<close>

section \<open>Resources\<close>

record Location =
  loc_DataCenter :: string
  loc_Rack :: string
  loc_Server :: string
  loc_Port :: int32

record ComputeResource =
  CpuCount :: int32
  CpuLevel :: int32
  GpuCount :: int32
  GpuLevel :: int32
  MemoryMb :: int64
  DiskMb :: int64

definition URL :: "Location \<Rightarrow> string" where
  "URL l = loc_Server l @ '':'' @ Itoa (sint (loc_Port l))"

definition Distance :: "Location \<Rightarrow> Location \<Rightarrow> nat" where
  "Distance a b =
     (if loc_DataCenter a \<noteq> loc_DataCenter b then 1000
      else if loc_Rack a \<noteq> loc_Rack b then 100
      else if loc_Server a \<noteq> loc_Server b then 10
      else 1)"

definition Minus :: "ComputeResource \<Rightarrow> ComputeResource \<Rightarrow> ComputeResource" where
  "Minus a b = \<lparr>CpuCount = CpuCount a - CpuCount b, CpuLevel = CpuLevel a, GpuCount = GpuCount a - GpuCount b,
     GpuLevel = GpuLevel a, MemoryMb = MemoryMb a - MemoryMb b, DiskMb = DiskMb a - DiskMb b\<rparr>"

definition Plus :: "ComputeResource \<Rightarrow> ComputeResource \<Rightarrow> ComputeResource" where
  "Plus a b = \<lparr>CpuCount = CpuCount a + CpuCount b, CpuLevel = CpuLevel b, GpuCount = GpuCount a + GpuCount b,
     GpuLevel = GpuLevel b, MemoryMb = MemoryMb a + MemoryMb b, DiskMb = DiskMb a + DiskMb b\<rparr>"

definition GreaterThanZero :: "ComputeResource \<Rightarrow> bool" where
  "GreaterThanZero a \<longleftrightarrow> 0 <s CpuCount a \<and> 0 <s MemoryMb a"

definition IsZero :: "ComputeResource \<Rightarrow> bool" where
  "IsZero a \<longleftrightarrow> CpuCount a = 0 \<and> MemoryMb a = 0"

definition Covers :: "ComputeResource \<Rightarrow> ComputeResource \<Rightarrow> bool" where
  "Covers a b \<longleftrightarrow> CpuCount b \<le>s CpuCount a \<and> MemoryMb b \<le>s MemoryMb a"

definition no_resource :: ComputeResource where
  "no_resource = \<lparr>CpuCount = 0, CpuLevel = 0, GpuCount = 0, GpuLevel = 0, MemoryMb = 0, DiskMb = 0\<rparr>"

section \<open>The tree\<close>

record AgentInformation =
  ag_Location :: Location
  ag_LastHeartBeat :: int
  ag_Resource :: ComputeResource
  ag_Allocated :: ComputeResource

record Rack =
  rk_Name :: string
  rk_Agents :: "(string \<times> AgentInformation) list"
  rk_Resource :: ComputeResource
  rk_Allocated :: ComputeResource

record DataCenter =
  dc_Name :: string
  dc_Racks :: "(string \<times> Rack) list"
  dc_Resource :: ComputeResource
  dc_Allocated :: ComputeResource

record Topology =
  tp_Resource :: ComputeResource
  tp_Allocated :: ComputeResource
  tp_DataCenters :: "(string \<times> DataCenter) list"

definition NewTopology :: Topology where
  "NewTopology = \<lparr>tp_Resource = no_resource, tp_Allocated = no_resource, tp_DataCenters = []\<rparr>"

definition NewDataCenter :: "string \<Rightarrow> DataCenter" where
  "NewDataCenter name = \<lparr>dc_Name = name, dc_Racks = [], dc_Resource = no_resource, dc_Allocated = no_resource\<rparr>"

definition NewRack :: "string \<Rightarrow> Rack" where
  "NewRack name = \<lparr>rk_Name = name, rk_Agents = [], rk_Resource = no_resource, rk_Allocated = no_resource\<rparr>"

definition GetDataCenter :: "Topology \<Rightarrow> string \<Rightarrow> DataCenter option" where
  "GetDataCenter tp name = map_of (tp_DataCenters tp) name"

definition GetRack :: "DataCenter \<Rightarrow> string \<Rightarrow> Rack option" where
  "GetRack dc name = map_of (dc_Racks dc) name"

definition GetAgent :: "Rack \<Rightarrow> string \<Rightarrow> AgentInformation option" where
  "GetAgent rack name = map_of (rk_Agents rack) name"

definition AddDataCenter :: "DataCenter \<Rightarrow> Topology \<Rightarrow> Topology" where
  "AddDataCenter dc tp = tp\<lparr>tp_DataCenters := AList.update (dc_Name dc) dc (tp_DataCenters tp)\<rparr>"

definition GetDataCenters :: "Topology \<Rightarrow> (string \<times> DataCenter) list" where
  "GetDataCenters tp = tp_DataCenters tp"

definition GetRacks :: "DataCenter \<Rightarrow> Rack list" where
  "GetRacks dc = map snd (dc_Racks dc)"

definition AddRack :: "Rack \<Rightarrow> DataCenter \<Rightarrow> DataCenter" where
  "AddRack rack dc = dc\<lparr>dc_Racks := AList.update (rk_Name rack) rack (dc_Racks dc)\<rparr>"

definition AddAgent :: "AgentInformation \<Rightarrow> Rack \<Rightarrow> Rack" where
  "AddAgent a rack = rack\<lparr>rk_Agents := AList.update (URL (ag_Location a)) a (rk_Agents rack)\<rparr>"

definition DropAgent :: "Location \<Rightarrow> Rack \<Rightarrow> Rack" where
  "DropAgent location rack = rack\<lparr>rk_Agents := AList.delete (URL location) (rk_Agents rack)\<rparr>"

definition GetAgents :: "Rack \<Rightarrow> AgentInformation list" where
  "GetAgents rack = map snd (rk_Agents rack)"

section \<open>Heartbeats\<close>

record Heartbeat =
  hb_Location :: Location
  hb_Resource :: ComputeResource
  hb_Allocated :: ComputeResource

text \<open>
  The data center and the rack are created when missing. The delta is what the agent adds to all
  levels. Only a known agent passes on its allocation.
\<close>

definition rack_heartbeat :: "int \<Rightarrow> Heartbeat \<Rightarrow> Rack \<Rightarrow> Rack \<times> ComputeResource \<times> ComputeResource" where
  "rack_heartbeat now hb rack =
     (case GetAgent rack (URL (hb_Location hb)) of
        Some oldInfo \<Rightarrow>
          (let deltaResource = Minus (hb_Resource hb) (ag_Resource oldInfo);
               deltaAllocated = Minus (hb_Allocated hb) (ag_Allocated oldInfo);
               newInfo = oldInfo\<lparr>ag_Resource := if IsZero deltaResource then ag_Resource oldInfo else hb_Resource hb,
                 ag_LastHeartBeat := now, ag_Allocated := hb_Allocated hb\<rparr>
           in (rack\<lparr>rk_Agents := AList.update (URL (hb_Location hb)) newInfo (rk_Agents rack)\<rparr>, deltaResource, deltaAllocated))
      | None \<Rightarrow>
          (AddAgent \<lparr>ag_Location = hb_Location hb, ag_LastHeartBeat = now, ag_Resource = hb_Resource hb,
             ag_Allocated = hb_Allocated hb\<rparr> rack, hb_Resource hb, no_resource))"

definition add_delta :: "ComputeResource \<Rightarrow> ComputeResource \<Rightarrow> ComputeResource" where
  "add_delta acc delta = (if IsZero delta then acc else Plus acc delta)"

definition UpdateAgentInformation :: "int \<Rightarrow> Heartbeat \<Rightarrow> Topology \<Rightarrow> Topology" where
  "UpdateAgentInformation now hb tp =
     (let dcName = loc_DataCenter (hb_Location hb);
          rackName = loc_Rack (hb_Location hb);
          dc = (case GetDataCenter tp dcName of Some dc \<Rightarrow> dc | None \<Rightarrow> NewDataCenter dcName);
          rack = (case GetRack dc rackName of Some rack \<Rightarrow> rack | None \<Rightarrow> NewRack rackName);
          (rack', deltaResource, deltaAllocated) = rack_heartbeat now hb rack;
          rack'' = rack'\<lparr>rk_Resource := add_delta (rk_Resource rack) deltaResource,
            rk_Allocated := add_delta (rk_Allocated rack) deltaAllocated\<rparr>;
          dc' = (AddRack rack'' dc)\<lparr>dc_Resource := add_delta (dc_Resource dc) deltaResource,
            dc_Allocated := add_delta (dc_Allocated dc) deltaAllocated\<rparr>
      in (AddDataCenter dc' tp)\<lparr>tp_Resource := add_delta (tp_Resource tp) deltaResource,
           tp_Allocated := add_delta (tp_Allocated tp) deltaAllocated\<rparr>)"

definition deleteAgentInformation :: "Location \<Rightarrow> Topology \<Rightarrow> Topology" where
  "deleteAgentInformation location tp =
     (case GetDataCenter tp (loc_DataCenter location) of
        None \<Rightarrow> tp
      | Some dc \<Rightarrow>
          (case GetRack dc (loc_Rack location) of
             None \<Rightarrow> tp
           | Some rack \<Rightarrow>
               (case GetAgent rack (URL location) of
                  None \<Rightarrow> tp
                | Some oldInfo \<Rightarrow>
                    if IsZero (ag_Resource oldInfo) then tp
                    else
                      (let rack' = (DropAgent location rack)\<lparr>rk_Resource := Minus (rk_Resource rack) (ag_Resource oldInfo),
                             rk_Allocated := Minus (rk_Allocated rack) (ag_Allocated oldInfo)\<rparr>;
                           dc' = (AddRack rack' dc)\<lparr>dc_Resource := Minus (dc_Resource dc) (ag_Resource oldInfo),
                             dc_Allocated := Minus (dc_Allocated dc) (ag_Allocated oldInfo)\<rparr>
                       in (AddDataCenter dc' tp)\<lparr>tp_Resource := Minus (tp_Resource tp) (ag_Resource oldInfo),
                            tp_Allocated := Minus (tp_Allocated tp) (ag_Allocated oldInfo)\<rparr>))))"

definition findAgentInformation :: "Location \<Rightarrow> Topology \<Rightarrow> AgentInformation option" where
  "findAgentInformation location tp =
     (case GetDataCenter tp (loc_DataCenter location) of
        None \<Rightarrow> None
      | Some d \<Rightarrow> (case GetRack d (loc_Rack location) of None \<Rightarrow> None | Some r \<Rightarrow> GetAgent r (URL location)))"

text \<open>
  One connection of an agent: the heartbeats it sends, and the end of the stream, which removes the
  agent that sent the first of them.
\<close>

fun heartbeats :: "int \<Rightarrow> Heartbeat list \<Rightarrow> Topology \<Rightarrow> Topology" where
  "heartbeats now [] tp = tp"
| "heartbeats now (hb # hbs) tp = heartbeats (now + 1) hbs (UpdateAgentInformation now hb tp)"

definition SendHeartbeat :: "int \<Rightarrow> Heartbeat list \<Rightarrow> gerror \<Rightarrow> Topology \<Rightarrow> Topology \<times> gerror option" where
  "SendHeartbeat now hbs err tp =
     (let tp' = heartbeats now hbs tp in
      (case hbs of [] \<Rightarrow> tp' | hb # _ \<Rightarrow> deleteAgentInformation (hb_Location hb) tp',
       if err = EOF then None else Some err))"

section \<open>Assignment of servers\<close>

record Allocation =
  al_Location :: Location
  al_Allocated :: ComputeResource

definition allocateDataCenter :: "ComputeResource list \<Rightarrow> Topology \<Rightarrow> gerror + string" where
  "allocateDataCenter requests tp =
     (let wanted = foldl (\<lambda>acc r. Plus r acc) no_resource requests;
          dataCenters = GetDataCenters tp
      in case find (\<lambda>(name, dc). Covers (Minus (dc_Resource dc) (dc_Allocated dc)) wanted) dataCenters of
           Some (name, dc) \<Rightarrow> Inr name
         | None \<Rightarrow>
             if length dataCenters = 0 then Inl (Errorf ''No data center available.'' None)
             else Inl (Errorf ''All data centers are busy.'' None))"

text \<open>
  The agents of a rack are tried in turn, from the one after the agent tried last; the first one is
  chosen at random. \<open>next_agent\<close> is the inner loop, with the number of agents still to try.
\<close>

fun next_agent :: "ComputeResource \<Rightarrow> AgentInformation list \<Rightarrow> nat \<Rightarrow> int \<Rightarrow> int \<times> bool" where
  "next_agent request agents 0 start = (start, False)"
| "next_agent request agents (Suc x) start =
     (let start = (if start + 1 = int (length agents) then 0 else start + 1);
          agent = agents ! nat start
      in if Covers (Minus (ag_Resource agent) (ag_Allocated agent)) request then (start, True)
         else next_agent request agents x start)"

record alloc_state =
  aa_agents :: "AgentInformation list"
  aa_rack :: ComputeResource
  aa_dc :: ComputeResource
  aa_tp :: ComputeResource
  aa_start :: int
  aa_allocated :: "Allocation list"
  aa_remaining :: "ComputeResource list"

definition allocate_request :: "alloc_state \<Rightarrow> ComputeResource \<Rightarrow> alloc_state" where
  "allocate_request s request =
     (let (start, hasAllocation) = next_agent request (aa_agents s) (length (aa_agents s)) (aa_start s);
          agent = aa_agents s ! nat start
      in if hasAllocation then
           s\<lparr>aa_start := start,
             aa_allocated := aa_allocated s @ [\<lparr>al_Location = ag_Location agent, al_Allocated = request\<rparr>],
             aa_agents := (aa_agents s)[nat start := agent\<lparr>ag_Allocated := Plus (ag_Allocated agent) request\<rparr>],
             aa_rack := Plus (aa_rack s) request, aa_dc := Plus (aa_dc s) request, aa_tp := Plus (aa_tp s) request\<rparr>
         else s\<lparr>aa_start := start, aa_remaining := aa_remaining s @ [request]\<rparr>)"

definition allocateServersOnRack :: "nat \<Rightarrow> Rack \<Rightarrow> ComputeResource \<Rightarrow> ComputeResource \<Rightarrow> ComputeResource list \<Rightarrow>
    Rack \<times> ComputeResource \<times> ComputeResource \<times> Allocation list \<times> ComputeResource list" where
  "allocateServersOnRack rand rack dcAllocated tpAllocated requests =
     (let agents = GetAgents rack in
      if length agents = 0 then (rack, dcAllocated, tpAllocated, [], [])
      else
        let s = foldl allocate_request
              \<lparr>aa_agents = agents, aa_rack = rk_Allocated rack, aa_dc = dcAllocated, aa_tp = tpAllocated,
               aa_start = int (rand mod length agents) - 1, aa_allocated = [], aa_remaining = []\<rparr> requests
        in (rack\<lparr>rk_Agents := zip (map fst (rk_Agents rack)) (aa_agents s), rk_Allocated := aa_rack s\<rparr>,
            aa_dc s, aa_tp s, aa_allocated s, aa_remaining s))"

definition byAvailableResources_Less :: "Rack \<Rightarrow> Rack \<Rightarrow> bool" where
  "byAvailableResources_Less a b =
     Covers (Minus (rk_Resource a) (rk_Allocated a)) (Minus (rk_Resource b) (rk_Allocated b))"

definition byRequestedResources_Less :: "ComputeResource \<Rightarrow> ComputeResource \<Rightarrow> bool" where
  "byRequestedResources_Less a b = Covers a b"

text \<open>
  The loop over the racks declares a new variable \<^verbatim>\<open>requests\<close> in its body, so every rack is asked for all the
  requests, and the loop ends when a rack leaves none of them.
\<close>

fun assign_racks :: "(string \<Rightarrow> nat) \<Rightarrow> Rack list \<Rightarrow> ComputeResource list \<Rightarrow> DataCenter \<Rightarrow> ComputeResource \<Rightarrow>
    DataCenter \<times> ComputeResource \<times> Allocation list" where
  "assign_racks rand [] requests dc tpAllocated = (dc, tpAllocated, [])"
| "assign_racks rand (rack # racks) requests dc tpAllocated =
     (let (rack', dcAllocated, tpAllocated', allocated, remaining) =
            allocateServersOnRack (rand (rk_Name rack)) rack (dc_Allocated dc) tpAllocated requests;
          dc' = (AddRack rack' dc)\<lparr>dc_Allocated := dcAllocated\<rparr>
      in if length remaining = 0 then (dc', tpAllocated', allocated)
         else
           let (dc'', tpAllocated'', ret) = assign_racks rand racks requests dc' tpAllocated'
           in (dc'', tpAllocated'', allocated @ ret))"

text \<open>
  \<^verbatim>\<open>sort.Sort\<close> is a parameter for each of the two orders: they are reflexive, so the contract of the library
  only leaves that the result is a permutation.
\<close>

definition findServers :: "(Rack list \<Rightarrow> Rack list) \<Rightarrow> (ComputeResource list \<Rightarrow> ComputeResource list) \<Rightarrow> (string \<Rightarrow> nat) \<Rightarrow>
    DataCenter \<Rightarrow> ComputeResource list \<Rightarrow> Topology \<Rightarrow> Topology \<times> Allocation list" where
  "findServers sortRacks sortRequests rand dc requests tp =
     (let (dc', tpAllocated, ret) =
            assign_racks rand (sortRacks (GetRacks dc)) (sortRequests requests) dc (tp_Allocated tp)
      in ((AddDataCenter dc' tp)\<lparr>tp_Allocated := tpAllocated\<rparr>, ret))"

definition GetResources :: "(Rack list \<Rightarrow> Rack list) \<Rightarrow> (ComputeResource list \<Rightarrow> ComputeResource list) \<Rightarrow> (string \<Rightarrow> nat) \<Rightarrow>
    string \<Rightarrow> ComputeResource list \<Rightarrow> Topology \<Rightarrow> Topology \<times> (gerror + Allocation list)" where
  "GetResources sortRacks sortRequests rand dataCenter requests tp =
     (case (if dataCenter = [] then allocateDataCenter requests tp else Inr dataCenter) of
        Inl err \<Rightarrow> (tp, Inl err)
      | Inr dcName \<Rightarrow>
          (case GetDataCenter tp dcName of
             None \<Rightarrow> (tp, Inl (Errorf ''Failed to find existing data center'' None))
           | Some dc \<Rightarrow>
               let (tp', allocations) = findServers sortRacks sortRequests rand dc requests tp
               in (tp', Inr allocations)))"

section \<open>The totals of every level\<close>

text \<open>
  A quantity of a resource that \<open>Plus\<close> and \<open>Minus\<close> add and subtract and that \<open>IsZero\<close> looks at. Machine
  integers form a group, so the totals are exact even when they wrap around.
\<close>

definition rack_balanced :: "(ComputeResource \<Rightarrow> 'a :: ab_group_add) \<Rightarrow> Rack \<Rightarrow> bool" where
  "rack_balanced amount rack \<longleftrightarrow> distinct (map fst (rk_Agents rack)) \<and>
     amount (rk_Resource rack) = (\<Sum>(n, a)\<leftarrow>rk_Agents rack. amount (ag_Resource a))"

definition dc_balanced :: "(ComputeResource \<Rightarrow> 'a :: ab_group_add) \<Rightarrow> DataCenter \<Rightarrow> bool" where
  "dc_balanced amount dc \<longleftrightarrow> distinct (map fst (dc_Racks dc)) \<and>
     (\<forall>(n, rack)\<in>set (dc_Racks dc). rk_Name rack = n \<and> rack_balanced amount rack) \<and>
     amount (dc_Resource dc) = (\<Sum>(n, rack)\<leftarrow>dc_Racks dc. amount (rk_Resource rack))"

definition balanced :: "(ComputeResource \<Rightarrow> 'a :: ab_group_add) \<Rightarrow> Topology \<Rightarrow> bool" where
  "balanced amount tp \<longleftrightarrow> distinct (map fst (tp_DataCenters tp)) \<and>
     (\<forall>(n, dc)\<in>set (tp_DataCenters tp). dc_Name dc = n \<and> dc_balanced amount dc) \<and>
     amount (tp_Resource tp) = (\<Sum>(n, dc)\<leftarrow>tp_DataCenters tp. amount (dc_Resource dc))"

lemma sum_alist_update:
  fixes f :: "'v \<Rightarrow> 'a :: ab_group_add"
  assumes "distinct (map fst al)"
  shows "(\<Sum>(k, v)\<leftarrow>AList.update k v al. f v) =
    (\<Sum>(k, v)\<leftarrow>al. f v) + f v - (case map_of al k of Some v' \<Rightarrow> f v' | None \<Rightarrow> 0)"
  using assms
proof (induction al)
  case (Cons x al)
  then show ?case by (cases x) (auto simp: algebra_simps split: option.splits)
qed simp

lemma sum_alist_delete:
  fixes f :: "'v \<Rightarrow> 'a :: ab_group_add"
  assumes "distinct (map fst al)"
  shows "(\<Sum>(k, v)\<leftarrow>AList.delete k al. f v) =
    (\<Sum>(k, v)\<leftarrow>al. f v) - (case map_of al k of Some v' \<Rightarrow> f v' | None \<Rightarrow> 0)"
  using assms
proof (induction al)
  case (Cons x al)
  then have "map_of al (fst x) = None" by (simp add: map_of_eq_None_iff)
  with Cons show ?case by (cases x) (auto simp: AList.delete_eq algebra_simps)
qed (simp add: AList.delete_eq)

lemma set_alist_update: "distinct (map fst al) \<Longrightarrow> set (AList.update k v al) = {x \<in> set al. fst x \<noteq> k} \<union> {(k, v)}"
  by (induction al) (auto simp: image_iff)

locale resource_amount =
  fixes amount :: "ComputeResource \<Rightarrow> 'a :: ab_group_add"
  assumes amount_Plus: "amount (Plus a b) = amount a + amount b"
    and amount_Minus: "amount (Minus a b) = amount a - amount b"
    and amount_IsZero: "IsZero a \<Longrightarrow> amount a = 0"
begin

lemma amount_no_resource: "amount no_resource = 0"
  by (rule amount_IsZero) (simp add: no_resource_def IsZero_def)

lemma amount_add_delta: "amount (add_delta acc delta) = amount acc + amount delta"
  by (simp add: add_delta_def amount_Plus amount_IsZero)

lemma balanced_dc:
  assumes "balanced amount tp" "GetDataCenter tp name = Some dc"
  shows "dc_balanced amount dc" "dc_Name dc = name"
  using assms by (auto simp: balanced_def GetDataCenter_def dest: map_of_SomeD)

lemma balanced_rack:
  assumes "dc_balanced amount dc" "GetRack dc name = Some rack"
  shows "rack_balanced amount rack" "rk_Name rack = name"
  using assms by (auto simp: dc_balanced_def GetRack_def dest: map_of_SomeD)

lemma balanced_AddDataCenter:
  assumes "balanced amount tp" "dc_balanced amount dc'"
    and "amount (dc_Resource dc') = (case GetDataCenter tp (dc_Name dc') of Some dc \<Rightarrow> amount (dc_Resource dc) | None \<Rightarrow> 0) + d"
    and "amount r = amount (tp_Resource tp) + d"
  shows "balanced amount ((AddDataCenter dc' tp)\<lparr>tp_Resource := r, tp_Allocated := al\<rparr>)"
  using assms sum_alist_update [where al = "tp_DataCenters tp" and k = "dc_Name dc'" and v = dc' and f = "\<lambda>dc. amount (dc_Resource dc)"]
  by (auto simp: balanced_def AddDataCenter_def GetDataCenter_def distinct_update set_alist_update
      algebra_simps split: option.splits)

lemma balanced_AddRack:
  assumes "dc_balanced amount dc" "rack_balanced amount rack'"
    and "amount (rk_Resource rack') = (case GetRack dc (rk_Name rack') of Some rack \<Rightarrow> amount (rk_Resource rack) | None \<Rightarrow> 0) + d"
    and "amount r = amount (dc_Resource dc) + d"
  shows "dc_balanced amount ((AddRack rack' dc)\<lparr>dc_Resource := r, dc_Allocated := al\<rparr>)"
  using assms sum_alist_update [where al = "dc_Racks dc" and k = "rk_Name rack'" and v = rack' and f = "\<lambda>rack. amount (rk_Resource rack)"]
  by (auto simp: dc_balanced_def AddRack_def GetRack_def distinct_update set_alist_update
      algebra_simps split: option.splits)

lemma new_balanced: "rack_balanced amount (NewRack n)" "dc_balanced amount (NewDataCenter n)" "balanced amount NewTopology"
  by (simp_all add: rack_balanced_def dc_balanced_def balanced_def NewRack_def NewDataCenter_def NewTopology_def amount_no_resource)

lemma rack_heartbeat_balanced:
  assumes "rack_balanced amount rack" "rack_heartbeat now hb rack = (rack', dr, da)"
  shows "rack_balanced amount (rack'\<lparr>rk_Resource := add_delta (rk_Resource rack) dr, rk_Allocated := al\<rparr>)"
    "rk_Name rack' = rk_Name rack"
proof -
  note upd = sum_alist_update [where al = "rk_Agents rack" and k = "URL (hb_Location hb)" and f = "\<lambda>a. amount (ag_Resource a)"]
  have "amount (hb_Resource hb) = amount (ag_Resource old)" if "IsZero (Minus (hb_Resource hb) (ag_Resource old))" for old
    using amount_IsZero [OF that] by (simp add: amount_Minus)
  then show "rack_balanced amount (rack'\<lparr>rk_Resource := add_delta (rk_Resource rack) dr, rk_Allocated := al\<rparr>)"
    using assms upd
    by (auto simp: rack_heartbeat_def rack_balanced_def GetAgent_def AddAgent_def distinct_update Let_def
        amount_add_delta amount_Minus split: option.splits)
  show "rk_Name rack' = rk_Name rack"
    using assms(2) by (auto simp: rack_heartbeat_def Let_def AddAgent_def split: option.splits)
qed

lemma UpdateAgentInformation_balanced:
  assumes "balanced amount tp"
  shows "balanced amount (UpdateAgentInformation now hb tp)"
proof -
  let ?dn = "loc_DataCenter (hb_Location hb)" and ?rn = "loc_Rack (hb_Location hb)"
  define dc where "dc = (case GetDataCenter tp ?dn of Some dc \<Rightarrow> dc | None \<Rightarrow> NewDataCenter ?dn)"
  define rack where "rack = (case GetRack dc ?rn of Some rack \<Rightarrow> rack | None \<Rightarrow> NewRack ?rn)"
  obtain rack' dr da where hb: "rack_heartbeat now hb rack = (rack', dr, da)" by (metis prod_cases3)
  have dc: "dc_balanced amount dc" "dc_Name dc = ?dn"
      "amount (dc_Resource dc) = (case GetDataCenter tp ?dn of Some dc \<Rightarrow> amount (dc_Resource dc) | None \<Rightarrow> 0)"
    using balanced_dc [OF assms] new_balanced(2) [of ?dn]
    by (auto simp: dc_def NewDataCenter_def amount_no_resource split: option.splits)
  have rack: "rack_balanced amount rack" "rk_Name rack = ?rn"
      "amount (rk_Resource rack) = (case GetRack dc ?rn of Some rack \<Rightarrow> amount (rk_Resource rack) | None \<Rightarrow> 0)"
    using balanced_rack [OF dc(1)] new_balanced(1) [of ?rn]
    by (auto simp: rack_def NewRack_def amount_no_resource split: option.splits)
  let ?rack = "rack'\<lparr>rk_Resource := add_delta (rk_Resource rack) dr, rk_Allocated := add_delta (rk_Allocated rack) da\<rparr>"
  let ?dc = "(AddRack ?rack dc)\<lparr>dc_Resource := add_delta (dc_Resource dc) dr, dc_Allocated := add_delta (dc_Allocated dc) da\<rparr>"
  note r = rack_heartbeat_balanced [OF rack(1) hb]
  have "dc_balanced amount ?dc"
    by (rule balanced_AddRack [OF dc(1) r(1), where d = "amount dr"]) (use rack r(2) in \<open>simp_all add: amount_add_delta\<close>)
  moreover have "dc_Name ?dc = ?dn" using dc(2) by (simp add: AddRack_def)
  ultimately have "balanced amount ((AddDataCenter ?dc tp)\<lparr>tp_Resource := add_delta (tp_Resource tp) dr,
      tp_Allocated := add_delta (tp_Allocated tp) da\<rparr>)"
    by (intro balanced_AddDataCenter [OF assms, where d = "amount dr"]) (use dc(3) in \<open>simp_all add: amount_add_delta\<close>)
  moreover have "UpdateAgentInformation now hb tp = (AddDataCenter ?dc tp)\<lparr>tp_Resource := add_delta (tp_Resource tp) dr,
      tp_Allocated := add_delta (tp_Allocated tp) da\<rparr>"
    unfolding UpdateAgentInformation_def dc_def [symmetric] Let_def rack_def [symmetric] hb by simp
  ultimately show ?thesis by simp
qed

lemma DropAgent_balanced:
  assumes "rack_balanced amount rack" "GetAgent rack (URL location) = Some old"
  shows "rack_balanced amount ((DropAgent location rack)\<lparr>rk_Resource := Minus (rk_Resource rack) (ag_Resource old), rk_Allocated := al\<rparr>)"
  using assms sum_alist_delete [where al = "rk_Agents rack" and k = "URL location" and f = "\<lambda>a. amount (ag_Resource a)"]
  by (simp add: rack_balanced_def DropAgent_def GetAgent_def distinct_delete amount_Minus)

lemma deleteAgentInformation_balanced:
  assumes "balanced amount tp"
  shows "balanced amount (deleteAgentInformation location tp)"
proof (cases "deleteAgentInformation location tp = tp")
  case False
  then obtain dc rack old where f: "GetDataCenter tp (loc_DataCenter location) = Some dc"
    "GetRack dc (loc_Rack location) = Some rack" "GetAgent rack (URL location) = Some old" "\<not> IsZero (ag_Resource old)"
    by (auto simp: deleteAgentInformation_def split: option.splits if_splits)
  note dc = balanced_dc [OF assms f(1)]
  note rack = balanced_rack [OF dc(1) f(2)]
  let ?rack = "(DropAgent location rack)\<lparr>rk_Resource := Minus (rk_Resource rack) (ag_Resource old),
      rk_Allocated := Minus (rk_Allocated rack) (ag_Allocated old)\<rparr>"
  let ?dc = "(AddRack ?rack dc)\<lparr>dc_Resource := Minus (dc_Resource dc) (ag_Resource old),
      dc_Allocated := Minus (dc_Allocated dc) (ag_Allocated old)\<rparr>"
  have "dc_balanced amount ?dc"
    by (rule balanced_AddRack [OF dc(1) DropAgent_balanced [OF rack(1) f(3)], where d = "- amount (ag_Resource old)"])
      (use f rack(2) in \<open>simp_all add: amount_Minus DropAgent_def\<close>)
  moreover have "dc_Name ?dc = loc_DataCenter location" using dc(2) by (simp add: AddRack_def)
  ultimately have "balanced amount ((AddDataCenter ?dc tp)\<lparr>tp_Resource := Minus (tp_Resource tp) (ag_Resource old),
      tp_Allocated := Minus (tp_Allocated tp) (ag_Allocated old)\<rparr>)"
    by (intro balanced_AddDataCenter [OF assms, where d = "- amount (ag_Resource old)"]) (use f in \<open>simp_all add: amount_Minus\<close>)
  then show ?thesis using f by (simp add: deleteAgentInformation_def Let_def)
qed (use assms in simp)

lemma heartbeats_balanced: "balanced amount tp \<Longrightarrow> balanced amount (heartbeats now hbs tp)"
  by (induction hbs arbitrary: now tp) (simp_all add: UpdateAgentInformation_balanced)

lemma SendHeartbeat_balanced:
  "balanced amount tp \<Longrightarrow> SendHeartbeat now hbs err tp = (tp', e) \<Longrightarrow> balanced amount tp'"
  by (auto simp: SendHeartbeat_def Let_def UpdateAgentInformation_balanced heartbeats_balanced deleteAgentInformation_balanced
      split: list.splits)

end

interpretation cpu: resource_amount CpuCount
  by unfold_locales (simp_all add: Plus_def Minus_def IsZero_def)

interpretation memory: resource_amount MemoryMb
  by unfold_locales (simp_all add: Plus_def Minus_def IsZero_def)

text \<open>Any sequence of connections, one after the other.\<close>

fun connections :: "(int \<times> Heartbeat list \<times> gerror) list \<Rightarrow> Topology \<Rightarrow> Topology" where
  "connections [] tp = tp"
| "connections ((now, hbs, err) # cs) tp = connections cs (fst (SendHeartbeat now hbs err tp))"


section \<open>Assigned servers\<close>

text \<open>An agent whose allocation stays within its resources, and a request of something.\<close>

definition agent_ok :: "AgentInformation \<Rightarrow> bool" where
  "agent_ok a \<longleftrightarrow> 0 \<le>s CpuCount (ag_Allocated a) \<and> CpuCount (ag_Allocated a) \<le>s CpuCount (ag_Resource a) \<and>
     0 \<le>s MemoryMb (ag_Allocated a) \<and> MemoryMb (ag_Allocated a) \<le>s MemoryMb (ag_Resource a)"

definition request_ok :: "ComputeResource \<Rightarrow> bool" where
  "request_ok r \<longleftrightarrow> 0 \<le>s CpuCount r \<and> 0 \<le>s MemoryMb r"

lemma sint_bounds: "- (2 ^ (LENGTH('a) - 1)) \<le> sint (w :: 'a :: len word)" "sint (w :: 'a :: len word) < 2 ^ (LENGTH('a) - 1)"
  using sint_greater_eq [of w] sint_less [of w] by simp_all

lemma signed_room:
  fixes a r q :: "'a :: len word"
  assumes "0 \<le>s a" "a \<le>s r" "0 \<le>s q" "q \<le>s r - a"
  shows "0 \<le>s a + q \<and> a + q \<le>s r"
proof -
  have b: "0 \<le> sint a" "sint a \<le> sint r" "0 \<le> sint q" "sint r < 2 ^ (LENGTH('a) - 1)"
    using assms sint_bounds(2) [of r] by (simp_all add: word_sle_eq)
  have "sint (r - a) = sint r - sint a"
    using b by (subst sint_word_ariths(2), intro signed_take_bit_int_eq_self) auto
  moreover from this have "sint (a + q) = sint a + sint q"
    using b assms(4) by (subst sint_word_ariths(1), intro signed_take_bit_int_eq_self) (auto simp: word_sle_eq)
  ultimately show ?thesis using b assms(4) by (simp add: word_sle_eq)
qed

lemma agent_ok_allocate:
  assumes "agent_ok a" "request_ok r" "Covers (Minus (ag_Resource a) (ag_Allocated a)) r"
  shows "agent_ok (a\<lparr>ag_Allocated := Plus (ag_Allocated a) r\<rparr>)"
  using assms signed_room [of "CpuCount (ag_Allocated a)" "CpuCount (ag_Resource a)" "CpuCount r"]
    signed_room [of "MemoryMb (ag_Allocated a)" "MemoryMb (ag_Resource a)" "MemoryMb r"]
  by (simp add: agent_ok_def request_ok_def Covers_def Minus_def Plus_def)

lemma next_agent_ok:
  assumes "next_agent request agents x start = (start', found)" "agents \<noteq> []" "- 1 \<le> start" "start < int (length agents)"
  shows "- 1 \<le> start' \<and> start' < int (length agents) \<and>
    (found \<longrightarrow> 0 \<le> start' \<and> Covers (Minus (ag_Resource (agents ! nat start')) (ag_Allocated (agents ! nat start'))) request)"
  using assms
proof (induction x arbitrary: start)
  case (Suc x)
  let ?s = "if start + 1 = int (length agents) then 0 else start + 1"
  have "0 \<le> ?s" "- 1 \<le> ?s" "?s < int (length agents)" using Suc.prems by auto
  then show ?case using Suc.IH [of ?s] Suc.prems(1,2) by (auto simp: Let_def split: if_splits)
qed simp

definition alloc_inv :: "ComputeResource list \<Rightarrow> nat \<Rightarrow> alloc_state \<Rightarrow> bool" where
  "alloc_inv requests n s \<longleftrightarrow> length (aa_agents s) = n \<and> - 1 \<le> aa_start s \<and> aa_start s < int n \<and>
     (\<forall>a\<in>set (aa_agents s). agent_ok a) \<and>
     mset (map al_Allocated (aa_allocated s)) + mset (aa_remaining s) = mset requests"

lemma allocate_request_inv:
  assumes "alloc_inv requests n s" "0 < n" "request_ok r"
  shows "alloc_inv (requests @ [r]) n (allocate_request s r)"
proof -
  obtain start found where f: "next_agent r (aa_agents s) (length (aa_agents s)) (aa_start s) = (start, found)" by force
  have inv: "length (aa_agents s) = n" "- 1 \<le> aa_start s" "aa_start s < int n" "\<forall>a\<in>set (aa_agents s). agent_ok a"
    "mset (map al_Allocated (aa_allocated s)) + mset (aa_remaining s) = mset requests"
    using assms(1) by (simp_all add: alloc_inv_def)
  note ok = next_agent_ok [OF f]
  show ?thesis
  proof (cases found)
    case True
    let ?a = "aa_agents s ! nat start"
    have st: "0 \<le> start" "start < int n" "Covers (Minus (ag_Resource ?a) (ag_Allocated ?a)) r"
      using ok True inv assms(2) by auto
    then have "agent_ok (?a\<lparr>ag_Allocated := Plus (ag_Allocated ?a) r\<rparr>)"
      using inv(1,4) assms(3) by (intro agent_ok_allocate) auto
    then show ?thesis using True f st inv
      by (auto simp: alloc_inv_def allocate_request_def Let_def dest!: subsetD [OF set_update_subset_insert])
  next
    case False
    then show ?thesis using f ok inv assms(2) by (auto simp: alloc_inv_def allocate_request_def Let_def)
  qed
qed

lemma allocate_requests_inv:
  assumes "alloc_inv done n s" "0 < n" "\<forall>r\<in>set requests. request_ok r"
  shows "alloc_inv (done @ requests) n (foldl allocate_request s requests)"
  using assms
proof (induction requests arbitrary: "done" s)
  case (Cons r requests)
  from Cons.IH [OF allocate_request_inv [OF Cons.prems(1,2)], of r] Cons.prems show ?case by simp
qed simp


definition sample_agent :: "string \<Rightarrow> int32 \<Rightarrow> AgentInformation" where
  "sample_agent server cpus =
     \<lparr>ag_Location = \<lparr>loc_DataCenter = ''d'', loc_Rack = ''r'', loc_Server = server, loc_Port = 1\<rparr>, ag_LastHeartBeat = 0,
      ag_Resource = no_resource\<lparr>CpuCount := cpus, MemoryMb := 100\<rparr>, ag_Allocated = no_resource\<rparr>"

definition one_cpu :: ComputeResource where
  "one_cpu = no_resource\<lparr>CpuCount := 1\<rparr>"

definition sample_rack :: "string \<Rightarrow> int32 \<Rightarrow> Rack" where
  "sample_rack name cpus = \<lparr>rk_Name = name, rk_Agents = [(name, sample_agent name cpus)],
     rk_Resource = ag_Resource (sample_agent name cpus), rk_Allocated = no_resource\<rparr>"

lemmas sample_defs = sample_agent_def one_cpu_def sample_rack_def no_resource_def


text \<open>
  With two racks more is allocated than requested: when the first rack can serve only one of two requests, the
  second is asked for both again, and three servers are allocated.
\<close>

theorem findServers_over_allocates:
  "length (snd (findServers id id (\<lambda>n. 0)
     \<lparr>dc_Name = ''d'', dc_Racks = [(''a'', sample_rack ''a'' 1), (''b'', sample_rack ''b'' 5)],
      dc_Resource = no_resource, dc_Allocated = no_resource\<rparr> [one_cpu, one_cpu] NewTopology)) = 3"
  by (simp add: findServers_def GetRacks_def allocateServersOnRack_def GetAgents_def allocate_request_def
      sample_defs Covers_def Minus_def Plus_def word_sle_eq Let_def AddRack_def)

text \<open>
  A rack without agents ends the search: the requests stay unserved although the next rack could serve them.
\<close>

theorem findServers_stops_at_empty_rack:
  "snd (findServers id id (\<lambda>n. 0)
     \<lparr>dc_Name = ''d'', dc_Racks = [(''e'', NewRack ''e''), (''b'', sample_rack ''b'' 5)],
      dc_Resource = no_resource, dc_Allocated = no_resource\<rparr> [one_cpu] NewTopology) = []"
  by (simp add: findServers_def GetRacks_def allocateServersOnRack_def GetAgents_def NewRack_def)

end
