(* ===== verification/Plan.thy ===== *)
theory Plan
  imports FlowBuild Topology
begin

text \<open>
  The execution plan of a flow (\<^verbatim>\<open>distributed/plan\<close>): steps that can run in one process are merged into step groups, the
  tasks of a step group with the same number into task groups, and a task group is sent to an agent as a set of
  serialized instructions. A pointer to a step group is the number of its first step. The search for the first step
  follows pointers in a loop and is a partial function: \<open>None\<close> means that it does not return.
\<close>

type_synonym 'a plan_m = "'a go option"

definition pret :: "'a \<Rightarrow> 'a plan_m" where
  "pret x = Some (Inr x)"

definition pbind :: "'a plan_m \<Rightarrow> ('a \<Rightarrow> 'b plan_m) \<Rightarrow> 'b plan_m" where
  "pbind m k = (case m of None \<Rightarrow> None | Some (Inl p) \<Rightarrow> Some (Inl p) | Some (Inr x) \<Rightarrow> k x)"

fun pfold :: "('a \<Rightarrow> 'b \<Rightarrow> 'b plan_m) \<Rightarrow> 'a list \<Rightarrow> 'b \<Rightarrow> 'b plan_m" where
  "pfold f [] s = pret s"
| "pfold f (x # xs) s = pbind (f x s) (pfold f xs)"

section \<open>Data\<close>

record StepGroup =
  sg_Key :: nat
  sg_Steps :: "nat list"
  sg_Parents :: "nat list"
  sg_TaskGroups :: "nat list"

record TaskGroup =
  tg_Id :: nat
  tg_Tasks :: "task_ref list"
  tg_Parents :: "nat list"
  tg_ParentStepGroup :: "nat option"
  tg_Stopped :: bool
  tg_Error :: "gerror option"

definition NewStepGroup :: "nat \<Rightarrow> StepGroup" where
  "NewStepGroup key = \<lparr>sg_Key = key, sg_Steps = [], sg_Parents = [], sg_TaskGroups = []\<rparr>"

definition AddStep :: "nat \<Rightarrow> StepGroup \<Rightarrow> StepGroup" where
  "AddStep s g = g\<lparr>sg_Steps := sg_Steps g @ [s]\<rparr>"

definition StepGroup_AddParent :: "nat \<Rightarrow> StepGroup \<Rightarrow> StepGroup" where
  "StepGroup_AddParent pg g = g\<lparr>sg_Parents := sg_Parents g @ [pg]\<rparr>"

definition NewTaskGroup :: TaskGroup where
  "NewTaskGroup = \<lparr>tg_Id = 0, tg_Tasks = [], tg_Parents = [], tg_ParentStepGroup = None, tg_Stopped = False, tg_Error = None\<rparr>"

definition AddTask :: "task_ref \<Rightarrow> TaskGroup \<Rightarrow> TaskGroup" where
  "AddTask t g = g\<lparr>tg_Tasks := tg_Tasks g @ [t]\<rparr>"

definition TaskGroup_AddParent :: "nat \<Rightarrow> TaskGroup \<Rightarrow> TaskGroup" where
  "TaskGroup_AddParent pg g = g\<lparr>tg_Parents := tg_Parents g @ [pg]\<rparr>"

section \<open>Merging steps\<close>

definition isMergeableDataset :: "Flow \<Rightarrow> nat \<Rightarrow> nat \<Rightarrow> bool go" where
  "isMergeableDataset f d taskCount =
     (let ds = dataset f d in
      if taskCount \<noteq> length (ds_Shards ds) then Inr False
      else case ds_Step ds of
        None \<Rightarrow> Inl PanicNil
      | Some p \<Rightarrow>
          if taskCount \<noteq> length (st_Tasks (step f p)) then Inr False
          else if 1 < length (ds_ReadingSteps ds) then Inr False
          else Inr (\<forall>shard\<in>set (ds_Shards ds). length (sh_ReadingTasks shard) \<le> 1))"

partial_function (option) find_ancestor :: "Flow \<Rightarrow> nat \<Rightarrow> nat \<Rightarrow> nat plan_m" where
  "find_ancestor f current taskCount =
     (if taskCount \<noteq> length (st_Tasks (step f current)) then pret (st_Id (step f current))
      else if 1 < length (st_InputDatasets (step f current)) then pret (st_Id (step f current))
      else if st_InputDatasets (step f current) = [] then pret (st_Id (step f current))
      else case isMergeableDataset f (hd (st_InputDatasets (step f current))) taskCount of
        Inl p \<Rightarrow> Some (Inl p)
      | Inr b \<Rightarrow>
          if \<not> b then pret (st_Id (step f current))
          else case ds_Step (dataset f (hd (st_InputDatasets (step f current)))) of
            None \<Rightarrow> Some (Inl PanicNil)
          | Some p \<Rightarrow>
              if (\<not> st_IsOnDriverSide (step f current) \<and> st_IsOnDriverSide (step f p)) \<or>
                 (st_IsOnDriverSide (step f current) \<and> \<not> st_IsOnDriverSide (step f p))
              then pret (st_Id (step f current))
              else find_ancestor f p (length (st_Tasks (step f p))))"

declare find_ancestor.simps [code]

definition findAncestorStepId :: "Flow \<Rightarrow> nat \<Rightarrow> nat plan_m" where
  "findAncestorStepId f s = find_ancestor f s (length (st_Tasks (step f s)))"

definition add_parent_of :: "Flow \<Rightarrow> nat \<Rightarrow> nat \<Rightarrow> StepGroup option list \<Rightarrow> StepGroup option list plan_m" where
  "add_parent_of f key d groups =
     (case ds_Step (dataset f d) of
        None \<Rightarrow> Some (Inl PanicNil)
      | Some p \<Rightarrow> pbind (findAncestorStepId f p) (\<lambda>pg.
          if length groups \<le> pg then Some (Inl PanicIndex)
          else if groups ! pg = None then Some (Inl PanicFatal)
          else pret (groups[key := map_option (StepGroup_AddParent pg) (groups ! key)])))"

definition add_step :: "Flow \<Rightarrow> nat \<Rightarrow> StepGroup option list \<Rightarrow> StepGroup option list plan_m" where
  "add_step f s groups =
     pbind (findAncestorStepId f s) (\<lambda>key.
       if length groups \<le> key then Some (Inl PanicIndex)
       else
         pbind (if groups ! key = None
                then pfold (add_parent_of f key) (st_InputDatasets (step f s)) (groups[key := Some (NewStepGroup key)])
                else pret groups) (\<lambda>groups.
         pret (groups[key := map_option (AddStep s) (groups ! key)])))"

definition translateToStepGroups :: "Flow \<Rightarrow> StepGroup list plan_m" where
  "translateToStepGroups f =
     pbind (pfold (add_step f) [0..<length (fl_Steps f)] (replicate (length (fl_Steps f)) None)) (\<lambda>groups.
     pret (filter (\<lambda>g. sg_Steps g \<noteq> []) (List.map_filter id groups)))"

section \<open>Grouping tasks\<close>

definition assertSameNumberOfTasks :: "Flow \<Rightarrow> nat list \<Rightarrow> unit go" where
  "assertSameNumberOfTasks f steps =
     (case steps of
        [] \<Rightarrow> Inr ()
      | s # _ \<Rightarrow>
          if \<forall>t\<in>set steps. length (st_Tasks (step f s)) = length (st_Tasks (step f t)) then Inr () else Inl PanicFatal)"

definition task_group :: "Flow \<Rightarrow> StepGroup \<Rightarrow> nat \<Rightarrow> nat \<Rightarrow> TaskGroup go" where
  "task_group f g k i =
     gbind (gfold (\<lambda>tg s. if i < length (st_Tasks (step f s)) then Inr (AddTask (s, i) tg) else Inl PanicIndex)
       NewTaskGroup (sg_Steps g)) (\<lambda>tg.
     Inr (tg\<lparr>tg_ParentStepGroup := Some (sg_Key g), tg_Id := k\<rparr>))"

definition group_tasks :: "Flow \<Rightarrow> StepGroup list \<times> TaskGroup list \<Rightarrow> StepGroup \<Rightarrow> (StepGroup list \<times> TaskGroup list) go" where
  "group_tasks f = (\<lambda>(gs, ret) g.
     gbind (assertSameNumberOfTasks f (sg_Steps g)) (\<lambda>_.
     gbind (go_index (sg_Steps g) 0) (\<lambda>s.
     gbind (gfold (\<lambda>(g, ret) i. gbind (task_group f g (length ret) i) (\<lambda>tg.
         Inr (g\<lparr>sg_TaskGroups := sg_TaskGroups g @ [tg_Id tg]\<rparr>, ret @ [tg])))
       (g, ret) [0..<length (st_Tasks (step f s))]) (\<lambda>(g, ret).
       Inr (gs @ [g], ret)))))"

definition translateToTaskGroups :: "Flow \<Rightarrow> StepGroup list \<Rightarrow> (StepGroup list \<times> TaskGroup list) go" where
  "translateToTaskGroups f groups = gfold (group_tasks f) ([], []) groups"

definition GroupTasks :: "Flow \<Rightarrow> (StepGroup list \<times> TaskGroup list) plan_m" where
  "GroupTasks f = pbind (translateToStepGroups f) (\<lambda>groups. Some (translateToTaskGroups f groups))"

section \<open>The first step of a group\<close>

lemma pbind_simps [simp]: "pbind (Some (Inr x)) k = k x" "pbind (pret x) k = k x" "pbind (Some (Inl p)) k = Some (Inl p)" "pbind None k = None"
  by (simp_all add: pbind_def pret_def)

lemma pfold_append: "pfold g (xs @ ys) s = pbind (pfold g xs s) (pfold g ys)"
  by (induction xs arbitrary: s) (auto simp: pbind_def pret_def split: option.splits sum.splits)

text \<open>The step a step is merged with: the one that produces its only input, if the two can run as one pipeline.\<close>

definition merge_parent :: "Flow \<Rightarrow> nat \<Rightarrow> nat option" where
  "merge_parent f s =
     (case st_InputDatasets (step f s) of
        [d] \<Rightarrow>
          if isMergeableDataset f d (length (st_Tasks (step f s))) = Inr True then
            case ds_Step (dataset f d) of
              None \<Rightarrow> None
            | Some p \<Rightarrow> if st_IsOnDriverSide (step f s) = st_IsOnDriverSide (step f p) then Some p else None
          else None
      | _ \<Rightarrow> None)"

function first_step :: "Flow \<Rightarrow> nat \<Rightarrow> nat" where
  "first_step f s = (case merge_parent f s of Some p \<Rightarrow> if p < s then first_step f p else s | None \<Rightarrow> s)"
  by pat_completeness auto
termination
  by (relation "measure snd") auto

declare first_step.simps [simp del]

lemma merge_parentD:
  assumes "flow_wf f" "s < length (fl_Steps f)" "merge_parent f s = Some p"
  obtains d where "st_InputDatasets (step f s) = [d]" "p < s" "ds_Step (dataset f d) = Some p" "d < length (fl_Datasets f)"
    "st_OutputDataset (step f p) = Some d" "length (ds_ReadingSteps (dataset f d)) \<le> 1" "s \<in> set (ds_ReadingSteps (dataset f d))"
    "length (st_Tasks (step f p)) = length (st_Tasks (step f s))" "length (ds_Shards (dataset f d)) = length (st_Tasks (step f s))"
    "\<forall>shard\<in>set (ds_Shards (dataset f d)). length (sh_ReadingTasks shard) \<le> 1"
    "st_IsOnDriverSide (step f p) = st_IsOnDriverSide (step f s)"
proof -
  obtain d where d: "st_InputDatasets (step f s) = [d]" "isMergeableDataset f d (length (st_Tasks (step f s))) = Inr True"
    "ds_Step (dataset f d) = Some p" "st_IsOnDriverSide (step f p) = st_IsOnDriverSide (step f s)"
    using assms(3) by (auto simp: merge_parent_def split: list.splits if_splits option.splits)
  then have "d \<in> set (st_InputDatasets (step f s))" by simp
  then obtain q where q: "d < length (fl_Datasets f)" "s \<in> set (ds_ReadingSteps (dataset f d))" "q < s" "ds_Step (dataset f d) = Some q"
    using wf_inputD [OF assms(1,2)] by metis
  have m: "length (ds_Shards (dataset f d)) = length (st_Tasks (step f s))" "length (ds_ReadingSteps (dataset f d)) \<le> 1"
    "length (st_Tasks (step f p)) = length (st_Tasks (step f s))"
    "\<forall>shard\<in>set (ds_Shards (dataset f d)). length (sh_ReadingTasks shard) \<le> 1"
    using d(2,3) by (auto simp: isMergeableDataset_def Let_def split: if_splits)
  have "p < s" using q(3,4) d(3) by simp
  then show thesis using that [OF d(1) _ d(3) q(1) wf_stepD(2) [OF assms(1) q(1) d(3)] m(2) q(2) m(3) m(1) m(4) d(4)] by blast
qed

lemma merge_parent_less: "flow_wf f \<Longrightarrow> s < length (fl_Steps f) \<Longrightarrow> merge_parent f s = Some p \<Longrightarrow> p < s"
  by (erule (2) merge_parentD)

lemma find_ancestor_first:
  assumes "flow_wf f" "s < length (fl_Steps f)"
  shows "findAncestorStepId f s = pret (first_step f s)"
  using assms(2)
proof (induction s rule: less_induct)
  case (less s)
  have id: "st_Id (step f s) = s" using assms(1) less.prems by (simp add: flow_wf_def ids_ok_def)
  have wf: "\<exists>p < s. ds_Step (dataset f d) = Some p" if "st_InputDatasets (step f s) = [d]" for d
    using wf_inputD [OF assms(1) less.prems, of d] that by (metis list.set_intros(1))
  show ?case
  proof (cases "merge_parent f s")
    case None
    then have "first_step f s = s" by (simp add: first_step.simps)
    moreover have "findAncestorStepId f s = pret s"
    proof (cases "st_InputDatasets (step f s)")
      case (Cons d ds)
      then show ?thesis
      proof (cases ds)
        case Nil
        then obtain p where "ds_Step (dataset f d) = Some p" using wf Cons by auto
        then show ?thesis using None Cons Nil id
          by (auto simp: findAncestorStepId_def find_ancestor.simps merge_parent_def isMergeableDataset_def Let_def split: if_splits)
      qed (simp add: Cons findAncestorStepId_def find_ancestor.simps id)
    qed (simp add: findAncestorStepId_def find_ancestor.simps id)
    ultimately show ?thesis by simp
  next
    case (Some p)
    obtain d where d: "st_InputDatasets (step f s) = [d]" "isMergeableDataset f d (length (st_Tasks (step f s))) = Inr True"
      "ds_Step (dataset f d) = Some p" "st_IsOnDriverSide (step f p) = st_IsOnDriverSide (step f s)"
      using Some by (auto simp: merge_parent_def split: list.splits if_splits option.splits)
    have p: "p < s" using merge_parent_less [OF assms(1) less.prems Some] .
    then have "findAncestorStepId f p = pret (first_step f p)" using less by simp
    moreover have "first_step f s = first_step f p" using Some p by (simp add: first_step.simps)
    ultimately show ?thesis using d unfolding findAncestorStepId_def by (subst find_ancestor.simps) simp
  qed
qed

lemma first_step_le: "first_step f s \<le> s"
  by (induction f s rule: first_step.induct) (subst first_step.simps, auto split: option.splits)

lemma first_step_root: "flow_wf f \<Longrightarrow> s < length (fl_Steps f) \<Longrightarrow> merge_parent f (first_step f s) = None"
proof (induction f s rule: first_step.induct)
  case (1 f s)
  show ?case
  proof (cases "merge_parent f s")
    case None
    then show ?thesis by (simp add: first_step.simps)
  next
    case (Some p)
    have "p < s" using merge_parent_less [OF 1(2,3) Some] .
    then show ?thesis using 1 Some by (simp add: first_step.simps [of f s])
  qed
qed

lemma first_step_idem: "flow_wf f \<Longrightarrow> s < length (fl_Steps f) \<Longrightarrow> first_step f (first_step f s) = first_step f s"
  using first_step_root [of f s] by (simp add: first_step.simps [of f "first_step f s"])

lemma first_step_parent: "flow_wf f \<Longrightarrow> s < length (fl_Steps f) \<Longrightarrow> merge_parent f s = Some p \<Longrightarrow> first_step f s = first_step f p"
  using merge_parent_less [of f s p] by (simp add: first_step.simps [of f s])

lemma first_step_cases: "flow_wf f \<Longrightarrow> s < length (fl_Steps f) \<Longrightarrow> first_step f s \<noteq> s \<Longrightarrow> \<exists>p. merge_parent f s = Some p"
  by (auto simp: first_step.simps [of f s] split: option.splits)

section \<open>What the grouping of steps computes\<close>

definition members :: "Flow \<Rightarrow> nat \<Rightarrow> nat \<Rightarrow> nat list" where
  "members f k a = filter (\<lambda>s. first_step f s = a) [0..<k]"

definition parents_of :: "Flow \<Rightarrow> nat \<Rightarrow> nat list" where
  "parents_of f a = map (\<lambda>d. first_step f (the (ds_Step (dataset f d)))) (st_InputDatasets (step f a))"

definition partial_group :: "Flow \<Rightarrow> nat \<Rightarrow> nat \<Rightarrow> StepGroup option" where
  "partial_group f k a =
     (if members f k a = [] then None
      else Some \<lparr>sg_Key = a, sg_Steps = members f k a, sg_Parents = parents_of f a, sg_TaskGroups = []\<rparr>)"

lemma members_Suc: "members f (Suc k) a = members f k a @ (if first_step f k = a then [k] else [])"
  by (simp add: members_def)

lemma in_members: "s \<in> set (members f k a) \<longleftrightarrow> s < k \<and> first_step f s = a"
  by (auto simp: members_def)

lemma partial_group_None: "partial_group f k a = None \<longleftrightarrow> (\<forall>s<k. first_step f s \<noteq> a)"
  by (auto simp: partial_group_def members_def filter_empty_conv)

lemma partial_group_Suc_other: "first_step f k \<noteq> a \<Longrightarrow> partial_group f (Suc k) a = partial_group f k a"
  by (simp add: partial_group_def members_Suc)

text \<open>The parents of a new group.\<close>

lemma add_parents:
  assumes "flow_wf f" "k < length (fl_Steps f)" "\<forall>d\<in>set ds. \<exists>p < k. ds_Step (dataset f d) = Some p"
    and "length G = length (fl_Steps f)" "\<forall>p<k. G ! first_step f p \<noteq> None" "G ! k = Some g"
  shows "pfold (add_parent_of f k) ds G =
    pret (G[k := Some (g\<lparr>sg_Parents := sg_Parents g @ map (\<lambda>d. first_step f (the (ds_Step (dataset f d)))) ds\<rparr>)])"
  using assms(3-6)
proof (induction ds arbitrary: G g)
  case Nil
  then have "G[k := Some (g\<lparr>sg_Parents := sg_Parents g\<rparr>)] = G" by (simp add: list_update_same_conv assms(2))
  then show ?case by simp
next
  case (Cons d ds)
  obtain p where p: "p < k" "ds_Step (dataset f d) = Some p" using Cons.prems(1) by auto
  have len: "first_step f p < length G" using first_step_le [of f p] p(1) assms(2) Cons.prems(2) by simp
  define G' where "G' = G[k := Some (g\<lparr>sg_Parents := sg_Parents g @ [first_step f p]\<rparr>)]"
  have "add_parent_of f k d G = pret G'"
    using p len Cons.prems(3,4) find_ancestor_first [OF assms(1), of p] assms(2)
    by (auto simp: add_parent_of_def G'_def StepGroup_AddParent_def)
  moreover have "pfold (add_parent_of f k) ds G' =
    pret (G'[k := Some (g\<lparr>sg_Parents := sg_Parents g @ [first_step f p] @ map (\<lambda>d. first_step f (the (ds_Step (dataset f d)))) ds\<rparr>)])"
    using Cons.IH [of G' "g\<lparr>sg_Parents := sg_Parents g @ [first_step f p]\<rparr>"] Cons.prems assms(2)
    by (simp add: G'_def nth_list_update)
  ultimately show ?case using p by (simp add: G'_def)
qed

lemma add_step_group:
  assumes "flow_wf f" "k < length (fl_Steps f)"
  shows "add_step f k (map (partial_group f k) [0..<length (fl_Steps f)]) = pret (map (partial_group f (Suc k)) [0..<length (fl_Steps f)])"
    (is "add_step f k ?G = pret ?G'")
proof -
  let ?n = "length (fl_Steps f)"
  let ?a = "first_step f k"
  have a: "?a < ?n" using first_step_le [of f k] assms(2) by simp
  have find: "findAncestorStepId f k = pret ?a" using find_ancestor_first [OF assms] .
  have upd: "?G[?a := partial_group f (Suc k) ?a] = ?G'"
    using a by (intro nth_equalityI) (auto simp: nth_list_update partial_group_Suc_other)
  show ?thesis
  proof (cases "partial_group f k ?a")
    case (Some g)
    then have "partial_group f (Suc k) ?a = Some (AddStep k g)"
      by (auto simp: partial_group_def members_Suc AddStep_def split: if_splits)
    then show ?thesis using find a Some upd by (simp add: add_step_def)
  next
    case None
    then have no: "\<forall>s<k. first_step f s \<noteq> ?a" by (simp add: partial_group_None)
    have ak: "?a = k"
    proof (rule ccontr)
      assume "?a \<noteq> k"
      then have "?a < k" using first_step_le [of f k] by simp
      then show False using no first_step_idem [OF assms] by blast
    qed
    have ins: "\<forall>d\<in>set (st_InputDatasets (step f k)). \<exists>p < k. ds_Step (dataset f d) = Some p"
      using wf_inputD [OF assms] by metis
    have earlier: "\<forall>p<k. ?G[k := Some (NewStepGroup k)] ! first_step f p \<noteq> None"
    proof (intro allI impI)
      fix p assume p: "p < k"
      then have "first_step f p < ?n" "partial_group f k (first_step f p) \<noteq> None" using first_step_le [of f p] assms(2) partial_group_None [of f k "first_step f p"] by auto
      then show "?G[k := Some (NewStepGroup k)] ! first_step f p \<noteq> None" using assms(2) by (simp add: nth_list_update)
    qed
    have "pfold (add_parent_of f k) (st_InputDatasets (step f k)) (?G[k := Some (NewStepGroup k)]) =
        pret (?G[k := Some ((NewStepGroup k)\<lparr>sg_Parents := parents_of f k\<rparr>)])"
      using add_parents [OF assms ins, of "?G[k := Some (NewStepGroup k)]" "NewStepGroup k"] earlier assms(2)
      by (simp add: parents_of_def NewStepGroup_def)
    moreover have "members f k k = []" using no ak by (simp add: members_def filter_empty_conv)
    then have "partial_group f (Suc k) ?a = Some (AddStep k ((NewStepGroup k)\<lparr>sg_Parents := parents_of f k\<rparr>))"
      using ak by (simp add: partial_group_def members_Suc AddStep_def NewStepGroup_def)
    ultimately show ?thesis using find a None upd ak by (simp add: add_step_def)
  qed
qed

lemma add_steps_groups:
  assumes "flow_wf f" "k \<le> length (fl_Steps f)"
  shows "pfold (add_step f) [0..<k] (replicate (length (fl_Steps f)) None) = pret (map (partial_group f k) [0..<length (fl_Steps f)])"
  using assms(2)
proof (induction k)
  case 0
  have "partial_group f 0 = (\<lambda>_. None)" by (simp add: partial_group_def members_def fun_eq_iff)
  then show ?case by (simp add: map_replicate_const)
next
  case (Suc k)
  then show ?case using add_step_group [OF assms(1), of k] by (simp add: pfold_append)
qed

text \<open>The groups, by their first steps.\<close>

definition group_keys :: "Flow \<Rightarrow> nat list" where
  "group_keys f = filter (\<lambda>a. first_step f a = a) [0..<length (fl_Steps f)]"

definition step_group :: "Flow \<Rightarrow> nat \<Rightarrow> StepGroup" where
  "step_group f a = \<lparr>sg_Key = a, sg_Steps = members f (length (fl_Steps f)) a, sg_Parents = parents_of f a, sg_TaskGroups = []\<rparr>"

lemma members_nonempty: "flow_wf f \<Longrightarrow> a < length (fl_Steps f) \<Longrightarrow> members f (length (fl_Steps f)) a \<noteq> [] \<longleftrightarrow> first_step f a = a"
  using first_step_idem [of f] by (auto simp: members_def filter_empty_conv)

lemma translateToStepGroups_groups:
  assumes "flow_wf f"
  shows "translateToStepGroups f = pret (map (step_group f) (group_keys f))"
proof -
  let ?n = "length (fl_Steps f)"
  have "List.map_filter id (map (partial_group f ?n) xs) = map (step_group f) (filter (\<lambda>a. first_step f a = a) xs)"
    if "set xs \<subseteq> {0..<?n}" for xs
    using that members_nonempty [OF assms]
    by (induction xs) (auto simp: map_filter_simps partial_group_def step_group_def)
  moreover have "filter (\<lambda>g. sg_Steps g \<noteq> []) (map (step_group f) (group_keys f)) = map (step_group f) (group_keys f)"
    using members_nonempty [OF assms] by (intro filter_True) (auto simp: step_group_def group_keys_def)
  ultimately show ?thesis using add_steps_groups [OF assms, of ?n]
    by (simp add: translateToStepGroups_def group_keys_def)
qed

section \<open>A group is a pipeline\<close>

lemma merge_child_unique:
  assumes "flow_wf f" "s < length (fl_Steps f)" "t < length (fl_Steps f)" "merge_parent f s = Some p" "merge_parent f t = Some p"
  shows "s = t"
proof -
  obtain d where d: "st_OutputDataset (step f p) = Some d" "length (ds_ReadingSteps (dataset f d)) \<le> 1" "s \<in> set (ds_ReadingSteps (dataset f d))"
    using merge_parentD [OF assms(1,2,4)] by metis
  obtain e where e: "st_OutputDataset (step f p) = Some e" "t \<in> set (ds_ReadingSteps (dataset f e))"
    using merge_parentD [OF assms(1,3,5)] by metis
  then have "e = d" using d(1) by simp
  then show ?thesis using d(2,3) e(2) by (cases "ds_ReadingSteps (dataset f d)") auto
qed

lemma first_step_tasks:
  "flow_wf f \<Longrightarrow> s < length (fl_Steps f) \<Longrightarrow> length (st_Tasks (step f (first_step f s))) = length (st_Tasks (step f s))"
proof (induction s rule: less_induct)
  case (less s)
  show ?case
  proof (cases "merge_parent f s")
    case None
    then show ?thesis by (simp add: first_step.simps)
  next
    case (Some p)
    have "p < s" "length (st_Tasks (step f p)) = length (st_Tasks (step f s))"
      using merge_parentD [OF less.prems Some] by metis+
    then show ?thesis using less first_step_parent [OF less.prems Some] by simp
  qed
qed

lemma sorted_members: "sorted_wrt (<) (members f n a)"
  by (simp add: members_def sorted_wrt_filter)

lemma members_parent:
  assumes "flow_wf f" "n = length (fl_Steps f)" "0 < j" "j < length (members f n a)"
  obtains i where "i < j" "merge_parent f (members f n a ! j) = Some (members f n a ! i)"
proof -
  let ?xs = "members f n a"
  have sorted: "?xs ! i < ?xs ! k" if "i < k" "k < length ?xs" for i k
    using sorted_wrt_nth_less [OF sorted_members that] .
  have j: "?xs ! j < n" "first_step f (?xs ! j) = a" using nth_mem [OF assms(4)] by (auto simp: in_members)
  have "?xs ! 0 \<in> set ?xs" using assms(3,4) by (intro nth_mem) linarith
  then have "a \<le> ?xs ! 0" using first_step_le [of f "?xs ! 0"] by (simp add: in_members)
  then have "first_step f (?xs ! j) \<noteq> ?xs ! j" using sorted [of 0 j] assms(3,4) j(2) by simp
  then obtain p where p: "merge_parent f (?xs ! j) = Some p" using first_step_cases assms(1,2) j(1) by blast
  have "p < ?xs ! j" "first_step f p = a" using merge_parent_less [OF assms(1) _ p] first_step_parent [OF assms(1) _ p] j assms(2) by auto
  then have "p \<in> set ?xs" using j(1) by (simp add: in_members)
  then obtain i where i: "i < length ?xs" "?xs ! i = p" by (auto simp: in_set_conv_nth)
  have "i < j"
  proof (rule ccontr)
    assume "\<not> i < j"
    then have "?xs ! j \<le> ?xs ! i" using sorted [of j i] i(1) by (cases "i = j") auto
    then show False using \<open>p < ?xs ! j\<close> i(2) by simp
  qed
  then show thesis using that p i(2) by blast
qed

lemma members_chain:
  assumes "flow_wf f" "n = length (fl_Steps f)" "Suc j < length (members f n a)"
  shows "merge_parent f (members f n a ! Suc j) = Some (members f n a ! j)"
  using assms(3)
proof (induction j rule: less_induct)
  case (less j)
  let ?xs = "members f n a"
  obtain i where i: "i < Suc j" "merge_parent f (?xs ! Suc j) = Some (?xs ! i)"
    using members_parent [OF assms(1,2) _ less.prems] by blast
  show ?case
  proof (cases "i = j")
    case False
    then have "merge_parent f (?xs ! Suc i) = Some (?xs ! i)" using less i(1) by simp
    moreover have "?xs ! Suc i < length (fl_Steps f)" "?xs ! Suc j < length (fl_Steps f)"
      using nth_mem [of "Suc i" ?xs] nth_mem [of "Suc j" ?xs] less.prems i(1) assms(2) by (auto simp: in_members)
    ultimately have "?xs ! Suc i = ?xs ! Suc j" using merge_child_unique [OF assms(1)] i(2) by blast
    moreover have "?xs ! Suc i < ?xs ! Suc j"
      using sorted_wrt_nth_less [OF sorted_members, of "Suc i" "Suc j" f n a] less.prems i(1) False by simp
    ultimately show ?thesis by simp
  qed (use i(2) in simp)
qed

lemma members_pipeline:
  assumes "flow_wf f" "n = length (fl_Steps f)"
  shows "successively (\<lambda>s t. merge_parent f t = Some s) (members f n a)"
  unfolding successively_conv_nth using members_chain [OF assms] by simp

text \<open>Lists that partition a set by a key.\<close>

lemma mset_concat_by_key:
  assumes "distinct keys" "\<And>a. a \<in> set keys \<Longrightarrow> distinct (xs a)" "\<And>a x. a \<in> set keys \<Longrightarrow> x \<in> set (xs a) \<Longrightarrow> key x = a"
    and "distinct ys" "\<And>x. x \<in> set ys \<longleftrightarrow> key x \<in> set keys \<and> x \<in> set (xs (key x))"
  shows "mset (concat (map xs keys)) = mset ys"
proof -
  have "distinct (concat (map xs ks))" if "set ks \<subseteq> set keys" "distinct ks" for ks
    using that
  proof (induction ks)
    case (Cons k ks)
    have "set (xs k) \<inter> set (concat (map xs ks)) = {}"
    proof (rule ccontr)
      assume "set (xs k) \<inter> set (concat (map xs ks)) \<noteq> {}"
      then obtain x l where "x \<in> set (xs k)" "l \<in> set ks" "x \<in> set (xs l)" by auto
      then have "k = l" using assms(3) [of k x] assms(3) [of l x] Cons.prems(1) by auto
      then show False using \<open>l \<in> set ks\<close> Cons.prems(2) by simp
    qed
    then show ?case using Cons assms(2) by simp
  qed simp
  moreover have "set (concat (map xs keys)) = set ys"
  proof (intro set_eqI iffI)
    fix x assume "x \<in> set (concat (map xs keys))"
    then obtain a where "a \<in> set keys" "x \<in> set (xs a)" by auto
    then show "x \<in> set ys" using assms(3) assms(5) by auto
  next
    fix x assume "x \<in> set ys"
    then show "x \<in> set (concat (map xs keys))" using assms(5) [of x] by auto
  qed
  ultimately show ?thesis using assms(1,4) set_eq_iff_mset_eq_distinct by blast
qed

lemma first_step_key: "flow_wf f \<Longrightarrow> s < length (fl_Steps f) \<Longrightarrow> first_step f s \<in> set (group_keys f)"
  using first_step_le [of f s] first_step_idem [of f s] by (simp add: group_keys_def)

lemma concat_members:
  assumes "flow_wf f" "n = length (fl_Steps f)"
  shows "mset (concat (map (members f n) (group_keys f))) = mset [0..<n]"
proof (rule mset_concat_by_key [where key = "first_step f"])
  show "x \<in> set [0..<n] \<longleftrightarrow> first_step f x \<in> set (group_keys f) \<and> x \<in> set (members f n (first_step f x))" for x
    using first_step_key [OF assms(1), of x] assms(2) by (auto simp: in_members)
qed (simp_all add: group_keys_def in_members members_def)

section \<open>What the grouping of tasks computes\<close>

definition tasks_at :: "Flow \<Rightarrow> nat \<Rightarrow> nat \<Rightarrow> task_ref list" where
  "tasks_at f a i = map (\<lambda>s. (s, i)) (members f (length (fl_Steps f)) a)"

definition planned_group :: "Flow \<Rightarrow> nat \<Rightarrow> nat \<Rightarrow> nat \<Rightarrow> TaskGroup" where
  "planned_group f a k i =
     \<lparr>tg_Id = k, tg_Tasks = tasks_at f a i, tg_Parents = [], tg_ParentStepGroup = Some a, tg_Stopped = False, tg_Error = None\<rparr>"

definition task_count :: "Flow \<Rightarrow> nat \<Rightarrow> nat" where
  "task_count f a = length (st_Tasks (step f a))"

lemma add_tasks:
  "(\<forall>s\<in>set ss. i < length (st_Tasks (step f s))) \<Longrightarrow>
    gfold (\<lambda>tg s. if i < length (st_Tasks (step f s)) then Inr (AddTask (s, i) tg) else Inl PanicIndex) tg ss =
    Inr (tg\<lparr>tg_Tasks := tg_Tasks tg @ map (\<lambda>s. (s, i)) ss\<rparr>)"
  by (induction ss arbitrary: tg) (simp_all add: AddTask_def)

lemma members_tasks:
  "flow_wf f \<Longrightarrow> s \<in> set (members f (length (fl_Steps f)) a) \<Longrightarrow> length (st_Tasks (step f s)) = task_count f a"
  using first_step_tasks [of f s] by (auto simp: in_members task_count_def)

lemma task_group_planned:
  assumes "flow_wf f" "i < task_count f a" "sg_Steps g = members f (length (fl_Steps f)) a" "sg_Key g = a"
  shows "task_group f g k i = Inr (planned_group f a k i)"
  using add_tasks [of "sg_Steps g" i f NewTaskGroup] members_tasks [OF assms(1), of _ a] assms(2-)
  by (simp add: task_group_def planned_group_def tasks_at_def NewTaskGroup_def)

lemma group_tasks_loop:
  assumes "flow_wf f" "sg_Steps g = members f (length (fl_Steps f)) a" "sg_Key g = a" "m \<le> task_count f a"
  shows "gfold (\<lambda>(g, ret) i. gbind (task_group f g (length ret) i) (\<lambda>tg.
         Inr (g\<lparr>sg_TaskGroups := sg_TaskGroups g @ [tg_Id tg]\<rparr>, ret @ [tg]))) (g, ret) [0..<m] =
    Inr (g\<lparr>sg_TaskGroups := sg_TaskGroups g @ [length ret..<length ret + m]\<rparr>,
      ret @ map (\<lambda>i. planned_group f a (length ret + i) i) [0..<m])"
  using assms(4)
proof (induction m)
  case (Suc m)
  let ?g = "g\<lparr>sg_TaskGroups := sg_TaskGroups g @ [length ret..<length ret + m]\<rparr>"
  have "task_group f ?g (length ret + m) m = Inr (planned_group f a (length ret + m) m)"
    using task_group_planned [OF assms(1), of m a ?g] assms(2,3) Suc.prems by simp
  then show ?case using Suc by (simp add: gfold_append planned_group_def)
qed simp

lemma group_tasks_planned:
  assumes "flow_wf f" "a \<in> set (group_keys f)"
  shows "group_tasks f (gs, ret) (step_group f a) =
    Inr (gs @ [(step_group f a)\<lparr>sg_TaskGroups := [length ret..<length ret + task_count f a]\<rparr>],
      ret @ map (\<lambda>i. planned_group f a (length ret + i) i) [0..<task_count f a])"
proof -
  let ?ms = "members f (length (fl_Steps f)) a"
  have "?ms \<noteq> []" using members_nonempty [OF assms(1), of a] assms(2) by (simp add: group_keys_def)
  then obtain s ss where ms: "?ms = s # ss" by (cases ?ms) auto
  have count: "\<forall>t\<in>set ?ms. length (st_Tasks (step f t)) = task_count f a" using members_tasks [OF assms(1)] by simp
  then have "assertSameNumberOfTasks f ?ms = Inr ()" unfolding ms by (simp add: assertSameNumberOfTasks_def)
  moreover have "go_index ?ms 0 = Inr s" "length (st_Tasks (step f s)) = task_count f a" using ms count by (simp_all add: go_index_def)
  moreover note group_tasks_loop [OF assms(1), of "step_group f a" a "task_count f a" ret]
  ultimately show ?thesis by (simp add: group_tasks_def step_group_def)
qed

fun number_groups :: "Flow \<Rightarrow> nat list \<Rightarrow> nat \<Rightarrow> StepGroup list \<times> TaskGroup list" where
  "number_groups f [] k = ([], [])"
| "number_groups f (a # as) k =
     (case number_groups f as (k + task_count f a) of (gs, tgs) \<Rightarrow>
        ((step_group f a)\<lparr>sg_TaskGroups := [k..<k + task_count f a]\<rparr> # gs,
         map (\<lambda>i. planned_group f a (k + i) i) [0..<task_count f a] @ tgs))"

lemma translateToTaskGroups_numbered:
  assumes "flow_wf f" "set as \<subseteq> set (group_keys f)"
  shows "gfold (group_tasks f) (gs, ret) (map (step_group f) as) =
    Inr (gs @ fst (number_groups f as (length ret)), ret @ snd (number_groups f as (length ret)))"
  using assms(2)
proof (induction as arbitrary: gs ret)
  case (Cons a as)
  then show ?case using group_tasks_planned [OF assms(1), of a gs ret] by (simp add: split_beta)
qed simp

lemma GroupTasks_numbered: "flow_wf f \<Longrightarrow> GroupTasks f = Some (Inr (number_groups f (group_keys f) 0))"
  using translateToTaskGroups_numbered [of f "group_keys f" "[]" "[]"]
  by (simp add: GroupTasks_def translateToStepGroups_groups translateToTaskGroups_def)

lemma number_groups_steps:
  "map sg_Steps (fst (number_groups f as k)) = map (members f (length (fl_Steps f))) as"
  "map sg_Key (fst (number_groups f as k)) = as"
  "map sg_Parents (fst (number_groups f as k)) = map (parents_of f) as"
  by (induction as arbitrary: k) (simp_all add: split_beta step_group_def)

lemma number_groups_tasks:
  "map tg_Tasks (snd (number_groups f as k)) = concat (map (\<lambda>a. map (tasks_at f a) [0..<task_count f a]) as)"
  by (induction as arbitrary: k) (simp_all add: split_beta planned_group_def o_def)

lemma number_groups_ids: "map tg_Id (snd (number_groups f as k)) = [k..<k + length (snd (number_groups f as k))]"
proof (induction as arbitrary: k)
  case (Cons a as)
  let ?tgs = "snd (number_groups f as (k + task_count f a))"
  have "map tg_Id (map (\<lambda>i. planned_group f a (k + i) i) [0..<task_count f a]) = [k..<k + task_count f a]"
    by (rule nth_equalityI) (simp_all add: planned_group_def)
  moreover have "[k..<k + task_count f a] @ [k + task_count f a..<k + task_count f a + length ?tgs] = [k..<k + task_count f a + length ?tgs]"
    by (rule upt_add_eq_append [symmetric]) simp
  ultimately show ?case using Cons [of "k + task_count f a"] by (simp add: split_beta o_def add.assoc)
qed simp

lemma number_groups_member:
  "tg \<in> set (snd (number_groups f as k)) \<Longrightarrow>
    \<exists>g\<in>set (fst (number_groups f as k)). \<exists>i. tg_ParentStepGroup tg = Some (sg_Key g) \<and> tg_Tasks tg = map (\<lambda>s. (s, i)) (sg_Steps g)"
  by (induction as arbitrary: k) (auto simp: split_beta planned_group_def tasks_at_def step_group_def)

lemma in_tasks_at: "t \<in> set (tasks_at f a i) \<longleftrightarrow> snd t = i \<and> fst t \<in> set (members f (length (fl_Steps f)) a)"
  by (cases t) (auto simp: tasks_at_def)

lemma all_tasks_planned:
  assumes "flow_wf f"
  shows "mset (concat (concat (map (\<lambda>a. map (tasks_at f a) [0..<task_count f a]) (group_keys f)))) =
    mset (concat (map (\<lambda>s. map (Pair s) [0..<length (st_Tasks (step f s))]) [0..<length (fl_Steps f)]))"
proof -
  let ?n = "length (fl_Steps f)"
  let ?xs = "\<lambda>a. concat (map (tasks_at f a) [0..<task_count f a])"
  have "concat (concat (map (\<lambda>a. map (tasks_at f a) [0..<task_count f a]) ks)) = concat (map ?xs ks)" for ks
    by (induction ks) simp_all
  moreover have "mset (concat (map ?xs (group_keys f))) =
      mset (concat (map (\<lambda>s. map (Pair s) [0..<length (st_Tasks (step f s))]) [0..<?n]))"
  proof (rule mset_concat_by_key [where key = "\<lambda>t. first_step f (fst t)"])
    show "distinct (?xs a)" for a
    proof -
      have "distinct (concat (map (tasks_at f a) [0..<m]))" for m
        by (induction m) (auto simp: tasks_at_def distinct_map inj_on_def members_def)
      then show ?thesis .
    qed
    show "distinct (concat (map (\<lambda>s. map (Pair s) [0..<length (st_Tasks (step f s))]) [0..<?n]))"
    proof -
      have "distinct (concat (map (\<lambda>s. map (Pair s) [0..<length (st_Tasks (step f s))]) [0..<m]))" for m
        by (induction m) (auto simp: distinct_map inj_on_def)
      then show ?thesis .
    qed
    show "t \<in> set (concat (map (\<lambda>s. map (Pair s) [0..<length (st_Tasks (step f s))]) [0..<?n])) \<longleftrightarrow>
        first_step f (fst t) \<in> set (group_keys f) \<and> t \<in> set (?xs (first_step f (fst t)))" for t
      using first_step_key [OF assms, of "fst t"] first_step_tasks [OF assms, of "fst t"]
      by (cases t) (auto simp: in_tasks_at in_members task_count_def image_iff)
  qed (auto simp: group_keys_def tasks_at_def in_members)
  ultimately show ?thesis by simp
qed

section \<open>Properties\<close>

lemma parents_earlier:
  assumes "flow_wf f" "a \<in> set (group_keys f)" "p \<in> set (parents_of f a)"
  shows "p < a \<and> p \<in> set (group_keys f)"
proof -
  have a: "a < length (fl_Steps f)" using assms(2) by (simp add: group_keys_def)
  obtain d where d: "d \<in> set (st_InputDatasets (step f a))" "p = first_step f (the (ds_Step (dataset f d)))"
    using assms(3) by (auto simp: parents_of_def)
  obtain q where "q < a" "ds_Step (dataset f d) = Some q" using wf_inputD [OF assms(1) a d(1)] by metis
  then show ?thesis using d(2) first_step_le [of f q] first_step_key [OF assms(1), of q] a by simp
qed

text \<open>
  C14: Planning any flow a user can build returns without a panic. Every step is in exactly one step group and every task of
  every step in exactly one task group; the steps of a group form a pipeline, in which each step reads only the dataset
  of the one before, which nobody else reads; a task group has one task of each step of its step group, all with the same
  number; the parents of a step group are step groups with earlier first steps, so the groups can be run in order; and the
  task groups are numbered by their positions.
\<close>

theorem GroupTasks_correct:
  assumes "built env ds f"
  shows "\<exists>gs tgs. GroupTasks f = Some (Inr (gs, tgs)) \<and>
    mset (concat (map sg_Steps gs)) = mset [0..<length (fl_Steps f)] \<and>
    (\<forall>g\<in>set gs. successively (\<lambda>s t. merge_parent f t = Some s) (sg_Steps g)) \<and>
    (\<forall>g\<in>set gs. \<forall>p\<in>set (sg_Parents g). p < sg_Key g \<and> p \<in> sg_Key ` set gs) \<and>
    mset (concat (map tg_Tasks tgs)) =
      mset (concat (map (\<lambda>s. map (Pair s) [0..<length (st_Tasks (step f s))]) [0..<length (fl_Steps f)])) \<and>
    (\<forall>tg\<in>set tgs. \<exists>g\<in>set gs. \<exists>i. tg_ParentStepGroup tg = Some (sg_Key g) \<and> tg_Tasks tg = map (\<lambda>s. (s, i)) (sg_Steps g)) \<and>
    map tg_Id tgs = [0..<length tgs]"
proof -
  have wf: "flow_wf f" using built_wf [OF assms] by simp
  obtain gs tgs where n: "number_groups f (group_keys f) 0 = (gs, tgs)" by fastforce
  note parts = number_groups_steps [of f "group_keys f" 0] number_groups_tasks [of f "group_keys f" 0] number_groups_ids [of f "group_keys f" 0]
    number_groups_member [of _ f "group_keys f" 0]
  have "\<exists>a\<in>set (group_keys f). sg_Key g = a \<and> sg_Steps g = members f (length (fl_Steps f)) a \<and> sg_Parents g = parents_of f a"
    if "g \<in> set gs" for g
    using that parts(1-3) n by (auto simp: in_set_conv_nth list_eq_iff_nth_eq)
  moreover have "sg_Key ` set gs = set (group_keys f)" using arg_cong [OF parts(2), of set] n by simp
  ultimately have "\<forall>g\<in>set gs. successively (\<lambda>s t. merge_parent f t = Some s) (sg_Steps g) \<and>
      (\<forall>p\<in>set (sg_Parents g). p < sg_Key g \<and> p \<in> sg_Key ` set gs)"
    using members_pipeline [OF wf HOL.refl] parents_earlier [OF wf] by metis
  then show ?thesis
    using GroupTasks_numbered [OF wf] concat_members [OF wf HOL.refl] all_tasks_planned [OF wf] parts n
    by (intro exI [of _ gs] exI [of _ tgs]) auto
qed

theorem GroupTasks_correct_witness:
  "\<exists>f gs tgs. GroupTasks f = Some (Inr (gs, tgs)) \<and> fl_Steps f \<noteq> [] \<and>
    mset (concat (map tg_Tasks tgs)) = mset (concat (map (\<lambda>s. map (Pair s) [0..<length (st_Tasks (step f s))]) [0..<length (fl_Steps f)]))"
proof -
  let ?env = "\<lparr>fe_Executable = ''a'', fe_Args = [], fe_mapper_Name = id, fe_reducer_Name = id\<rparr> :: flow_env"
  obtain f where f: "run_op ?env (SourceOp OpChannel) (New ''x'' 0) = Inr (0, f)" using Channel_runs by auto
  have b: "built ?env {0} f" using built_op [OF built_New _ f] by simp
  then have "produced f 0" "flow_wf f" using built_wf by auto
  then have "fl_Steps f \<noteq> []" using wf_stepD(1) [of f 0] by (auto simp: produced_def)
  then show ?thesis using GroupTasks_correct [OF b] by blast
qed

end
