(* ===== verification/Market.thy ===== *)
theory Market
  imports Values "HOL-Library.Multiset"
begin

text \<open>
  The market that matches tasks with resources (\<^verbatim>\<open>distributed/driver/scheduler/market/cda_market.go\<close>). The score function of a
  market is a closure over the scheduler, so it is an argument of the operations: the one in force when the lock is
  held. A channel on which a supply is returned is a number; an operation returns what it sends, to whom, and the caller
  sees that channel closed.
\<close>

type_synonym ('r, 'o) scorer = "'r \<Rightarrow> gfloat \<Rightarrow> 'o \<Rightarrow> gfloat"

record 'r Demand =
  dm_Requirement :: 'r
  dm_Bid :: gfloat
  dm_ReturnChan :: nat

record 'o Supply =
  sp_Object :: 'o

record ('r, 'o) Market =
  mk_Demands :: "'r Demand list"
  mk_Supplies :: "'o Supply list"

definition NewMarket :: "('r, 'o) Market" where
  "NewMarket = \<lparr>mk_Demands = [], mk_Supplies = []\<rparr>"

text \<open>The loop over the scores: the greatest score so far, its position, and whether there is one.\<close>

fun best_loop :: "gfloat list \<Rightarrow> nat \<Rightarrow> gfloat \<Rightarrow> nat \<Rightarrow> bool \<Rightarrow> nat \<times> bool" where
  "best_loop [] i maxScore maxIndex matched = (maxIndex, matched)"
| "best_loop (score # scores) i maxScore maxIndex matched =
     (if flt maxScore score then best_loop scores (Suc i) score i True
      else best_loop scores (Suc i) maxScore maxIndex matched)"

definition pickBestSupplyFor :: "('r, 'o) scorer \<Rightarrow> 'r \<Rightarrow> ('r, 'o) Market \<Rightarrow> 'o Supply option \<times> ('r, 'o) Market" where
  "pickBestSupplyFor scoreFn r m =
     (let scores = map (\<lambda>s. scoreFn r (FFin 1) (sp_Object s)) (mk_Supplies m);
          (maxIndex, matched) = best_loop scores 0 (FFin 0) 0 False
      in if matched
         then (Some (mk_Supplies m ! maxIndex), m\<lparr>mk_Supplies := take maxIndex (mk_Supplies m) @ drop (Suc maxIndex) (mk_Supplies m)\<rparr>)
         else (None, m))"

definition pickBestDemandFor :: "('r, 'o) scorer \<Rightarrow> 'o Supply \<Rightarrow> ('r, 'o) Market \<Rightarrow> 'r Demand option \<times> ('r, 'o) Market" where
  "pickBestDemandFor scoreFn supply m =
     (let scores = map (\<lambda>d. scoreFn (dm_Requirement d) (dm_Bid d) (sp_Object supply)) (mk_Demands m);
          (maxIndex, matched) = best_loop scores 0 (FFin 0) 0 False
      in if matched
         then (Some (mk_Demands m ! maxIndex), m\<lparr>mk_Demands := take maxIndex (mk_Demands m) @ drop (Suc maxIndex) (mk_Demands m)\<rparr>)
         else (None, m))"

definition AddDemand :: "('r, 'o) scorer \<Rightarrow> 'r \<Rightarrow> gfloat \<Rightarrow> nat \<Rightarrow> ('r, 'o) Market \<Rightarrow> (nat \<times> 'o Supply) option \<times> ('r, 'o) Market" where
  "AddDemand scoreFn r bid retChan m =
     (let waiting = m\<lparr>mk_Demands := mk_Demands m @ [\<lparr>dm_Requirement = r, dm_Bid = bid, dm_ReturnChan = retChan\<rparr>]\<rparr> in
      if mk_Supplies m = [] then (None, waiting)
      else case pickBestSupplyFor scoreFn r m of
        (Some supply, m') \<Rightarrow> (Some (retChan, supply), m')
      | (None, _) \<Rightarrow> (None, waiting))"

definition AddSupply :: "('r, 'o) scorer \<Rightarrow> 'o Supply \<Rightarrow> ('r, 'o) Market \<Rightarrow> ('r Demand \<times> 'o Supply) option \<times> ('r, 'o) Market" where
  "AddSupply scoreFn supply m =
     (let waiting = m\<lparr>mk_Supplies := mk_Supplies m @ [supply]\<rparr> in
      if mk_Demands m = [] then (None, waiting)
      else case pickBestDemandFor scoreFn supply m of
        (Some demand, m') \<Rightarrow> (Some (demand, supply), m')
      | (None, _) \<Rightarrow> (None, waiting))"

definition ReturnSupply :: "('r, 'o) scorer \<Rightarrow> 'o Supply \<Rightarrow> ('r, 'o) Market \<Rightarrow> ('r Demand \<times> 'o Supply) option \<times> ('r, 'o) Market" where
  "ReturnSupply scoreFn supply m = AddSupply scoreFn supply m"

section \<open>The best score\<close>

lemma flt_trans_strict: "flt a b \<Longrightarrow> flt b c \<Longrightarrow> flt a c"
  by (cases a; cases b; cases c) auto

lemma flt_NaN [simp]: "\<not> flt a FNaN"
  by (cases a) auto

lemma flt_not_NaN: "flt a b \<Longrightarrow> a \<noteq> FNaN \<and> b \<noteq> FNaN"
  by (cases a; cases b) auto

lemma flt_le_trans: "a \<noteq> FNaN \<Longrightarrow> b \<noteq> FNaN \<Longrightarrow> \<not> flt a c \<Longrightarrow> flt a b \<Longrightarrow> \<not> flt b c"
  by (cases a; cases b; cases c) auto

text \<open>\<open>k\<close> is the first position of a greatest score, and that score is positive.\<close>

definition best :: "gfloat list \<Rightarrow> nat \<Rightarrow> bool" where
  "best scores k \<longleftrightarrow> k < length scores \<and> flt (FFin 0) (scores ! k) \<and> (\<forall>j<length scores. \<not> flt (scores ! k) (scores ! j)) \<and>
     (\<forall>j<k. scores ! j = FNaN \<or> flt (scores ! j) (scores ! k))"

lemma best_loop_inv:
  assumes "length done = i" "maxScore \<noteq> FNaN"
    and "matched \<longrightarrow> best done maxIndex \<and> done ! maxIndex = maxScore"
    and "\<not> matched \<longrightarrow> maxScore = FFin 0 \<and> (\<forall>j<i. \<not> flt (FFin 0) (done ! j))"
    and "best_loop scores i maxScore maxIndex matched = (k, b)"
  shows "(b \<longrightarrow> best (done @ scores) k) \<and> (\<not> b \<longrightarrow> (\<forall>j<length (done @ scores). \<not> flt (FFin 0) ((done @ scores) ! j)))"
  using assms
proof (induction scores arbitrary: "done" i maxScore maxIndex matched)
  case Nil
  then show ?case by auto
next
  case (Cons score scores)
  have eq: "done @ score # scores = (done @ [score]) @ scores" by simp
  show ?case
  proof (cases "flt maxScore score")
    case True
    have pos: "flt (FFin 0) score"
    proof (cases matched)
      case True
      then show ?thesis using Cons.prems(3) \<open>flt maxScore score\<close> flt_trans_strict by (auto simp: best_def)
    qed (use Cons.prems(4) True in simp)
    have below: "\<forall>j<i. done ! j = FNaN \<or> flt (done ! j) score"
    proof (intro allI impI)
      fix j assume j: "j < i"
      show "done ! j = FNaN \<or> flt (done ! j) score"
      proof (cases matched)
        case True
        then have "\<not> flt maxScore (done ! j)" using Cons.prems(1,3) j by (auto simp: best_def)
        then show ?thesis using \<open>flt maxScore score\<close> by (cases "done ! j"; cases maxScore; cases score) auto
      next
        case False
        then have "\<not> flt (FFin 0) (done ! j)" using Cons.prems(4) j by simp
        then show ?thesis using pos by (cases "done ! j"; cases score) auto
      qed
    qed
    have "\<forall>j<i. \<not> flt score (done ! j)" using below flt_asym flt_NaN by metis
    moreover have "\<not> flt score score" using flt_asym by blast
    ultimately have "best (done @ [score]) i"
      using pos below Cons.prems(1) by (auto simp: best_def nth_append less_Suc_eq)
    then show ?thesis unfolding eq
      using Cons.IH [of "done @ [score]" "Suc i" score True i] Cons.prems(1,5) True flt_not_NaN [OF True]
      by (simp add: nth_append)
  next
    case False
    have "matched \<longrightarrow> best (done @ [score]) maxIndex \<and> (done @ [score]) ! maxIndex = maxScore"
      using Cons.prems(1,3) False by (auto simp: best_def nth_append less_Suc_eq)
    moreover have "\<not> matched \<longrightarrow> maxScore = FFin 0 \<and> (\<forall>j<Suc i. \<not> flt (FFin 0) ((done @ [score]) ! j))"
      using Cons.prems(1,4) False by (auto simp: nth_append less_Suc_eq)
    ultimately show ?thesis unfolding eq
      using Cons.IH [of "done @ [score]" "Suc i" maxScore matched maxIndex] Cons.prems(1,2,5) False by simp
  qed
qed

lemma best_loop_best:
  assumes "best_loop scores 0 (FFin 0) 0 False = (k, b)"
  shows "(b \<longrightarrow> best scores k) \<and> (\<not> b \<longrightarrow> (\<forall>score\<in>set scores. \<not> flt (FFin 0) score))"
  using best_loop_inv [of "[]" 0 "FFin 0" False 0 scores k b] assms by (auto simp: in_set_conv_nth)

section \<open>What the market promises\<close>

lemma take_drop_mset: "k < length xs \<Longrightarrow> mset (take k xs @ drop (Suc k) xs) + {#xs ! k#} = mset xs"
proof -
  assume "k < length xs"
  then have "mset xs = mset (take k xs @ xs ! k # drop (Suc k) xs)" by (simp add: id_take_nth_drop [symmetric])
  then show ?thesis by simp
qed

lemma pickBestSupplyFor_cases:
  obtains (matched) k where "best (map (\<lambda>s. scoreFn r (FFin 1) (sp_Object s)) (mk_Supplies m)) k" "k < length (mk_Supplies m)"
    "pickBestSupplyFor scoreFn r m =
      (Some (mk_Supplies m ! k), m\<lparr>mk_Supplies := take k (mk_Supplies m) @ drop (Suc k) (mk_Supplies m)\<rparr>)"
  | (unmatched) "pickBestSupplyFor scoreFn r m = (None, m)" "\<forall>s\<in>set (mk_Supplies m). \<not> flt (FFin 0) (scoreFn r (FFin 1) (sp_Object s))"
proof -
  let ?scores = "map (\<lambda>s. scoreFn r (FFin 1) (sp_Object s)) (mk_Supplies m)"
  obtain k b where kb: "best_loop ?scores 0 (FFin 0) 0 False = (k, b)" by fastforce
  show thesis
  proof (cases b)
    case True
    then have best: "best ?scores k" using best_loop_best [OF kb] by simp
    moreover from best have "k < length (mk_Supplies m)" by (simp add: best_def)
    moreover have "pickBestSupplyFor scoreFn r m =
        (Some (mk_Supplies m ! k), m\<lparr>mk_Supplies := take k (mk_Supplies m) @ drop (Suc k) (mk_Supplies m)\<rparr>)"
      using kb True by (simp add: pickBestSupplyFor_def Let_def)
    ultimately show ?thesis by (rule matched)
  next
    case False
    then show ?thesis using unmatched best_loop_best [OF kb] kb by (simp add: pickBestSupplyFor_def Let_def)
  qed
qed

lemma pickBestDemandFor_cases:
  obtains (matched) k where "best (map (\<lambda>d. scoreFn (dm_Requirement d) (dm_Bid d) (sp_Object supply)) (mk_Demands m)) k"
    "k < length (mk_Demands m)"
    "pickBestDemandFor scoreFn supply m =
      (Some (mk_Demands m ! k), m\<lparr>mk_Demands := take k (mk_Demands m) @ drop (Suc k) (mk_Demands m)\<rparr>)"
  | (unmatched) "pickBestDemandFor scoreFn supply m = (None, m)"
    "\<forall>d\<in>set (mk_Demands m). \<not> flt (FFin 0) (scoreFn (dm_Requirement d) (dm_Bid d) (sp_Object supply))"
proof -
  let ?scores = "map (\<lambda>d. scoreFn (dm_Requirement d) (dm_Bid d) (sp_Object supply)) (mk_Demands m)"
  obtain k b where kb: "best_loop ?scores 0 (FFin 0) 0 False = (k, b)" by fastforce
  show thesis
  proof (cases b)
    case True
    then have best: "best ?scores k" using best_loop_best [OF kb] by simp
    moreover from best have "k < length (mk_Demands m)" by (simp add: best_def)
    moreover have "pickBestDemandFor scoreFn supply m =
        (Some (mk_Demands m ! k), m\<lparr>mk_Demands := take k (mk_Demands m) @ drop (Suc k) (mk_Demands m)\<rparr>)"
      using kb True by (simp add: pickBestDemandFor_def Let_def)
    ultimately show ?thesis by (rule matched)
  next
    case False
    then show ?thesis using unmatched best_loop_best [OF kb] kb by (simp add: pickBestDemandFor_def Let_def)
  qed
qed

text \<open>
  A run of the market: the demands and supplies that were added, in order, and the pairs that were matched. The scores may
  change between the calls, as long as whether a resource fits a requirement does not.
\<close>

definition agrees :: "('r \<Rightarrow> 'o \<Rightarrow> bool) \<Rightarrow> ('r, 'o) scorer \<Rightarrow> bool" where
  "agrees fits scoreFn \<longleftrightarrow> (\<forall>r bid obj. flt (FFin 0) bid \<longrightarrow> (flt (FFin 0) (scoreFn r bid obj) \<longleftrightarrow> fits r obj))"

inductive market_run :: "('r \<Rightarrow> 'o \<Rightarrow> bool) \<Rightarrow> 'r Demand list \<Rightarrow> 'o Supply list \<Rightarrow> ('r Demand \<times> 'o Supply) list \<Rightarrow> ('r, 'o) Market \<Rightarrow> bool"
  for fits where
  run_new: "market_run fits [] [] [] NewMarket"
| run_demand: "market_run fits asked offered matched m \<Longrightarrow> agrees fits scoreFn \<Longrightarrow> flt (FFin 0) bid \<Longrightarrow>
    AddDemand scoreFn r bid ch m = (sent, m') \<Longrightarrow>
    market_run fits (asked @ [\<lparr>dm_Requirement = r, dm_Bid = bid, dm_ReturnChan = ch\<rparr>]) offered
      (matched @ (case sent of None \<Rightarrow> [] | Some (_, s) \<Rightarrow> [(\<lparr>dm_Requirement = r, dm_Bid = bid, dm_ReturnChan = ch\<rparr>, s)])) m'"
| run_supply: "market_run fits asked offered matched m \<Longrightarrow> agrees fits scoreFn \<Longrightarrow>
    AddSupply scoreFn s m = (sent, m') \<Longrightarrow>
    market_run fits asked (offered @ [s]) (matched @ (case sent of None \<Rightarrow> [] | Some p \<Rightarrow> [p])) m'"

definition market_inv :: "('r \<Rightarrow> 'o \<Rightarrow> bool) \<Rightarrow> 'r Demand list \<Rightarrow> 'o Supply list \<Rightarrow> ('r Demand \<times> 'o Supply) list \<Rightarrow> ('r, 'o) Market \<Rightarrow> bool" where
  "market_inv fits asked offered matched m \<longleftrightarrow>
     mset asked = mset (mk_Demands m) + mset (map fst matched) \<and>
     mset offered = mset (mk_Supplies m) + mset (map snd matched) \<and>
     (\<forall>(d, s)\<in>set matched. fits (dm_Requirement d) (sp_Object s)) \<and>
     (\<forall>d\<in>set asked. flt (FFin 0) (dm_Bid d)) \<and>
     (\<forall>d\<in>set (mk_Demands m). \<forall>s\<in>set (mk_Supplies m). \<not> fits (dm_Requirement d) (sp_Object s))"

lemma market_inv_demand:
  assumes inv: "market_inv fits asked offered matched m" and sc: "agrees fits scoreFn" "flt (FFin 0) bid"
    and add: "AddDemand scoreFn r bid ch m = (sent, m')"
  shows "market_inv fits (asked @ [\<lparr>dm_Requirement = r, dm_Bid = bid, dm_ReturnChan = ch\<rparr>]) offered
    (matched @ (case sent of None \<Rightarrow> [] | Some (_, s) \<Rightarrow> [(\<lparr>dm_Requirement = r, dm_Bid = bid, dm_ReturnChan = ch\<rparr>, s)])) m'"
proof -
  have fits: "flt (FFin 0) (scoreFn r (FFin 1) obj) \<longleftrightarrow> fits r obj" for obj using sc(1) by (simp add: agrees_def)
  show ?thesis
  proof (rule pickBestSupplyFor_cases [of scoreFn r m])
    fix k assume k: "best (map (\<lambda>s. scoreFn r (FFin 1) (sp_Object s)) (mk_Supplies m)) k" "k < length (mk_Supplies m)"
      "pickBestSupplyFor scoreFn r m =
        (Some (mk_Supplies m ! k), m\<lparr>mk_Supplies := take k (mk_Supplies m) @ drop (Suc k) (mk_Supplies m)\<rparr>)"
    then have "sent = Some (ch, mk_Supplies m ! k)" "m' = m\<lparr>mk_Supplies := take k (mk_Supplies m) @ drop (Suc k) (mk_Supplies m)\<rparr>"
      using add by (auto simp: AddDemand_def Let_def split: if_splits)
    moreover have "fits r (sp_Object (mk_Supplies m ! k))" using k(1,2) fits by (simp add: best_def)
    moreover have "set (take k (mk_Supplies m)) \<union> set (drop (Suc k) (mk_Supplies m)) \<subseteq> set (mk_Supplies m)"
      by (meson Un_least set_drop_subset set_take_subset)
    ultimately show ?thesis using inv sc(2) take_drop_mset [OF k(2)] by (auto simp: market_inv_def)
  next
    assume none: "pickBestSupplyFor scoreFn r m = (None, m)" "\<forall>s\<in>set (mk_Supplies m). \<not> flt (FFin 0) (scoreFn r (FFin 1) (sp_Object s))"
    then have "sent = None" "m' = m\<lparr>mk_Demands := mk_Demands m @ [\<lparr>dm_Requirement = r, dm_Bid = bid, dm_ReturnChan = ch\<rparr>]\<rparr>"
      using add by (auto simp: AddDemand_def Let_def split: if_splits)
    then show ?thesis using inv sc(2) none(2) fits by (auto simp: market_inv_def)
  qed
qed

lemma market_inv_supply:
  assumes inv: "market_inv fits asked offered matched m" and sc: "agrees fits scoreFn"
    and add: "AddSupply scoreFn s m = (sent, m')"
  shows "market_inv fits asked (offered @ [s]) (matched @ (case sent of None \<Rightarrow> [] | Some p \<Rightarrow> [p])) m'"
proof -
  have "d \<in> set asked" if "d \<in> set (mk_Demands m)" for d
    using inv that unfolding market_inv_def by (metis UnCI set_mset_mset set_mset_union)
  then have fits: "flt (FFin 0) (scoreFn (dm_Requirement d) (dm_Bid d) obj) \<longleftrightarrow> fits (dm_Requirement d) obj"
    if "d \<in> set (mk_Demands m)" for d obj
    using sc inv that by (auto simp: agrees_def market_inv_def)
  show ?thesis
  proof (rule pickBestDemandFor_cases [of scoreFn s m])
    fix k assume k: "best (map (\<lambda>d. scoreFn (dm_Requirement d) (dm_Bid d) (sp_Object s)) (mk_Demands m)) k" "k < length (mk_Demands m)"
      "pickBestDemandFor scoreFn s m =
        (Some (mk_Demands m ! k), m\<lparr>mk_Demands := take k (mk_Demands m) @ drop (Suc k) (mk_Demands m)\<rparr>)"
    then have "sent = Some (mk_Demands m ! k, s)" "m' = m\<lparr>mk_Demands := take k (mk_Demands m) @ drop (Suc k) (mk_Demands m)\<rparr>"
      using add by (auto simp: AddSupply_def Let_def split: if_splits)
    moreover have "fits (dm_Requirement (mk_Demands m ! k)) (sp_Object s)" using k(1,2) fits [of "mk_Demands m ! k"] by (simp add: best_def)
    moreover have "set (take k (mk_Demands m)) \<union> set (drop (Suc k) (mk_Demands m)) \<subseteq> set (mk_Demands m)"
      by (meson Un_least set_drop_subset set_take_subset)
    ultimately show ?thesis using inv take_drop_mset [OF k(2)] by (auto simp: market_inv_def)
  next
    assume none: "pickBestDemandFor scoreFn s m = (None, m)"
      "\<forall>d\<in>set (mk_Demands m). \<not> flt (FFin 0) (scoreFn (dm_Requirement d) (dm_Bid d) (sp_Object s))"
    then have "sent = None" "m' = m\<lparr>mk_Supplies := mk_Supplies m @ [s]\<rparr>"
      using add by (auto simp: AddSupply_def Let_def split: if_splits)
    then show ?thesis using inv none(2) fits by (auto simp: market_inv_def)
  qed
qed

lemma market_run_inv: "market_run fits asked offered matched m \<Longrightarrow> market_inv fits asked offered matched m"
proof (induction rule: market_run.induct)
  case run_new
  then show ?case by (simp add: market_inv_def NewMarket_def)
next
  case (run_demand asked offered matched m scoreFn bid r ch sent m')
  then show ?case by (intro market_inv_demand)
next
  case (run_supply asked offered matched m scoreFn s sent m')
  then show ?case by (intro market_inv_supply)
qed

section \<open>Properties\<close>

text \<open>
  C15: In every sequence of demands and supplies, whatever the scores, the market loses nothing and leaves nothing unmatched:
  every demand is either waiting or was handed one supply, every supply is either waiting or was handed to one demand, a
  supply is only handed to a demand it fits, and no waiting supply fits a waiting demand.
\<close>

theorem market_clears:
  assumes "market_run fits asked offered matched m"
  shows "mset asked = mset (mk_Demands m) + mset (map fst matched) \<and>
    mset offered = mset (mk_Supplies m) + mset (map snd matched) \<and>
    (\<forall>(d, s)\<in>set matched. fits (dm_Requirement d) (sp_Object s)) \<and>
    (\<forall>d\<in>set (mk_Demands m). \<forall>s\<in>set (mk_Supplies m). \<not> fits (dm_Requirement d) (sp_Object s))"
  using market_run_inv [OF assms] unfolding market_inv_def by blast

theorem market_clears_witness:
  "\<exists>m. market_run (\<lambda>r obj. r \<le> (obj :: nat)) [\<lparr>dm_Requirement = 3, dm_Bid = FFin 2, dm_ReturnChan = 0\<rparr>] [\<lparr>sp_Object = 2\<rparr>, \<lparr>sp_Object = 5\<rparr>]
      [(\<lparr>dm_Requirement = 3, dm_Bid = FFin 2, dm_ReturnChan = 0\<rparr>, \<lparr>sp_Object = 5\<rparr>)] m \<and>
    mset [\<lparr>sp_Object = 2\<rparr>, \<lparr>sp_Object = (5 :: nat)\<rparr>] = mset (mk_Supplies m) + {#\<lparr>sp_Object = 5\<rparr>#}"
proof -
  let ?fits = "\<lambda>r obj. r \<le> (obj :: nat)"
  let ?score = "\<lambda>r bid obj. if r \<le> (obj :: nat) then bid else FFin (- 1)"
  let ?d = "\<lparr>dm_Requirement = 3, dm_Bid = FFin 2, dm_ReturnChan = 0\<rparr> :: nat Demand"
  have sc: "agrees ?fits ?score" by (simp add: agrees_def)
  have "market_run ?fits [?d] [] [] \<lparr>mk_Demands = [?d], mk_Supplies = []\<rparr>"
    using run_demand [OF run_new sc, of "FFin 2" 3 0] by (simp add: AddDemand_def NewMarket_def)
  from run_supply [OF this sc, of "\<lparr>sp_Object = 2\<rparr>"]
  have "market_run ?fits [?d] [\<lparr>sp_Object = 2\<rparr>] [] \<lparr>mk_Demands = [?d], mk_Supplies = [\<lparr>sp_Object = 2\<rparr>]\<rparr>"
    by (simp add: AddSupply_def pickBestDemandFor_def)
  from run_supply [OF this sc, of "\<lparr>sp_Object = 5\<rparr>"]
  have run: "market_run ?fits [?d] [\<lparr>sp_Object = 2\<rparr>, \<lparr>sp_Object = 5\<rparr>] [(?d, \<lparr>sp_Object = 5\<rparr>)] \<lparr>mk_Demands = [], mk_Supplies = [\<lparr>sp_Object = 2\<rparr>]\<rparr>"
    by (simp add: AddSupply_def pickBestDemandFor_def)
  then show ?thesis using market_clears [OF run] by (intro exI) auto
qed

text \<open>A supply goes to the first of the waiting demands with the greatest positive score.\<close>

theorem AddSupply_best:
  assumes "AddSupply scoreFn supply m = (Some (d, s), m')"
  shows "s = supply \<and> (\<exists>k. best (map (\<lambda>d. scoreFn (dm_Requirement d) (dm_Bid d) (sp_Object supply)) (mk_Demands m)) k \<and>
    d = mk_Demands m ! k \<and> mset (mk_Demands m') + {#d#} = mset (mk_Demands m) \<and> mk_Supplies m' = mk_Supplies m)"
  by (rule pickBestDemandFor_cases [of scoreFn "supply" m])
    (use assms take_drop_mset in \<open>fastforce simp: AddSupply_def Let_def split: if_splits\<close>)+

end
