(* ===== verification/Float64.thy ===== *)
theory Float64
  imports Values "HOL-Library.Log_Nat"
begin

text \<open>
  Arithmetic on \<^verbatim>\<open>float64\<close> values: the exact result rounded to the nearest number with 53 significant bits, ties to
  even, with gradual underflow and overflow to infinity, as IEEE 754 prescribes and Go uses it. Zeros are not signed.
\<close>

definition pow2 :: "int \<Rightarrow> rat" where
  "pow2 e = (if 0 \<le> e then 2 ^ nat e else 1 / 2 ^ nat (- e))"

definition round_even :: "rat \<Rightarrow> int" where
  "round_even x =
     (let q = \<lfloor>x\<rfloor>; r = x - of_int q in
      if 2 * r < 1 \<or> (2 * r = 1 \<and> even q) then q else q + 1)"

text \<open>The exponent of the greatest power of two that is not above a positive number.\<close>

definition exponent :: "rat \<Rightarrow> int" where
  "exponent x =
     (let (p, q) = quotient_of x; e = int (floorlog 2 (nat p)) - int (floorlog 2 (nat q)) in
      if pow2 e \<le> x then e else e - 1)"

definition ulp :: "rat \<Rightarrow> rat" where
  "ulp x = pow2 (max (exponent \<bar>x\<bar> - 52) (- 1074))"

definition fround :: "rat \<Rightarrow> gfloat" where
  "fround x =
     (if x = 0 then FFin 0
      else
        let y = of_int (round_even (x / ulp x)) * ulp x in
        if pow2 1024 \<le> \<bar>y\<bar> then FInf (0 < x) else FFin y)"

fun fadd :: "gfloat \<Rightarrow> gfloat \<Rightarrow> gfloat" where
  "fadd FNaN b = FNaN"
| "fadd a FNaN = FNaN"
| "fadd (FInf s) (FInf t) = (if s = t then FInf s else FNaN)"
| "fadd (FInf s) (FFin y) = FInf s"
| "fadd (FFin x) (FInf t) = FInf t"
| "fadd (FFin x) (FFin y) = fround (x + y)"

fun fmul :: "gfloat \<Rightarrow> gfloat \<Rightarrow> gfloat" where
  "fmul FNaN b = FNaN"
| "fmul a FNaN = FNaN"
| "fmul (FInf s) (FInf t) = FInf (s = t)"
| "fmul (FInf s) (FFin y) = (if y = 0 then FNaN else FInf (s = (0 < y)))"
| "fmul (FFin x) (FInf t) = (if x = 0 then FNaN else FInf ((0 < x) = t))"
| "fmul (FFin x) (FFin y) = fround (x * y)"

fun fdiv :: "gfloat \<Rightarrow> gfloat \<Rightarrow> gfloat" where
  "fdiv FNaN b = FNaN"
| "fdiv a FNaN = FNaN"
| "fdiv (FInf s) (FInf t) = FNaN"
| "fdiv (FInf s) (FFin y) = FInf (s = (0 \<le> y))"
| "fdiv (FFin x) (FInf t) = FFin 0"
| "fdiv (FFin x) (FFin y) = (if y = 0 then if x = 0 then FNaN else FInf (0 < x) else fround (x / y))"

section \<open>Rounding\<close>

lemma pow2_pos: "0 < pow2 e"
  by (simp add: pow2_def)

lemma pow2_mono: "e \<le> e' \<Longrightarrow> pow2 e \<le> pow2 e'"
proof -
  assume le: "e \<le> e'"
  consider "0 \<le> e" | "e < 0" "0 \<le> e'" | "e' < 0" using le by linarith
  then show ?thesis
  proof cases
    case 1
    then show ?thesis using le by (simp add: pow2_def power_increasing nat_mono)
  next
    case 2
    have "1 / (2 :: rat) ^ nat (- e) \<le> 1" by simp
    also have "(1 :: rat) \<le> 2 ^ nat e'" by simp
    finally show ?thesis using 2 by (simp add: pow2_def)
  next
    case 3
    have "(2 :: rat) ^ nat (- e') \<le> 2 ^ nat (- e)" using le by (intro power_increasing) simp_all
    then show ?thesis using le 3 by (simp add: pow2_def frac_le)
  qed
qed

lemma pow2_diff: "pow2 (int a - int b) = 2 ^ a / 2 ^ b"
proof (cases "b \<le> a")
  case True
  then show ?thesis by (simp add: pow2_def nat_diff_distrib power_diff)
next
  case False
  then have "(2 :: rat) ^ (b - a) = 2 ^ b / 2 ^ a" by (simp add: power_diff)
  then show ?thesis using False by (simp add: pow2_def nat_diff_distrib)
qed

lemma round_even_mono_int: "of_int n \<le> x \<Longrightarrow> n \<le> round_even x"
proof -
  assume "of_int n \<le> x"
  then have "n \<le> \<lfloor>x\<rfloor>" by (simp add: le_floor_iff)
  then show ?thesis by (auto simp: round_even_def Let_def)
qed

lemma round_even_le_int: "x \<le> of_int n \<Longrightarrow> round_even x \<le> n"
proof -
  assume x: "x \<le> of_int n"
  show ?thesis
  proof (cases "\<lfloor>x\<rfloor> = n")
    case True
    then have "x = of_int n" using x by linarith
    then show ?thesis by (simp add: round_even_def)
  next
    case False
    then have "\<lfloor>x\<rfloor> < n" using x by (simp add: floor_le_iff order_less_le)
    then show ?thesis by (auto simp: round_even_def Let_def)
  qed
qed

lemma exponent_le: "0 < x \<Longrightarrow> pow2 (exponent x) \<le> x"
proof -
  assume x: "0 < x"
  obtain p q where pq: "quotient_of x = (p, q)" by fastforce
  have q: "0 < q" using quotient_of_denom_pos [OF pq] .
  have xeq: "x = of_int p / of_int q" using quotient_of_div [OF pq] .
  have p: "0 < p" using x q xeq by (simp add: zero_less_divide_iff)
  let ?a = "floorlog 2 (nat p)" and ?b = "floorlog 2 (nat q)"
  have "2 ^ (?a - 1) \<le> nat p" using floorlog_bounds [of "nat p" 2] p by simp
  then have "(2 :: rat) ^ (?a - 1) \<le> of_int p"
    by (metis (mono_tags) nat_0_le of_int_of_nat_eq of_nat_le_iff of_nat_numeral of_nat_power order_less_imp_le p)
  moreover have "nat q < 2 ^ ?b" using floorlog_bounds [of "nat q" 2] q by simp
  then have "of_int q < (2 :: rat) ^ ?b"
    by (metis (mono_tags) nat_0_le of_int_of_nat_eq of_nat_less_iff of_nat_numeral of_nat_power order_less_imp_le q)
  ultimately have "2 ^ (?a - 1) / (2 :: rat) ^ ?b \<le> x" unfolding xeq using q p by (intro frac_le) simp_all
  moreover have "1 \<le> ?a" using p by (simp add: floorlog_def)
  then have "pow2 (int ?a - int ?b - 1) = 2 ^ (?a - 1) / 2 ^ ?b" using pow2_diff [of "?a - 1" ?b] by (simp add: of_nat_diff algebra_simps)
  ultimately show ?thesis by (simp add: exponent_def pq Let_def)
qed

text \<open>A positive number that is not below the least positive \<^verbatim>\<open>float64\<close> does not round to zero.\<close>

lemma ulp_le: "pow2 (- 1074) \<le> x \<Longrightarrow> ulp x \<le> x"
proof -
  assume x: "pow2 (- 1074) \<le> x"
  then have pos: "0 < x" using pow2_pos [of "- 1074"] by simp
  then have "pow2 (exponent x - 52) \<le> x" using exponent_le [of x] pow2_mono [of "exponent x - 52" "exponent x"] by simp
  then show ?thesis using x pos by (simp add: ulp_def max_def)
qed

lemma fround_pos:
  assumes "pow2 (- 1074) \<le> x"
  shows "flt (FFin 0) (fround x)"
proof -
  have pos: "0 < x" using assms pow2_pos [of "- 1074"] by simp
  have u: "0 < ulp x" by (simp add: ulp_def pow2_pos)
  have "of_int 1 \<le> x / ulp x" using ulp_le [OF assms] u by simp
  then have "1 \<le> round_even (x / ulp x)" by (rule round_even_mono_int)
  then have "0 < of_int (round_even (x / ulp x)) * ulp x" using u by simp
  then show ?thesis using pos by (simp add: fround_def Let_def)
qed

lemma fround_nonneg: "0 \<le> x \<Longrightarrow> fround x = FInf True \<or> (\<exists>y\<ge>0. fround x = FFin y)"
proof -
  assume x: "0 \<le> x"
  have u: "0 < ulp x" by (simp add: ulp_def pow2_pos)
  have "of_int 0 \<le> x / ulp x" using x u by simp
  then have "0 \<le> round_even (x / ulp x)" by (rule round_even_mono_int)
  then have "0 \<le> of_int (round_even (x / ulp x)) * ulp x" using u by simp
  then show ?thesis using x by (auto simp: fround_def Let_def)
qed

lemma pow2_less_imp: "pow2 e \<le> 2 ^ k \<Longrightarrow> e \<le> int k"
proof (rule ccontr)
  assume le: "pow2 e \<le> 2 ^ k" and "\<not> e \<le> int k"
  then have "pow2 (int (Suc k)) \<le> pow2 e" by (intro pow2_mono) simp
  moreover have "pow2 (int (Suc k)) = 2 * 2 ^ k" by (simp add: pow2_def nat_add_distrib)
  moreover have "(0 :: rat) < 2 ^ k" by simp
  ultimately show False using le by linarith
qed

lemma fround_le:
  assumes "0 \<le> x" "x \<le> 2 ^ k" "k < 1024"
  obtains y where "fround x = FFin y" "0 \<le> y" "y \<le> 2 ^ k"
proof (cases "x = 0")
  case True
  then show thesis using that by (simp add: fround_def)
next
  case False
  define m where "m = max (exponent x - 52) (- 1074)"
  have m: "m \<le> int k" using assms exponent_le [of x] pow2_less_imp [of "exponent x" k] False by (simp add: m_def)
  have u: "ulp x = pow2 m" using assms(1) by (simp add: ulp_def m_def)
  have "(2 :: rat) ^ k = 2 ^ nat (int k - m) * pow2 m"
  proof (cases "0 \<le> m")
    case True
    then have "k = nat (int k - m) + nat m" using m by linarith
    then have "(2 :: rat) ^ k = 2 ^ nat (int k - m) * 2 ^ nat m" by (metis power_add)
    then show ?thesis using True by (simp add: pow2_def)
  next
    case False
    then have "nat (int k - m) = k + nat (- m)" by linarith
    then show ?thesis using False by (simp add: pow2_def power_add)
  qed
  then have "x / ulp x \<le> of_int (2 ^ nat (int k - m))" using assms(2) pow2_pos [of m] u by (simp add: divide_le_eq)
  then have "round_even (x / ulp x) \<le> 2 ^ nat (int k - m)" by (rule round_even_le_int)
  then have "of_int (round_even (x / ulp x)) \<le> (of_int (2 ^ nat (int k - m)) :: rat)" by (simp only: of_int_le_iff)
  then have "of_int (round_even (x / ulp x)) * ulp x \<le> of_int (2 ^ nat (int k - m)) * ulp x"
    using pow2_pos [of m] u by (intro mult_right_mono) simp_all
  then have y: "of_int (round_even (x / ulp x)) * ulp x \<le> 2 ^ k" using \<open>2 ^ k = _\<close> u by simp
  have "(2 :: rat) ^ k < pow2 1024" using power_strict_increasing [OF assms(3), of "2 :: rat"] by (simp add: pow2_def del: power_numeral)
  moreover have "of_int 0 \<le> x / ulp x" using assms(1) u pow2_pos [of m] by simp
  then have "0 \<le> of_int (round_even (x / ulp x)) * ulp x" using round_even_mono_int u pow2_pos [of m] by (metis mult_nonneg_nonneg of_int_0_le_iff order_less_imp_le)
  ultimately show thesis using that [of "of_int (round_even (x / ulp x)) * ulp x"] y False by (simp add: fround_def Let_def)
qed

end
