(* ===== verification/Scheduler.thy ===== *)
theory Scheduler
  imports Plan Market Float64
begin

text \<open>
  The scheduler of the driver (\<^verbatim>\<open>distributed/driver/scheduler\<close>, \<^verbatim>\<open>distributed/plan/instructions.go\<close>): where the shards of
  datasets are, what a task group costs, the score of an allocation, the request that sends a task group to an agent, and
  the execution of all task groups as an interleaving of the steps of their goroutines. A task group is named by its
  number in the plan.
\<close>

section \<open>Locations of shards\<close>

record DataLocation =
  dl_Name :: string
  dl_Location :: Location
  dl_OnDisk :: bool

type_synonym DatasetShardLocator = "string \<rightharpoonup> DataLocation"

definition NewDatasetShardLocator :: DatasetShardLocator where
  "NewDatasetShardLocator = Map.empty"

definition GetShardLocation :: "DatasetShardLocator \<Rightarrow> string \<Rightarrow> DataLocation option" where
  "GetShardLocation l name = l name"

definition SetShardLocation :: "string \<Rightarrow> DataLocation \<Rightarrow> DatasetShardLocator \<Rightarrow> DatasetShardLocator" where
  "SetShardLocation name loc l = l(name \<mapsto> loc)"

definition isDatasetShardRegistered :: "Flow \<Rightarrow> DatasetShardLocator \<Rightarrow> shard_ref \<Rightarrow> bool" where
  "isDatasetShardRegistered f l shard \<longleftrightarrow> GetShardLocation l (shard_Name f shard) \<noteq> None"

text \<open>The two waits return as soon as all shards are registered.\<close>

definition inputs_registered :: "Flow \<Rightarrow> DatasetShardLocator \<Rightarrow> Task \<Rightarrow> bool" where
  "inputs_registered f l task \<longleftrightarrow> list_all (isDatasetShardRegistered f l) (tk_InputShards task)"

definition outputs_registered :: "Flow \<Rightarrow> DatasetShardLocator \<Rightarrow> Task \<Rightarrow> bool" where
  "outputs_registered f l task \<longleftrightarrow> list_all (isDatasetShardRegistered f l) (tk_OutputShards task)"

fun all_input_locations :: "Flow \<Rightarrow> DatasetShardLocator \<Rightarrow> shard_ref list \<Rightarrow> bool \<Rightarrow> string go" where
  "all_input_locations f l [] first = Inr []"
| "all_input_locations f l (shard # shs) first =
     (case GetShardLocation l (shard_Name f shard) of
        None \<Rightarrow> Inl PanicFatal
      | Some loc \<Rightarrow> gbind (all_input_locations f l shs False) (\<lambda>rest.
          Inr ((if first then [] else '','') @ shard_Name f shard @ ''@'' @ URL (dl_Location loc) @ rest)))"

definition allInputLocations :: "Flow \<Rightarrow> DatasetShardLocator \<Rightarrow> Task \<Rightarrow> string go" where
  "allInputLocations f l task = all_input_locations f l (tk_InputShards task) True"

section \<open>What a task group needs\<close>

definition task_at :: "Flow \<Rightarrow> task_ref \<Rightarrow> Task" where
  "task_at f t = st_Tasks (step f (fst t)) ! snd t"

fun needs_driver :: "Flow \<Rightarrow> shard_ref list \<Rightarrow> bool go" where
  "needs_driver f [] = Inr False"
| "needs_driver f (shard # shs) =
     (case ds_Step (dataset f (fst shard)) of
        None \<Rightarrow> Inl PanicNil
      | Some p \<Rightarrow> if st_IsOnDriverSide (step f p) then Inr True else needs_driver f shs)"

definition needsInputFromDriver :: "Flow \<Rightarrow> Task \<Rightarrow> bool go" where
  "needsInputFromDriver f task = needs_driver f (tk_InputShards task)"

definition isInputOnDisk :: "Flow \<Rightarrow> Task \<Rightarrow> bool" where
  "isInputOnDisk f task \<longleftrightarrow> list_all (\<lambda>shard. ds_OnDisk (dataset f (fst shard)) = ModeOnDisk) (tk_InputShards task)"

definition isRestartableTasks :: "Flow \<Rightarrow> task_ref list \<Rightarrow> bool" where
  "isRestartableTasks f tasks \<longleftrightarrow> list_all (\<lambda>t. st_IsRestartable (step f (fst t))) tasks"

text \<open>The memory of the tasks that have an instruction and an output.\<close>

fun memory_of :: "task_ref list \<Rightarrow> int64 \<Rightarrow> int64 flow_m" where
  "memory_of [] cost = fret cost"
| "memory_of (t # ts) cost =
     fbind (fget (\<lambda>f. step f (fst t))) (\<lambda>st.
       case (st_Instruction st, st_OutputDataset st) of
         (Some inst, Some d) \<Rightarrow> fbind (GetPartitionSize d) (\<lambda>size. memory_of ts (cost + Instruction_GetMemoryCostInMB inst size))
       | _ \<Rightarrow> memory_of ts cost)"

definition memoryCost :: "TaskGroup \<Rightarrow> int64 flow_m" where
  "memoryCost tg = memory_of (tg_Tasks tg) 0"

definition RequiredResources :: "TaskGroup \<Rightarrow> ComputeResource flow_m" where
  "RequiredResources tg =
     fbind (memory_of (tg_Tasks tg) 0) (\<lambda>mem. fret (no_resource\<lparr>CpuCount := 1, CpuLevel := 1, MemoryMb := mem\<rparr>))"

fun strings_Join :: "string list \<Rightarrow> string \<Rightarrow> string" where
  "strings_Join [] sep = []"
| "strings_Join [s] sep = s"
| "strings_Join (s # t # ss) sep = s @ sep @ strings_Join (t # ss) sep"

definition TaskGroup_String :: "Flow \<Rightarrow> TaskGroup \<Rightarrow> string" where
  "TaskGroup_String f tg =
     strings_Join (map (\<lambda>t. Itoa (int (st_Id (step f (fst t)))) @ '':'' @ Itoa (int (tk_Id (task_at f t)))) (tg_Tasks tg)) ''-''"

section \<open>The score of an allocation\<close>

fun distance_cost :: "Flow \<Rightarrow> DatasetShardLocator \<Rightarrow> Location \<Rightarrow> shard_ref list \<Rightarrow> gfloat \<Rightarrow> gfloat" where
  "distance_cost f l loc [] cost = cost"
| "distance_cost f l loc (shard # shs) cost =
     (case GetShardLocation l (shard_Name f shard) of
        None \<Rightarrow> distance_cost f l loc shs cost
      | Some data \<Rightarrow> distance_cost f l loc shs (fadd cost (FFin (of_nat (Distance (dl_Location data) loc)))))"

definition Score :: "DatasetShardLocator \<Rightarrow> TaskGroup \<Rightarrow> gfloat \<Rightarrow> Allocation \<Rightarrow> gfloat flow_m" where
  "Score l tg bid alloc =
     fbind (memoryCost tg) (\<lambda>memCost.
       if MemoryMb (al_Allocated alloc) <s memCost then fret (FFin (- 1))
       else
         fbind (flift (go_index (tg_Tasks tg) 0)) (\<lambda>t.
         fbind (fget (\<lambda>f. distance_cost f l (al_Location alloc) (tk_InputShards (task_at f t))
             (fmul (float64_of_int64 (MemoryMb (al_Allocated alloc) - memCost)) (FFin 10)))) (\<lambda>cost.
         fret (fdiv bid cost))))"

section \<open>The request for an agent\<close>

record pb_InstructionSet =
  is_Instructions :: "pb_Instruction list"
  is_ReaderCount :: int32
  is_FlowHashCode :: "32 word"
  is_IsProfiling :: bool
  is_AgentAddress :: string
  is_Name :: string

record ExecutionRequest =
  er_InstructionSet :: pb_InstructionSet
  er_Dir :: string
  er_Resource :: ComputeResource

definition str :: "string \<Rightarrow> bytes" where
  "str s = map of_char s"

text \<open>No step has a script of its own: the field is never set.\<close>

definition GetScriptCommand :: "Step \<Rightarrow> Command go" where
  "GetScriptCommand st = (case st_Command st of None \<Rightarrow> Inl PanicNil | Some c \<Rightarrow> Inr c)"

definition translateToInstruction :: "Flow \<Rightarrow> task_ref \<Rightarrow> pb_Instruction option go" where
  "translateToInstruction f t =
     (let st = step f (fst t); task = task_at f t in
      if st_IsOnDriverSide st then Inr None
      else
        gbind (case st_Instruction st of
                 Some inst \<Rightarrow> Inr (Instruction_SerializeToCommand inst)
               | None \<Rightarrow> gbind (GetScriptCommand st) (\<lambda>command.
                   Inr (empty_command\<lparr>pi_Script := Some \<lparr>psp_IsPipe = st_IsPipe st, psp_Path = str (cmd_Path command),
                     psp_Args = map str (cmd_Args command), psp_Env = map str (cmd_Env command)\<rparr>\<rparr>)))
          (\<lambda>ret. Inr (Some (ret\<lparr>pi_StepId := word_of_nat (st_Id st), pi_TaskId := word_of_nat (tk_Id task)\<rparr>))))"

definition TranslateToInstructionSet :: "Flow \<Rightarrow> TaskGroup \<Rightarrow> pb_InstructionSet go" where
  "TranslateToInstructionSet f tg =
     (if tg_Tasks tg = [] then Inl PanicIndex
      else
        let lastShards = tk_OutputShards (task_at f (last (tg_Tasks tg)));
            readers = (case lastShards of [] \<Rightarrow> 0 | shard # _ \<Rightarrow> word_of_nat (length (reading_tasks f shard)))
        in gbind (gmap (translateToInstruction f) (tg_Tasks tg)) (\<lambda>instructions.
             Inr \<lparr>is_Instructions = List.map_filter id instructions, is_ReaderCount = readers,
               is_FlowHashCode = 0, is_IsProfiling = False, is_AgentAddress = [], is_Name = []\<rparr>))"

definition shard_location :: "DataLocation \<Rightarrow> pb_DatasetShardLocation" where
  "shard_location loc = \<lparr>pdl_Name = dl_Name loc, pdl_Host = loc_Server (dl_Location loc), pdl_Port = loc_Port (dl_Location loc),
     pdl_OnDisk = dl_OnDisk loc\<rparr>"

definition SetInputLocations :: "DataLocation list \<Rightarrow> pb_Instruction \<Rightarrow> pb_Instruction" where
  "SetInputLocations locations i = i\<lparr>pi_InputShardLocations := pi_InputShardLocations i @ map shard_location locations\<rparr>"

definition SetOutputLocations :: "DataLocation list \<Rightarrow> pb_Instruction \<Rightarrow> pb_Instruction" where
  "SetOutputLocations locations i = i\<lparr>pi_OutputShardLocations := pi_OutputShardLocations i @ map shard_location locations\<rparr>"

definition location_at :: "Flow \<Rightarrow> Location \<Rightarrow> shard_ref \<Rightarrow> DataLocation" where
  "location_at f loc shard =
     \<lparr>dl_Name = shard_Name f shard, dl_Location = loc, dl_OnDisk = (ds_OnDisk (dataset f (fst shard)) = ModeOnDisk)\<rparr>"

definition remoteExecuteOnLocation ::
    "Flow \<Rightarrow> bool \<Rightarrow> string \<Rightarrow> DatasetShardLocator \<Rightarrow> TaskGroup \<Rightarrow> Allocation \<Rightarrow> ExecutionRequest go" where
  "remoteExecuteOnLocation f isProfiling dir l tg allocation =
     gbind (TranslateToInstructionSet f tg) (\<lambda>instructionSet.
       if is_Instructions instructionSet = [] then Inl PanicIndex
       else
         let firstTask = task_at f (hd (tg_Tasks tg)); lastTask = task_at f (last (tg_Tasks tg));
             inputLocations = List.map_filter (\<lambda>shard. GetShardLocation l (shard_Name f shard)) (tk_InputShards firstTask);
             outputLocations = map (location_at f (al_Location allocation)) (tk_OutputShards lastTask);
             k = length (is_Instructions instructionSet) - 1;
             is1 = (is_Instructions instructionSet)[0 := SetInputLocations inputLocations (is_Instructions instructionSet ! 0)];
             is2 = is1[k := SetOutputLocations outputLocations (is1 ! k)]
         in Inr \<lparr>er_InstructionSet = instructionSet\<lparr>is_Instructions := is2, is_FlowHashCode := fl_HashCode f,
                 is_IsProfiling := isProfiling, is_Name := TaskGroup_String f tg\<rparr>,
               er_Dir = dir, er_Resource = al_Allocated allocation\<rparr>)"

section \<open>Counters of a running request\<close>

text \<open>The counters an agent reports are merged with those reported before; of two counters of a step the one with more input stays.\<close>

record StepStat = InstructionStat +
  ss_StepId :: int32
  ss_TaskId :: int32

fun merge_one :: "StepStat \<Rightarrow> StepStat list \<Rightarrow> StepStat list" where
  "merge_one ai [] = []"
| "merge_one ai (bi # bs) =
     (if ss_StepId ai = ss_StepId bi then (if InputCounter bi <s InputCounter ai then ai else bi) # merge_one ai bs
      else merge_one ai bs)"

definition mergeStats :: "StepStat list \<Rightarrow> StepStat list \<Rightarrow> StepStat list" where
  "mergeStats a b =
     concat (map (\<lambda>ai. merge_one ai b) a) @
     filter (\<lambda>ai. ss_StepId ai \<notin> ss_StepId ` set b) a @ filter (\<lambda>bi. ss_StepId bi \<notin> ss_StepId ` set a) b"

section \<open>The execution of the task groups\<close>

text \<open>
  The goroutine of a task group waits until its inputs are there, asks the market for an allocation, registers where its
  shards are, one by one, sends the request, and at the end marks itself as stopped and returns the allocation. The number
  of the task group also stands for the channel on which it receives its allocation. Tasks that may be restarted are
  retried twice.
\<close>

datatype phase =
    Pending
  | Asked
  | Registering Allocation "shard_ref list"
  | Running Allocation ExecutionRequest nat
  | Ended

record sched =
  sd_Market :: "(nat, Allocation) Market"
  sd_Locations :: DatasetShardLocator
  sd_Phases :: "phase list"
  sd_Groups :: "TaskGroup list"

definition MarkStop :: "gerror option \<Rightarrow> TaskGroup \<Rightarrow> TaskGroup" where
  "MarkStop err tg = tg\<lparr>tg_Stopped := True, tg_Error := err\<rparr>"

text \<open>The wait returns once every task group has stopped without an error.\<close>

definition WaitForAllTasksToComplete :: "TaskGroup list \<Rightarrow> StepGroup \<Rightarrow> bool" where
  "WaitForAllTasksToComplete tgs g \<longleftrightarrow> list_all (\<lambda>k. tg_Stopped (tgs ! k) \<and> tg_Error (tgs ! k) = None) (sg_TaskGroups g)"

definition parents_complete :: "StepGroup list \<Rightarrow> TaskGroup list \<Rightarrow> TaskGroup \<Rightarrow> bool" where
  "parents_complete gs tgs tg \<longleftrightarrow>
     list_all (\<lambda>g. tg_ParentStepGroup tg = Some (sg_Key g) \<longrightarrow>
       list_all (\<lambda>g'. sg_Key g' \<in> set (sg_Parents g) \<longrightarrow> WaitForAllTasksToComplete tgs g') gs) gs"

definition first_task :: "Flow \<Rightarrow> task_ref list \<Rightarrow> Task" where
  "first_task f tasks = task_at f (hd tasks)"

definition last_task :: "Flow \<Rightarrow> task_ref list \<Rightarrow> Task" where
  "last_task f tasks = task_at f (last tasks)"

text \<open>The guard of the resource request, and of the execution on the driver side.\<close>

definition may_ask :: "Flow \<Rightarrow> StepGroup list \<Rightarrow> sched \<Rightarrow> TaskGroup \<Rightarrow> bool" where
  "may_ask f gs st tg \<longleftrightarrow>
     (let tasks = tg_Tasks tg in
      tasks \<noteq> [] \<and> \<not> st_IsOnDriverSide (step f (fst (hd tasks))) \<and>
      (case needsInputFromDriver f (first_task f tasks) of
         Inl _ \<Rightarrow> False
       | Inr needs \<Rightarrow> needs \<or> inputs_registered f (sd_Locations st) (first_task f tasks)) \<and>
      (isInputOnDisk f (first_task f tasks) \<and> \<not> isRestartableTasks f tasks \<longrightarrow> parents_complete gs (sd_Groups st) tg))"

definition localExecute :: "Flow \<Rightarrow> sched \<Rightarrow> TaskGroup \<Rightarrow> bool" where
  "localExecute f st tg \<longleftrightarrow>
     (let tasks = tg_Tasks tg in
      tasks \<noteq> [] \<and> st_IsOnDriverSide (step f (fst (hd tasks))) \<and>
      (if st_OutputDataset (step f (fst (last tasks))) = None
       then inputs_registered f (sd_Locations st) (last_task f tasks)
       else outputs_registered f (sd_Locations st) (last_task f tasks)))"

text \<open>The shards that a task group registers at its allocation.\<close>

definition to_register :: "Flow \<Rightarrow> task_ref list \<Rightarrow> shard_ref list" where
  "to_register f tasks =
     (if needsInputFromDriver f (first_task f tasks) = Inr True then tk_InputShards (first_task f tasks) else []) @
     tk_OutputShards (last_task f tasks)"

text \<open>The score as the market sees it; a panic while scoring matches nothing.\<close>

definition score_fn :: "Flow \<Rightarrow> sched \<Rightarrow> (nat, Allocation) scorer" where
  "score_fn f st k bid alloc =
     (case Score (sd_Locations st) (sd_Groups st ! k) bid alloc f of Inl _ \<Rightarrow> FNaN | Inr (score, _) \<Rightarrow> score)"

definition set_phase :: "nat \<Rightarrow> phase \<Rightarrow> sched \<Rightarrow> sched" where
  "set_phase k p st = st\<lparr>sd_Phases := (sd_Phases st)[k := p]\<rparr>"

definition receive :: "Flow \<Rightarrow> nat \<Rightarrow> Allocation Supply \<Rightarrow> sched \<Rightarrow> sched" where
  "receive f k supp st = set_phase k (Registering (sp_Object supp) (to_register f (tg_Tasks (sd_Groups st ! k)))) st"

definition ask :: "Flow \<Rightarrow> nat \<Rightarrow> gfloat \<Rightarrow> sched \<Rightarrow> sched" where
  "ask f k bid st =
     (case AddDemand (score_fn f st) k bid k (sd_Market st) of
        (None, m) \<Rightarrow> set_phase k Asked (st\<lparr>sd_Market := m\<rparr>)
      | (Some (ch, supp), m) \<Rightarrow> receive f ch supp (st\<lparr>sd_Market := m\<rparr>))"

definition offer :: "Flow \<Rightarrow> Allocation \<Rightarrow> sched \<Rightarrow> sched" where
  "offer f alloc st =
     (case AddSupply (score_fn f st) \<lparr>sp_Object = alloc\<rparr> (sd_Market st) of
        (None, m) \<Rightarrow> st\<lparr>sd_Market := m\<rparr>
      | (Some (d, supp), m) \<Rightarrow> receive f (dm_ReturnChan d) supp (st\<lparr>sd_Market := m\<rparr>))"

definition register :: "Flow \<Rightarrow> Allocation \<Rightarrow> shard_ref \<Rightarrow> sched \<Rightarrow> sched" where
  "register f alloc shard st =
     st\<lparr>sd_Locations := SetShardLocation (shard_Name f shard) (location_at f (al_Location alloc) shard) (sd_Locations st)\<rparr>"

definition mark_stop :: "nat \<Rightarrow> gerror option \<Rightarrow> sched \<Rightarrow> sched" where
  "mark_stop k err st = st\<lparr>sd_Groups := (sd_Groups st)[k := MarkStop err (sd_Groups st ! k)]\<rparr>"

definition retries :: "Flow \<Rightarrow> TaskGroup \<Rightarrow> nat" where
  "retries f tg = (if isRestartableTasks f (tg_Tasks tg) then 2 else 0)"

inductive sched_step :: "Flow \<Rightarrow> StepGroup list \<Rightarrow> bool \<Rightarrow> string \<Rightarrow> sched \<Rightarrow> sched \<Rightarrow> bool" for f gs prof dir where
  step_driver: "k < length (sd_Phases st) \<Longrightarrow> sd_Phases st ! k = Pending \<Longrightarrow> localExecute f st (sd_Groups st ! k) \<Longrightarrow>
    sched_step f gs prof dir st (set_phase k Ended st)"
| step_ask: "k < length (sd_Phases st) \<Longrightarrow> sd_Phases st ! k = Pending \<Longrightarrow> may_ask f gs st (sd_Groups st ! k) \<Longrightarrow>
    sched_step f gs prof dir st (ask f k bid st)"
| step_register: "k < length (sd_Phases st) \<Longrightarrow> sd_Phases st ! k = Registering a (shard # todo) \<Longrightarrow>
    sched_step f gs prof dir st (set_phase k (Registering a todo) (register f a shard st))"
| step_execute: "k < length (sd_Phases st) \<Longrightarrow> sd_Phases st ! k = Registering a [] \<Longrightarrow>
    remoteExecuteOnLocation f prof dir (sd_Locations st) (sd_Groups st ! k) a = Inr request \<Longrightarrow>
    sched_step f gs prof dir st (set_phase k (Running a request (retries f (sd_Groups st ! k))) st)"
| step_retry: "k < length (sd_Phases st) \<Longrightarrow> sd_Phases st ! k = Running a request (Suc n) \<Longrightarrow>
    remoteExecuteOnLocation f prof dir (sd_Locations st) (sd_Groups st ! k) a = Inr request' \<Longrightarrow>
    sched_step f gs prof dir st (set_phase k (Running a request' n) (mark_stop k (Some err) st))"
| step_finish: "k < length (sd_Phases st) \<Longrightarrow> sd_Phases st ! k = Running a request n \<Longrightarrow> err = None \<or> n = 0 \<Longrightarrow>
    sched_step f gs prof dir st (offer f a (set_phase k Ended (mark_stop k err st)))"

definition sched_start :: "TaskGroup list \<Rightarrow> sched" where
  "sched_start tgs = \<lparr>sd_Market = NewMarket, sd_Locations = NewDatasetShardLocator, sd_Phases = replicate (length tgs) Pending, sd_Groups = tgs\<rparr>"

text \<open>A run interleaves the task groups with the arrival of the allocations that the master grants.\<close>

inductive sched_run :: "Flow \<Rightarrow> StepGroup list \<Rightarrow> TaskGroup list \<Rightarrow> bool \<Rightarrow> string \<Rightarrow> Allocation list \<Rightarrow> sched \<Rightarrow> bool"
  for f gs tgs prof dir where
  sched_init: "sched_run f gs tgs prof dir [] (sched_start tgs)"
| sched_more: "sched_run f gs tgs prof dir granted st \<Longrightarrow> sched_step f gs prof dir st st' \<Longrightarrow> sched_run f gs tgs prof dir granted st'"
| sched_grant: "sched_run f gs tgs prof dir granted st \<Longrightarrow> sched_run f gs tgs prof dir (alloc # granted) (offer f alloc st)"

inductive_cases sched_stepE: "sched_step f gs prof dir st st'"

section \<open>The score\<close>

text \<open>An allocation fits when its memory covers the cost of the tasks.\<close>

definition fits_in :: "Flow \<Rightarrow> task_ref list \<Rightarrow> Allocation \<Rightarrow> bool" where
  "fits_in f tasks alloc \<longleftrightarrow> (case memory_of tasks 0 f of Inl _ \<Rightarrow> False | Inr (cost, _) \<Rightarrow> cost \<le>s MemoryMb (al_Allocated alloc))"

lemma score_fn_fits: "flt (FFin 0) (score_fn f st k bid alloc) \<Longrightarrow> fits_in f (tg_Tasks (sd_Groups st ! k)) alloc"
  by (auto simp: score_fn_def Score_def memoryCost_def fits_in_def fbind_def fret_def word_sless_alt word_sle_eq
      split: sum.splits if_splits)

text \<open>The cost of the distances stays finite, so that the score is positive whenever the memory suffices.\<close>

lemma Distance_le: "of_nat (Distance a b) \<le> (1000 :: rat)"
  by (simp add: Distance_def)

lemma distance_cost_bound:
  assumes "0 \<le> x" "x \<le> 2 ^ k" "10 \<le> k" "k + length shs < 1024"
  shows "\<exists>y. distance_cost f l loc shs (FFin x) = FFin y \<and> 0 \<le> y \<and> y \<le> 2 ^ (k + length shs)"
  using assms
proof (induction shs arbitrary: x k)
  case (Cons shard shs)
  show ?case
  proof (cases "GetShardLocation l (shard_Name f shard)")
    case None
    then show ?thesis using Cons.IH [of x "Suc k"] Cons.prems power_increasing [of k "Suc k" "2 :: rat"] by simp
  next
    case (Some data)
    let ?x = "x + of_nat (Distance (dl_Location data) loc)"
    have "(1000 :: rat) \<le> 2 ^ k" using power_increasing [OF Cons.prems(3), of "2 :: rat"] by simp
    then have "?x \<le> 2 ^ Suc k" using Cons.prems(2) Distance_le [of "dl_Location data" loc] by simp
    then obtain y where y: "fround ?x = FFin y" "0 \<le> y" "y \<le> 2 ^ Suc k" using fround_le [of ?x "Suc k"] Cons.prems by auto
    then show ?thesis using Some Cons.IH [of y "Suc k"] Cons.prems by simp
  qed
qed auto

lemma fdiv_pos:
  assumes "1 \<le> b" "0 \<le> y" "y \<le> 2 ^ k" "k \<le> 1074"
  shows "flt (FFin 0) (fdiv (FFin b) (FFin y))"
proof (cases "y = 0")
  case True
  then show ?thesis using assms(1) by simp
next
  case False
  then have y: "0 < y" using assms(2) by simp
  have "y \<le> 2 ^ 1074" by (rule order.trans [OF assms(3) power_increasing [OF assms(4)]]) simp
  then have "pow2 (- 1074) * y \<le> pow2 (- 1074) * 2 ^ 1074" using pow2_pos [of "- 1074"] by (intro mult_left_mono) simp_all
  also have "\<dots> = 1" by (simp add: pow2_def)
  finally have "pow2 (- 1074) \<le> b / y" using assms(1) y by (simp add: le_divide_eq)
  then show ?thesis using fround_pos False by simp
qed

lemma float_round_bound: "0 \<le> n \<Longrightarrow> 0 \<le> float_round k n \<and> float_round k n \<le> n + 2 ^ k"
proof (induction k)
  case (Suc k)
  define p where "p = (2 :: int) ^ Suc k"
  have p: "0 < p" "2 ^ k \<le> p" by (simp_all add: p_def)
  have "0 \<le> n mod p" by (rule pos_mod_sign [OF p(1)])
  then have "n div p * p \<le> n" using div_mult_mod_eq [of n p] by linarith
  moreover have "0 \<le> n div p * p" using Suc.prems p(1) by (simp add: pos_imp_zdiv_nonneg_iff)
  moreover have "float_round (Suc k) n \<in> {float_round k n, n div p * p, n div p * p + p}"
    by (auto simp: round_shift_def Let_def p_def [symmetric] algebra_simps simp del: power_Suc)
  ultimately show ?case using Suc p unfolding p_def [symmetric] by auto
qed simp

lemma float64_of_int64_bound:
  assumes "0 \<le> sint w"
  obtains x where "float64_of_int64 w = FFin x" "0 \<le> x" "x \<le> 2 ^ 64"
proof -
  have b: "0 \<le> float_round 11 (sint w)" "float_round 11 (sint w) \<le> 2 ^ 64"
    using float_round_bound [OF assms, of 11] sint_range(2) [of w] by simp_all
  then have "(of_int (float_round 11 (sint w)) :: rat) \<le> of_int (2 ^ 64)" by (simp only: of_int_le_iff)
  with b(1) show thesis using that by (simp add: float64_of_int64_def)
qed

lemma Score_fits:
  assumes mem: "memory_of (tg_Tasks tg) 0 f = Inr (cost, f')" "0 \<le>s cost" and t: "tg_Tasks tg = t # ts"
    and n: "length (tk_InputShards (task_at f' t)) \<le> 900" and b: "1 \<le> b"
  shows "\<exists>score. Score l tg (FFin b) alloc f = Inr (score, f') \<and> (flt (FFin 0) score \<longleftrightarrow> cost \<le>s MemoryMb (al_Allocated alloc))"
proof (cases "MemoryMb (al_Allocated alloc) <s cost")
  case True
  then show ?thesis using mem by (simp add: Score_def memoryCost_def fbind_def fret_def word_sless_alt word_sle_eq)
next
  case False
  let ?left = "MemoryMb (al_Allocated alloc) - cost"
  have "0 \<le> sint cost" "sint cost \<le> sint (MemoryMb (al_Allocated alloc))" using mem(2) False by (simp_all add: word_sless_alt word_sle_eq)
  then have left: "sint ?left = sint (MemoryMb (al_Allocated alloc)) - sint cost"
    using sint_range [of "MemoryMb (al_Allocated alloc)"] by (intro sint_minus_range) simp_all
  then have "0 \<le> sint ?left" using False by (simp add: word_sless_alt)
  then obtain x where x: "float64_of_int64 ?left = FFin x" "0 \<le> x" "x \<le> 2 ^ 64" by (rule float64_of_int64_bound)
  then obtain z where z: "fround (x * 10) = FFin z" "0 \<le> z" "z \<le> 2 ^ 68" using fround_le [of "x * 10" 68] by auto
  obtain y where y: "distance_cost f' l (al_Location alloc) (tk_InputShards (task_at f' t)) (FFin z) = FFin y" "0 \<le> y"
      "y \<le> 2 ^ (68 + length (tk_InputShards (task_at f' t)))"
    using distance_cost_bound [OF z(2,3), of "tk_InputShards (task_at f' t)" f' l "al_Location alloc"] n by auto
  have "flt (FFin 0) (fdiv (FFin b) (FFin y))" using fdiv_pos [OF b y(2,3)] n by simp
  then show ?thesis using mem t False x(1) z(1) y(1)
    by (simp add: Score_def memoryCost_def fbind_def fret_def fget_def flift_def go_index_def word_sless_alt word_sle_eq)
qed

section \<open>The requests\<close>

definition known :: "Flow \<Rightarrow> DatasetShardLocator \<Rightarrow> shard_ref \<Rightarrow> bool" where
  "known f l shard \<longleftrightarrow> l (shard_Name f shard) \<noteq> None"

definition named :: "DatasetShardLocator \<Rightarrow> bool" where
  "named l \<longleftrightarrow> (\<forall>n loc. l n = Some loc \<longrightarrow> dl_Name loc = n)"

lemma map_filter_known:
  assumes "\<forall>s\<in>set ss. known f l s" "named l"
  shows "map dl_Name (List.map_filter (\<lambda>s. GetShardLocation l (shard_Name f s)) ss) = map (shard_Name f) ss"
  using assms by (induction ss) (auto simp: map_filter_simps known_def named_def GetShardLocation_def)

lemma SerializeToCommand_blank:
  "pi_InputShardLocations (Instruction_SerializeToCommand i) = []" "pi_OutputShardLocations (Instruction_SerializeToCommand i) = []"
  by (cases i; simp add: instr_defs Instruction_SerializeToCommand_def empty_command_def)+

lemma translateToInstruction_blank:
  "translateToInstruction f t = Inr (Some i) \<Longrightarrow> pi_InputShardLocations i = [] \<and> pi_OutputShardLocations i = []"
  by (auto simp: translateToInstruction_def Let_def gbind_def SerializeToCommand_blank empty_command_def split: if_splits option.splits sum.splits)

lemma TranslateToInstructionSet_blank:
  assumes "TranslateToInstructionSet f tg = Inr iset" "i \<in> set (is_Instructions iset)"
  shows "pi_InputShardLocations i = [] \<and> pi_OutputShardLocations i = []"
proof -
  obtain js where eqs: "gmap (translateToInstruction f) (tg_Tasks tg) = Inr js" "is_Instructions iset = List.map_filter id js"
    using assms(1) by (auto simp: TranslateToInstructionSet_def Let_def gbind_def split: if_splits sum.splits)
  with assms(2) have "Some i \<in> set js" by (auto simp: map_filter_def)
  with eqs(1) obtain t where "translateToInstruction f t = Inr (Some i)"
    unfolding gmap_eq_Inr_iff list_all2_conv_all_nth in_set_conv_nth by metis
  then show ?thesis by (rule translateToInstruction_blank)
qed

text \<open>A request names every input of the first task, every output of the last, and the allocation it is for.\<close>

definition complete_request :: "Flow \<Rightarrow> task_ref list \<Rightarrow> Allocation \<Rightarrow> ExecutionRequest \<Rightarrow> bool" where
  "complete_request f tasks alloc request \<longleftrightarrow>
     (let js = is_Instructions (er_InstructionSet request) in
      js \<noteq> [] \<and> map pdl_Name (pi_InputShardLocations (hd js)) = map (shard_Name f) (tk_InputShards (first_task f tasks)) \<and>
      pi_OutputShardLocations (last js) = map (shard_location \<circ> location_at f (al_Location alloc)) (tk_OutputShards (last_task f tasks)) \<and>
      er_Resource request = al_Allocated alloc)"

lemma remoteExecuteOnLocation_ok:
  assumes r: "remoteExecuteOnLocation f prof dir l tg alloc = Inr request"
    and kn: "\<forall>s\<in>set (tk_InputShards (first_task f (tg_Tasks tg))). known f l s" "named l"
  shows "complete_request f (tg_Tasks tg) alloc request"
proof -
  obtain iset where iset: "TranslateToInstructionSet f tg = Inr iset" "is_Instructions iset \<noteq> []"
    using r by (auto simp: remoteExecuteOnLocation_def gbind_def split: sum.splits if_splits)
  obtain i js where eqs: "is_Instructions iset = i # js" using iset(2) by (cases "is_Instructions iset") auto
  have blank: "pi_InputShardLocations j = [] \<and> pi_OutputShardLocations j = []" if "j \<in> set (i # js)" for j
    using TranslateToInstructionSet_blank [OF iset(1)] that eqs by simp
  have names: "map (pdl_Name \<circ> shard_location) (List.map_filter (\<lambda>s. GetShardLocation l (shard_Name f s)) (tk_InputShards (task_at f (hd (tg_Tasks tg))))) =
      map (shard_Name f) (tk_InputShards (task_at f (hd (tg_Tasks tg))))"
    using map_filter_known [OF kn] by (simp add: first_task_def shard_location_def comp_def)
  show ?thesis
  proof (cases js rule: rev_cases)
    case Nil
    then show ?thesis using r iset eqs blank [of i] names
      by (auto simp: remoteExecuteOnLocation_def complete_request_def SetInputLocations_def SetOutputLocations_def first_task_def last_task_def)
  next
    case (snoc ks j)
    then show ?thesis using r iset eqs blank [of i] blank [of j] names
      by (auto simp: remoteExecuteOnLocation_def complete_request_def SetInputLocations_def SetOutputLocations_def first_task_def last_task_def
          nth_append list_update_append)
  qed
qed

section \<open>The invariant of a run\<close>

definition phase_ok :: "Flow \<Rightarrow> DatasetShardLocator \<Rightarrow> task_ref list \<Rightarrow> phase \<Rightarrow> bool" where
  "phase_ok f l tasks p =
     (let ins = set (tk_InputShards (first_task f tasks)) in
      case p of
        Pending \<Rightarrow> True
      | Asked \<Rightarrow> \<forall>s\<in>ins. s \<in> set (to_register f tasks) \<or> known f l s
      | Registering alloc todo \<Rightarrow> fits_in f tasks alloc \<and> (\<forall>s\<in>ins. s \<in> set todo \<or> known f l s)
      | Running alloc request _ \<Rightarrow> fits_in f tasks alloc \<and> (\<forall>s\<in>ins. known f l s) \<and> complete_request f tasks alloc request
      | Ended \<Rightarrow> True)"

text \<open>The allocations that the task groups hold.\<close>

fun held_by :: "phase \<Rightarrow> Allocation multiset" where
  "held_by (Registering alloc _) = {#alloc#}"
| "held_by (Running alloc _ _) = {#alloc#}"
| "held_by _ = {#}"

definition held :: "phase list \<Rightarrow> Allocation multiset" where
  "held ps = sum_list (map held_by ps)"

lemma held_update: "k < length ps \<Longrightarrow> held (ps[k := p]) + held_by (ps ! k) = held ps + held_by p"
proof (induction ps arbitrary: k)
  case (Cons q ps)
  then show ?case by (cases k) (auto simp: held_def ac_simps)
qed simp

lemma held_start [simp]: "held (replicate n Pending) = {#}"
  by (induction n) (simp_all add: held_def)

definition waiting_ok :: "sched \<Rightarrow> bool" where
  "waiting_ok st \<longleftrightarrow> distinct (map dm_ReturnChan (mk_Demands (sd_Market st))) \<and>
     (\<forall>d\<in>set (mk_Demands (sd_Market st)). dm_Requirement d = dm_ReturnChan d \<and>
       dm_ReturnChan d < length (sd_Phases st) \<and> sd_Phases st ! dm_ReturnChan d = Asked)"

definition sched_inv :: "Flow \<Rightarrow> TaskGroup list \<Rightarrow> Allocation multiset \<Rightarrow> sched \<Rightarrow> bool" where
  "sched_inv f tgs pool st \<longleftrightarrow>
     length (sd_Phases st) = length tgs \<and> map tg_Tasks (sd_Groups st) = map tg_Tasks tgs \<and>
     named (sd_Locations st) \<and> waiting_ok st \<and>
     (\<forall>k<length tgs. phase_ok f (sd_Locations st) (tg_Tasks (tgs ! k)) (sd_Phases st ! k)) \<and>
     pool = image_mset sp_Object (mset (mk_Supplies (sd_Market st))) + held (sd_Phases st)"

lemma sched_inv_start: "sched_inv f tgs {#} (sched_start tgs)"
  by (simp add: sched_inv_def sched_start_def waiting_ok_def NewMarket_def named_def NewDatasetShardLocator_def phase_ok_def)

lemma sched_inv_tasks: "sched_inv f tgs pool st \<Longrightarrow> k < length tgs \<Longrightarrow> tg_Tasks (sd_Groups st ! k) = tg_Tasks (tgs ! k)"
  unfolding sched_inv_def by (metis length_map nth_map)

lemma sched_inv_okD:
  "sched_inv f tgs pool st \<Longrightarrow> k < length tgs \<Longrightarrow> phase_ok f (sd_Locations st) (tg_Tasks (tgs ! k)) (sd_Phases st ! k)"
  by (simp add: sched_inv_def)

abbreviation supplies_of :: "(nat, Allocation) Market \<Rightarrow> Allocation multiset" where
  "supplies_of m \<equiv> image_mset sp_Object (mset (mk_Supplies m))"

lemma pool_change: "pool = s + h \<Longrightarrow> h' + a = h + b \<Longrightarrow> pool + s' + b = pool' + s + a \<Longrightarrow> pool' = s' + (h' :: 'a multiset)"
  by (simp add: multiset_eq_iff) (metis add.assoc add.commute add_left_cancel)

text \<open>A change of one phase and of the market.\<close>

lemma sched_inv_change:
  assumes inv: "sched_inv f tgs pool st" and k: "k < length tgs"
    and ok: "phase_ok f (sd_Locations st) (tg_Tasks (tgs ! k)) p"
    and w: "waiting_ok (set_phase k p (st\<lparr>sd_Market := m\<rparr>))"
    and pool: "pool + supplies_of m + held_by p = pool' + supplies_of (sd_Market st) + held_by (sd_Phases st ! k)"
  shows "sched_inv f tgs pool' (set_phase k p (st\<lparr>sd_Market := m\<rparr>))"
proof -
  have len: "k < length (sd_Phases st)" using inv k(1) by (simp add: sched_inv_def)
  have "pool' = supplies_of m + held ((sd_Phases st)[k := p])"
    by (rule pool_change [OF _ held_update [OF len] pool]) (use inv in \<open>simp add: sched_inv_def\<close>)
  then show ?thesis using inv ok len w by (auto simp: sched_inv_def set_phase_def nth_list_update)
qed

lemma waiting_ok_keep:
  assumes "waiting_ok st" "sd_Phases st ! k \<noteq> Asked" "mk_Demands m = mk_Demands (sd_Market st)"
  shows "waiting_ok (set_phase k p (st\<lparr>sd_Market := m\<rparr>))"
proof -
  have "k \<noteq> dm_ReturnChan d" if "d \<in> set (mk_Demands (sd_Market st))" for d using assms(1,2) that by (auto simp: waiting_ok_def)
  then show ?thesis using assms(1,3) by (simp add: waiting_ok_def set_phase_def)
qed

lemma waiting_ok_add:
  assumes "waiting_ok st" "sd_Phases st ! k \<noteq> Asked" "k < length (sd_Phases st)" "dm_Requirement d = k" "dm_ReturnChan d = k"
    "mk_Demands m = mk_Demands (sd_Market st) @ [d]"
  shows "waiting_ok (set_phase k Asked (st\<lparr>sd_Market := m\<rparr>))"
proof -
  have "k \<noteq> dm_ReturnChan d" if "d \<in> set (mk_Demands (sd_Market st))" for d using assms(1,2) that by (auto simp: waiting_ok_def)
  then show ?thesis using assms(1,3-6) by (auto simp: waiting_ok_def set_phase_def)
qed

lemma sched_inv_phase:
  assumes inv: "sched_inv f tgs pool st" and k: "k < length tgs" "sd_Phases st ! k \<noteq> Asked"
    and ok: "phase_ok f (sd_Locations st) (tg_Tasks (tgs ! k)) p"
    and pool: "pool + held_by p = pool' + held_by (sd_Phases st ! k)"
  shows "sched_inv f tgs pool' (set_phase k p st)"
proof -
  have "waiting_ok (set_phase k p (st\<lparr>sd_Market := sd_Market st\<rparr>))" by (rule waiting_ok_keep) (use inv k in \<open>auto simp: sched_inv_def\<close>)
  moreover have "st\<lparr>sd_Market := sd_Market st\<rparr> = st" by simp
  moreover have "pool + supplies_of (sd_Market st) + held_by p = pool' + supplies_of (sd_Market st) + held_by (sd_Phases st ! k)"
    using pool by (simp add: ac_simps)
  ultimately show ?thesis using sched_inv_change [OF inv k(1) ok, of "sd_Market st" pool'] by simp
qed

lemma distinct_without:
  assumes "distinct (map g xs)" "j < length xs"
  shows "distinct (map g (take j xs @ drop (Suc j) xs))" "\<forall>x\<in>set (take j xs @ drop (Suc j) xs). x \<in> set xs \<and> g (xs ! j) \<noteq> g x"
proof -
  have xs: "xs = take j xs @ xs ! j # drop (Suc j) xs" using assms(2) by (rule id_take_nth_drop)
  with assms(1) have d: "distinct (map g (take j xs @ xs ! j # drop (Suc j) xs))" by simp
  then show "distinct (map g (take j xs @ drop (Suc j) xs))" by simp
  show "\<forall>x\<in>set (take j xs @ drop (Suc j) xs). x \<in> set xs \<and> g (xs ! j) \<noteq> g x"
    using d by (auto dest: in_set_takeD in_set_dropD)
qed

lemma sched_inv_offer:
  assumes inv: "sched_inv f tgs pool st"
  shows "sched_inv f tgs (add_mset alloc pool) (offer f alloc st)"
proof (rule pickBestDemandFor_cases [of "score_fn f st" "\<lparr>sp_Object = alloc\<rparr>" "sd_Market st"])
  let ?ds = "mk_Demands (sd_Market st)"
  fix j assume best: "best (map (\<lambda>d. score_fn f st (dm_Requirement d) (dm_Bid d) (sp_Object \<lparr>sp_Object = alloc\<rparr>)) ?ds) j"
    and j: "j < length ?ds"
    and pick: "pickBestDemandFor (score_fn f st) \<lparr>sp_Object = alloc\<rparr> (sd_Market st) =
      (Some (?ds ! j), sd_Market st\<lparr>mk_Demands := take j ?ds @ drop (Suc j) ?ds\<rparr>)"
  define k where "k = dm_ReturnChan (?ds ! j)"
  have "?ds ! j \<in> set ?ds" using j by simp
  then have k: "k < length tgs" "dm_Requirement (?ds ! j) = k" "sd_Phases st ! k = Asked" "distinct (map dm_ReturnChan ?ds)"
    using inv by (auto simp: sched_inv_def waiting_ok_def k_def)
  have fits: "fits_in f (tg_Tasks (tgs ! k)) alloc"
    using best j k(2) score_fn_fits [of f st k] sched_inv_tasks [OF inv k(1)] by (auto simp: best_def)
  have offer: "offer f alloc st = set_phase k (Registering alloc (to_register f (tg_Tasks (tgs ! k))))
      (st\<lparr>sd_Market := sd_Market st\<lparr>mk_Demands := take j ?ds @ drop (Suc j) ?ds\<rparr>\<rparr>)"
  proof -
    have "AddSupply (score_fn f st) \<lparr>sp_Object = alloc\<rparr> (sd_Market st) =
        (Some (?ds ! j, \<lparr>sp_Object = alloc\<rparr>), sd_Market st\<lparr>mk_Demands := take j ?ds @ drop (Suc j) ?ds\<rparr>)"
      using pick j by (auto simp: AddSupply_def Let_def)
    then show ?thesis using sched_inv_tasks [OF inv k(1)] by (simp add: offer_def receive_def k_def)
  qed
  show ?thesis unfolding offer
  proof (rule sched_inv_change [OF inv k(1)], goal_cases)
    case 1
    then show ?case using sched_inv_okD [OF inv k(1)] k(3) fits by (simp add: phase_ok_def)
  next
    case 2
    then show ?case using inv distinct_without [OF k(4) j] by (auto simp: sched_inv_def waiting_ok_def set_phase_def k_def)
  next
    case 3
    then show ?case using k(3) by simp
  qed
next
  assume "pickBestDemandFor (score_fn f st) \<lparr>sp_Object = alloc\<rparr> (sd_Market st) = (None, sd_Market st)"
  then have "offer f alloc st = st\<lparr>sd_Market := sd_Market st\<lparr>mk_Supplies := mk_Supplies (sd_Market st) @ [\<lparr>sp_Object = alloc\<rparr>]\<rparr>\<rparr>"
    by (auto simp: offer_def AddSupply_def Let_def)
  then show ?thesis using inv by (auto simp: sched_inv_def waiting_ok_def)
qed

lemma sched_inv_ask:
  assumes inv: "sched_inv f tgs pool st" and k: "k < length tgs" "sd_Phases st ! k = Pending"
    and may: "may_ask f gs st (sd_Groups st ! k)"
  shows "sched_inv f tgs pool (ask f k bid st)"
proof -
  let ?ts = "tg_Tasks (tgs ! k)" and ?ss = "mk_Supplies (sd_Market st)"
  have tasks: "tg_Tasks (sd_Groups st ! k) = ?ts" by (rule sched_inv_tasks [OF inv k(1)])
  have ready: "\<forall>s\<in>set (tk_InputShards (first_task f ?ts)). s \<in> set (to_register f ?ts) \<or> known f (sd_Locations st) s"
    using may by (auto simp: may_ask_def Let_def tasks to_register_def inputs_registered_def isDatasetShardRegistered_def
        GetShardLocation_def known_def list_all_iff split: sum.splits)
  have len: "k < length (sd_Phases st)" using inv k(1) by (simp add: sched_inv_def)
  show ?thesis
  proof (rule pickBestSupplyFor_cases [of "score_fn f st" k "sd_Market st"])
    fix j assume best: "best (map (\<lambda>s. score_fn f st k (FFin 1) (sp_Object s)) ?ss) j" and j: "j < length ?ss"
      and pick: "pickBestSupplyFor (score_fn f st) k (sd_Market st) =
        (Some (?ss ! j), sd_Market st\<lparr>mk_Supplies := take j ?ss @ drop (Suc j) ?ss\<rparr>)"
    have fits: "fits_in f ?ts (sp_Object (?ss ! j))" using best j score_fn_fits [of f st k] tasks by (auto simp: best_def)
    have "AddDemand (score_fn f st) k bid k (sd_Market st) = (Some (k, ?ss ! j), sd_Market st\<lparr>mk_Supplies := take j ?ss @ drop (Suc j) ?ss\<rparr>)"
      using pick j by (auto simp: AddDemand_def Let_def)
    then have ask: "ask f k bid st = set_phase k (Registering (sp_Object (?ss ! j)) (to_register f ?ts))
        (st\<lparr>sd_Market := sd_Market st\<lparr>mk_Supplies := take j ?ss @ drop (Suc j) ?ss\<rparr>\<rparr>)"
      using tasks by (simp add: ask_def receive_def)
    have ms: "add_mset (sp_Object (?ss ! j)) (image_mset sp_Object (mset (take j ?ss @ drop (Suc j) ?ss))) = image_mset sp_Object (mset ?ss)"
      using arg_cong [OF take_drop_mset [OF j], of "image_mset sp_Object"] by simp
    show ?thesis unfolding ask
      by (rule sched_inv_change [OF inv k(1) _ waiting_ok_keep]) (use ready fits inv k(2) ms in \<open>auto simp: phase_ok_def sched_inv_def\<close>)
  next
    let ?m = "sd_Market st\<lparr>mk_Demands := mk_Demands (sd_Market st) @ [\<lparr>dm_Requirement = k, dm_Bid = bid, dm_ReturnChan = k\<rparr>]\<rparr>"
    assume "pickBestSupplyFor (score_fn f st) k (sd_Market st) = (None, sd_Market st)"
    then have "AddDemand (score_fn f st) k bid k (sd_Market st) = (None, ?m)" by (auto simp: AddDemand_def Let_def)
    then have ask: "ask f k bid st = set_phase k Asked (st\<lparr>sd_Market := ?m\<rparr>)" by (simp add: ask_def)
    show ?thesis unfolding ask
      by (rule sched_inv_change [OF inv k(1) _ waiting_ok_add]) (use ready inv k(2) len in \<open>auto simp: phase_ok_def sched_inv_def\<close>)
  qed
qed

lemma known_SetShardLocation: "known f (SetShardLocation (shard_Name f s) loc l) s"
  "known f l s' \<Longrightarrow> known f (SetShardLocation (shard_Name f s) loc l) s'"
  by (auto simp: known_def SetShardLocation_def)

lemma phase_ok_mono: "phase_ok f l tasks p \<Longrightarrow> (\<And>s. known f l s \<Longrightarrow> known f l' s) \<Longrightarrow> phase_ok f l' tasks p"
  by (cases p) (auto simp: phase_ok_def)

lemma sched_inv_register:
  assumes inv: "sched_inv f tgs pool st"
  shows "sched_inv f tgs pool (register f alloc shard st)"
  using inv unfolding sched_inv_def register_def
  by (auto simp: waiting_ok_def named_def SetShardLocation_def location_at_def
      intro: phase_ok_mono [of _ "sd_Locations st"] known_SetShardLocation(2) [unfolded SetShardLocation_def])

lemma sched_inv_mark_stop:
  assumes inv: "sched_inv f tgs pool st"
  shows "sched_inv f tgs pool (mark_stop k err st)"
proof -
  have "map tg_Tasks ((sd_Groups st)[k := MarkStop err (sd_Groups st ! k)]) = map tg_Tasks (sd_Groups st)"
    by (cases "k < length (sd_Groups st)") (simp_all add: map_update MarkStop_def list_update_same_conv list_update_beyond)
  then show ?thesis using inv by (auto simp: sched_inv_def mark_stop_def waiting_ok_def)
qed

lemma set_phase_mark_stop: "sd_Phases (mark_stop k err st) = sd_Phases st" "sd_Locations (mark_stop k err st) = sd_Locations st"
  "sd_Phases (register f alloc shard st) = sd_Phases st"
  by (simp_all add: mark_stop_def register_def)

lemma sched_inv_len: "sched_inv f tgs pool st \<Longrightarrow> k < length (sd_Phases st) \<Longrightarrow> k < length tgs"
  by (simp add: sched_inv_def)

lemma sched_inv_executable:
  assumes inv: "sched_inv f tgs pool st" and k: "k < length tgs"
    and kn: "\<forall>s\<in>set (tk_InputShards (first_task f (tg_Tasks (tgs ! k)))). known f (sd_Locations st) s"
    and r: "remoteExecuteOnLocation f prof dir (sd_Locations st) (sd_Groups st ! k) alloc = Inr request"
  shows "complete_request f (tg_Tasks (tgs ! k)) alloc request"
  using remoteExecuteOnLocation_ok [OF r] kn inv sched_inv_tasks [OF inv k] by (simp add: sched_inv_def)

lemma sched_inv_step:
  assumes "sched_step f gs prof dir st st'" and inv: "sched_inv f tgs pool st"
  shows "sched_inv f tgs pool st'"
  using assms(1)
proof cases
  case (step_driver k)
  then show ?thesis using sched_inv_phase [OF inv sched_inv_len [OF inv step_driver(2)]] by (simp add: phase_ok_def)
next
  case (step_ask k bid)
  then show ?thesis using sched_inv_ask [OF inv sched_inv_len [OF inv step_ask(2)]] by simp
next
  case (step_register k a shard todo)
  note k = sched_inv_len [OF inv step_register(2)]
  have "phase_ok f (sd_Locations (register f a shard st)) (tg_Tasks (tgs ! k)) (Registering a todo)"
    using sched_inv_okD [OF inv k] step_register(3) by (simp add: phase_ok_def register_def) (metis known_SetShardLocation)
  then show ?thesis unfolding step_register(1)
    by (rule sched_inv_phase [OF sched_inv_register [OF inv] k, rotated]) (use step_register(3) in \<open>simp_all add: set_phase_mark_stop\<close>)
next
  case (step_execute k a request)
  note k = sched_inv_len [OF inv step_execute(2)]
  show ?thesis unfolding step_execute(1)
    by (rule sched_inv_phase [OF inv k])
      (use sched_inv_okD [OF inv k] step_execute(3,4) sched_inv_executable [OF inv k] in \<open>auto simp: phase_ok_def\<close>)
next
  case (step_retry k a request n request' err)
  note k = sched_inv_len [OF inv step_retry(2)]
  show ?thesis unfolding step_retry(1)
    by (rule sched_inv_phase [OF sched_inv_mark_stop [OF inv] k])
      (use sched_inv_okD [OF inv k] step_retry(3,4) sched_inv_executable [OF inv k] in \<open>auto simp: phase_ok_def set_phase_mark_stop\<close>)
next
  case (step_finish k a request n err)
  note k = sched_inv_len [OF inv step_finish(2)]
  have "a \<in># pool" using inv step_finish(2,3) held_update [of k "sd_Phases st" Pending] 
    by (auto simp: sched_inv_def) (metis held_by.simps(2) union_iff union_single_eq_member)
  then obtain rest where rest: "pool = add_mset a rest" by (metis insert_DiffM)
  have "sched_inv f tgs rest (set_phase k Ended (mark_stop k err st))"
    by (rule sched_inv_phase [OF sched_inv_mark_stop [OF inv] k]) (use step_finish(3) rest in \<open>auto simp: phase_ok_def set_phase_mark_stop\<close>)
  then show ?thesis unfolding step_finish(1) rest by (rule sched_inv_offer)
qed

lemma sched_run_inv: "sched_run f gs tgs prof dir granted st \<Longrightarrow> sched_inv f tgs (mset granted) st"
proof (induction rule: sched_run.induct)
  case sched_init
  then show ?case by (simp add: sched_inv_start)
next
  case (sched_more granted st st')
  then show ?case by (blast intro: sched_inv_step)
next
  case (sched_grant granted st alloc)
  then show ?case by (simp add: sched_inv_offer)
qed

section \<open>Properties\<close>

text \<open>
  C12: However the goroutines of the task groups, the retries and the grants of the master interleave, every allocation
  granted is either offered in the market or held by exactly one task group; and whenever a request is running on an agent,
  the memory of its allocation covers the memory cost of its tasks, its first instruction names every input shard of the
  first task, in order, its last instruction locates every output shard of the last task at the allocation, and it carries the
  resources of the allocation.
\<close>

theorem execution_safe:
  assumes "sched_run f gs tgs prof dir granted st"
  shows "mset granted = image_mset sp_Object (mset (mk_Supplies (sd_Market st))) + held (sd_Phases st) \<and>
    (\<forall>k<length tgs. \<forall>alloc request n. sd_Phases st ! k = Running alloc request n \<longrightarrow>
       fits_in f (tg_Tasks (tgs ! k)) alloc \<and> complete_request f (tg_Tasks (tgs ! k)) alloc request)"
  using sched_run_inv [OF assms] by (auto simp: sched_inv_def phase_ok_def Let_def)

text \<open>A channel of the driver followed by one task on an agent.\<close>

definition sample_job :: Flow where
  "sample_job = \<lparr>fl_Name = ''x'',
     fl_Steps =
       [\<lparr>st_Id = 0, st_InputDatasets = [], st_OutputDataset = Some 0, st_Instruction = None,
          st_Tasks = [\<lparr>tk_Id = 0, tk_InputShards = [], tk_OutputShards = [(0, 0)]\<rparr>],
          st_Name = ''Channel'', st_Description = [], st_NetworkType = OneShardToOneShard, st_IsOnDriverSide = True,
          st_IsPipe = False, st_IsGoCode = False, st_Command = None, st_IsRestartable = False, st_IsIdempotent = True\<rparr>,
        \<lparr>st_Id = 1, st_InputDatasets = [0], st_OutputDataset = Some 1,
          st_Instruction = Some (I_LocalDistinct [\<lparr>ob_Index = 1, ob_Order = 1\<rparr>]),
          st_Tasks = [\<lparr>tk_Id = 0, tk_InputShards = [(0, 0)], tk_OutputShards = [(1, 0)]\<rparr>],
          st_Name = ''d.LocalDistinct'', st_Description = [], st_NetworkType = OneShardToOneShard, st_IsOnDriverSide = False,
          st_IsPipe = False, st_IsGoCode = False, st_Command = None, st_IsRestartable = False, st_IsIdempotent = True\<rparr>],
     fl_Datasets =
       [\<lparr>ds_Id = 0, ds_Shards = [\<lparr>sh_ReadingTasks = [(1, 0)]\<rparr>], ds_Step = Some 0, ds_ReadingSteps = [1], ds_IsPartitionedBy = [],
          ds_IsLocalSorted = [], ds_TotalSize = - 1, ds_OnDisk = ModeInMemory\<rparr>,
        \<lparr>ds_Id = 1, ds_Shards = [\<lparr>sh_ReadingTasks = []\<rparr>], ds_Step = Some 1, ds_ReadingSteps = [], ds_IsPartitionedBy = [],
          ds_IsLocalSorted = [\<lparr>ob_Index = 1, ob_Order = 1\<rparr>], ds_TotalSize = - 1, ds_OnDisk = ModeInMemory\<rparr>],
     fl_HashCode = 7\<rparr>"

definition sample_groups :: "TaskGroup list" where
  "sample_groups = [\<lparr>tg_Id = 0, tg_Tasks = [(1, 0)], tg_Parents = [], tg_ParentStepGroup = Some 1, tg_Stopped = False, tg_Error = None\<rparr>]"

definition sample_alloc :: Allocation where
  "sample_alloc = \<lparr>al_Location = \<lparr>loc_DataCenter = ''dc'', loc_Rack = ''r'', loc_Server = ''s'', loc_Port = 80\<rparr>,
     al_Allocated = no_resource\<lparr>CpuCount := 1, CpuLevel := 1, MemoryMb := 1024\<rparr>\<rparr>"

lemma sample_memory:
  "case memory_of [(1, 0)] 0 sample_job of Inl _ \<Rightarrow> False | Inr (cost, f') \<Rightarrow> cost = 1 \<and> length (tk_InputShards (task_at f' (1, 0))) \<le> 900"
  by code_simp

lemma sample_score:
  assumes "sd_Groups st = sample_groups"
  shows "flt (FFin 0) (score_fn sample_job st 0 (FFin 1) sample_alloc)"
proof -
  obtain f' where f': "memory_of [(1, 0)] 0 sample_job = Inr (1, f')" "length (tk_InputShards (task_at f' (1, 0))) \<le> 900"
    using sample_memory by (auto split: sum.splits)
  then show ?thesis using Score_fits [of "sample_groups ! 0" sample_job 1 f' "(1, 0)" "[]" 1 "sd_Locations st" sample_alloc] assms
    by (auto simp: score_fn_def sample_groups_def sample_alloc_def word_sle_eq)
qed

lemma sample_request: "\<exists>r. remoteExecuteOnLocation sample_job False [] l (sample_groups ! 0) sample_alloc = Inr r"
  by (simp add: remoteExecuteOnLocation_def TranslateToInstructionSet_def translateToInstruction_def sample_groups_def sample_job_def
      Let_def step_def map_filter_def)

lemma sample_asks: "may_ask sample_job [] (sched_start sample_groups) (sample_groups ! 0)" "to_register sample_job [(1, 0)] = [(0, 0), (1, 0)]"
  "retries sample_job (sample_groups ! 0) = 0"
  by code_simp+

lemma sample_run:
  "\<exists>st request. sched_run sample_job [] sample_groups False [] [sample_alloc] st \<and> sd_Phases st ! 0 = Running sample_alloc request 0"
proof -
  let ?run = "sched_run sample_job [] sample_groups False []"
  let ?st = "\<lambda>m l p. \<lparr>sd_Market = m, sd_Locations = l, sd_Phases = [p], sd_Groups = sample_groups\<rparr>"
  let ?m = "\<lparr>mk_Demands = [], mk_Supplies = [\<lparr>sp_Object = sample_alloc\<rparr>]\<rparr>"
  have start: "sched_start sample_groups = ?st NewMarket Map.empty Pending"
    by (simp add: sched_start_def sample_groups_def NewDatasetShardLocator_def)
  have "?run [sample_alloc] (?st ?m Map.empty Pending)"
    using sched_grant [OF sched_init, of sample_job "[]" sample_groups False "[]" sample_alloc]
    by (simp add: start offer_def AddSupply_def NewMarket_def)
  moreover have "may_ask sample_job [] (?st ?m Map.empty Pending) (sample_groups ! 0)"
    using sample_asks(1) unfolding start by (auto simp: may_ask_def Let_def split: sum.splits)
  moreover have "ask sample_job 0 (FFin 1) (?st ?m Map.empty Pending) = ?st NewMarket Map.empty (Registering sample_alloc [(0, 0), (1, 0)])"
    using sample_score [of "?st ?m Map.empty Pending"] sample_asks(2)
    by (simp add: ask_def AddDemand_def pickBestSupplyFor_def receive_def set_phase_def NewMarket_def sample_groups_def)
  ultimately have "?run [sample_alloc] (?st NewMarket Map.empty (Registering sample_alloc [(0, 0), (1, 0)]))"
    using sched_more [OF _ step_ask [of 0 "?st ?m Map.empty Pending" sample_job "[]" False "[]" "FFin 1"]] by simp
  then obtain l where "?run [sample_alloc] (?st NewMarket l (Registering sample_alloc [(1, 0)]))"
    using sched_more [OF _ step_register [of 0 "?st NewMarket Map.empty (Registering sample_alloc [(0, 0), (1, 0)])"]]
    by (fastforce simp: register_def set_phase_def)
  then obtain l where run: "?run [sample_alloc] (?st NewMarket l (Registering sample_alloc []))"
    using sched_more [OF _ step_register [of 0 "?st NewMarket l (Registering sample_alloc [(1, 0)])"]]
    by (fastforce simp: register_def set_phase_def)
  obtain r where "remoteExecuteOnLocation sample_job False [] l (sample_groups ! 0) sample_alloc = Inr r" using sample_request by auto
  then have "?run [sample_alloc] (set_phase 0 (Running sample_alloc r 0) (?st NewMarket l (Registering sample_alloc [])))"
    using sched_more [OF run step_execute [of 0 "?st NewMarket l (Registering sample_alloc [])" sample_alloc sample_job False "[]" r]] sample_asks(3)
    by simp
  then show ?thesis by (auto simp: set_phase_def intro!: exI)
qed

theorem execution_safe_witness:
  "\<exists>st request. sched_run sample_job [] sample_groups False [] [sample_alloc] st \<and> sd_Phases st ! 0 = Running sample_alloc request 0 \<and>
    fits_in sample_job [(1, 0)] sample_alloc \<and> complete_request sample_job [(1, 0)] sample_alloc request"
proof -
  obtain st request where run: "sched_run sample_job [] sample_groups False [] [sample_alloc] st" "sd_Phases st ! 0 = Running sample_alloc request 0"
    using sample_run by blast
  then show ?thesis using execution_safe [OF run(1)] by (auto simp: sample_groups_def intro!: exI)
qed

text \<open>
  C40: The score of an allocation is positive exactly when its memory covers the memory cost of the tasks, whatever the locations of
  the inputs, for a bid of at least one, a cost that is not negative, and at most 900 input shards.
\<close>

theorem Score_positive_iff:
  assumes "memory_of (tg_Tasks tg) 0 f = Inr (cost, f')" "0 \<le>s cost" "tg_Tasks tg = t # ts"
    and "length (tk_InputShards (task_at f' t)) \<le> 900" "1 \<le> b"
  shows "\<exists>score. Score l tg (FFin b) alloc f = Inr (score, f') \<and> (flt (FFin 0) score \<longleftrightarrow> cost \<le>s MemoryMb (al_Allocated alloc))"
  using assms by (rule Score_fits)

theorem Score_positive_iff_witness:
  "\<exists>f' score. Score Map.empty (sample_groups ! 0) (FFin 1) sample_alloc sample_job = Inr (score, f') \<and> flt (FFin 0) score"
proof -
  obtain f' where f': "memory_of [(1, 0)] 0 sample_job = Inr (1, f')" "length (tk_InputShards (task_at f' (1, 0))) \<le> 900"
    using sample_memory by (auto split: sum.splits)
  then show ?thesis using Score_positive_iff [of "sample_groups ! 0" sample_job 1 f' "(1, 0)" "[]" 1 Map.empty sample_alloc]
    by (auto simp: sample_groups_def sample_alloc_def word_sle_eq)
qed

text \<open>Merging keeps the counters of every step, and of each step the ones with the most input.\<close>

lemma in_merge_one:
  "x \<in> set (merge_one ai b) \<longleftrightarrow>
    (\<exists>bi\<in>set b. ss_StepId bi = ss_StepId ai \<and> x = (if InputCounter bi <s InputCounter ai then ai else bi))"
  by (induction b) auto

theorem mergeStats_max:
  assumes "distinct (map ss_StepId a)" "distinct (map ss_StepId b)" "x \<in> set (mergeStats a b)"
  shows "x \<in> set a \<union> set b \<and> (\<forall>y\<in>set a \<union> set b. ss_StepId y = ss_StepId x \<longrightarrow> InputCounter y \<le>s InputCounter x)"
proof -
  have eq: "y = z" if "y \<in> set a \<and> z \<in> set a \<or> y \<in> set b \<and> z \<in> set b" "ss_StepId y = ss_StepId z" for y z
    using that assms(1,2) by (auto simp: distinct_map inj_on_def)
  consider (both) ai bi where "ai \<in> set a" "bi \<in> set b" "ss_StepId bi = ss_StepId ai" "x = (if InputCounter bi <s InputCounter ai then ai else bi)"
    | (left) "x \<in> set a" "ss_StepId x \<notin> ss_StepId ` set b" | (right) "x \<in> set b" "ss_StepId x \<notin> ss_StepId ` set a"
    using assms(3) by (auto simp: mergeStats_def in_merge_one)
  then show ?thesis
  proof cases
    case both
    then have "y = ai \<or> y = bi" if "y \<in> set a \<union> set b" "ss_StepId y = ss_StepId x" for y
      using that eq [of y ai] eq [of y bi] by (auto split: if_splits)
    moreover have "InputCounter ai \<le>s InputCounter x \<and> InputCounter bi \<le>s InputCounter x" "x \<in> set a \<union> set b"
      using both by (auto simp: word_sless_alt word_sle_eq)
    ultimately show ?thesis by blast
  next
    case left
    then show ?thesis using eq [of _ x] by (auto simp: image_iff)
  next
    case right
    then show ?thesis using eq [of _ x] by (auto simp: image_iff)
  qed
qed

lemma merge_one_steps: "ss_StepId ` set (merge_one ai b) = {ss_StepId ai} \<inter> ss_StepId ` set b"
  by (induction b) auto

theorem mergeStats_steps: "ss_StepId ` set (mergeStats a b) = ss_StepId ` set a \<union> ss_StepId ` set b"
proof -
  have "ss_StepId ` set (concat (map (\<lambda>ai. merge_one ai b) a)) = ss_StepId ` set a \<inter> ss_StepId ` set b"
    by (induction a) (auto simp: image_Un merge_one_steps)
  moreover have "ss_StepId ` set (filter (\<lambda>x. ss_StepId x \<notin> S) c) = ss_StepId ` set c - S" for c :: "StepStat list" and S by auto
  moreover have "A \<inter> B \<union> (A - B \<union> (B - A)) = A \<union> B" for A B :: "int32 set" by blast
  ultimately show ?thesis by (simp only: mergeStats_def set_append image_Un)
qed

end
