(* ===== verification/SqlNumbers.thy ===== *)
theory SqlNumbers
  imports Values
begin

text \<open>
  The encodings of numbers that the SQL layer stores (\<^verbatim>\<open>sql/util/codec/number.go\<close>, \<^verbatim>\<open>float.go\<close>): fixed
  length ones and the comparable variable length ones, whose bytes are ordered like the numbers, and the
  variable length ones of the Go library \<^verbatim>\<open>encoding/binary\<close>. A decoder returns the rest of the input and the
  value, or an error. The contract that the encodings share is the locale \<open>memcomparable\<close>.
\<close>

unbundle bit_operations_syntax

section \<open>Errors and bytes\<close>

datatype codec_error =
    Insufficient
  | InvalidBytes
  | LargerThan64
  | InvalidMarker bytes
  | InvalidPadding bytes
  | ExpectedLength int
  | InvalidKey
  | InvalidFlag byte
  | UnsupportedKind

type_synonym 'a decoded = "codec_error + bytes \<times> 'a"

text \<open>The low \<open>n\<close> bytes of a number, the highest first, and the loop that reads them.\<close>

definition be :: "nat \<Rightarrow> 64 word \<Rightarrow> bytes" where
  "be n v = map (\<lambda>i. ucast (drop_bit (8 * i) v)) (rev [0..<n])"

definition be_dec :: "64 word \<Rightarrow> bytes \<Rightarrow> 64 word" where
  "be_dec v bs = foldl (\<lambda>v c. push_bit 8 v OR ucast c) v bs"

section \<open>Fixed length\<close>

definition signMask :: "64 word" where
  "signMask = 0x8000000000000000"

definition encodeIntToCmpUint :: "int64 \<Rightarrow> 64 word" where
  "encodeIntToCmpUint v = v XOR signMask"

definition decodeCmpUintToInt :: "64 word \<Rightarrow> int64" where
  "decodeCmpUintToInt u = u XOR signMask"

definition EncodeInt :: "bytes \<Rightarrow> int64 \<Rightarrow> bytes" where
  "EncodeInt b v = b @ be 8 (encodeIntToCmpUint v)"

definition EncodeIntDesc :: "bytes \<Rightarrow> int64 \<Rightarrow> bytes" where
  "EncodeIntDesc b v = b @ be 8 (NOT (encodeIntToCmpUint v))"

definition DecodeInt :: "bytes \<Rightarrow> int64 decoded" where
  "DecodeInt b =
     (if length b < 8 then Inl Insufficient
      else Inr (drop 8 b, decodeCmpUintToInt (be_dec 0 (take 8 b))))"

definition DecodeIntDesc :: "bytes \<Rightarrow> int64 decoded" where
  "DecodeIntDesc b =
     (if length b < 8 then Inl Insufficient
      else Inr (drop 8 b, decodeCmpUintToInt (NOT (be_dec 0 (take 8 b)))))"

definition EncodeUint :: "bytes \<Rightarrow> 64 word \<Rightarrow> bytes" where
  "EncodeUint b v = b @ be 8 v"

definition EncodeUintDesc :: "bytes \<Rightarrow> 64 word \<Rightarrow> bytes" where
  "EncodeUintDesc b v = b @ be 8 (NOT v)"

definition DecodeUint :: "bytes \<Rightarrow> 64 word decoded" where
  "DecodeUint b = (if length b < 8 then Inl Insufficient else Inr (drop 8 b, be_dec 0 (take 8 b)))"

definition DecodeUintDesc :: "bytes \<Rightarrow> 64 word decoded" where
  "DecodeUintDesc b = (if length b < 8 then Inl Insufficient else Inr (drop 8 b, NOT (be_dec 0 (take 8 b))))"

section \<open>Variable length, as in encoding/binary\<close>

function PutUvarint :: "64 word \<Rightarrow> bytes" where
  "PutUvarint x = (if 0x80 \<le> x then (ucast x OR 0x80) # PutUvarint (drop_bit 7 x) else [ucast x])"
  by auto
termination
proof (relation "measure unat")
  fix x :: "64 word" assume "0x80 \<le> x"
  then have "0 < unat x" by (auto simp: unat_gt_0)
  then show "(drop_bit 7 x, x) \<in> measure unat" by (simp add: unat_drop_bit_eq) (simp add: drop_bit_eq_div)
qed simp

declare PutUvarint.simps [simp del]

fun Uvarint_loop :: "nat \<Rightarrow> 64 word \<Rightarrow> bytes \<Rightarrow> 64 word \<times> int" where
  "Uvarint_loop i x [] = (0, 0)"
| "Uvarint_loop i x (b # buf) =
     (if i = 10 then (0, - int (i + 1))
      else if b < 0x80 then
        if i = 9 \<and> 1 < b then (0, - int (i + 1)) else (x OR push_bit (7 * i) (ucast b), int (i + 1))
      else Uvarint_loop (i + 1) (x OR push_bit (7 * i) (ucast (b AND 0x7F))) buf)"

definition Uvarint :: "bytes \<Rightarrow> 64 word \<times> int" where
  "Uvarint buf = Uvarint_loop 0 0 buf"

definition PutVarint :: "int64 \<Rightarrow> bytes" where
  "PutVarint x = (let ux = push_bit 1 x in PutUvarint (if x <s 0 then NOT ux else ux))"

definition Varint :: "bytes \<Rightarrow> int64 \<times> int" where
  "Varint buf = (let (ux, n) = Uvarint buf; x = drop_bit 1 ux in (if bit ux 0 then NOT x else x, n))"

definition EncodeVarint :: "bytes \<Rightarrow> int64 \<Rightarrow> bytes" where
  "EncodeVarint b v = b @ PutVarint v"

definition DecodeVarint :: "bytes \<Rightarrow> int64 decoded" where
  "DecodeVarint b =
     (let (v, n) = Varint b in
      if 0 < n then Inr (drop (nat n) b, v) else if n < 0 then Inl LargerThan64 else Inl Insufficient)"

definition EncodeUvarint :: "bytes \<Rightarrow> 64 word \<Rightarrow> bytes" where
  "EncodeUvarint b v = b @ PutUvarint v"

definition DecodeUvarint :: "bytes \<Rightarrow> 64 word decoded" where
  "DecodeUvarint b =
     (let (v, n) = Uvarint b in
      if 0 < n then Inr (drop (nat n) b, v) else if n < 0 then Inl LargerThan64 else Inl Insufficient)"

section \<open>Comparable, of variable length\<close>

definition negativeTagEnd :: byte where
  "negativeTagEnd = 8"

definition positiveTagStart :: byte where
  "positiveTagStart = 0xFF - 8"

definition EncodeComparableUvarint :: "bytes \<Rightarrow> 64 word \<Rightarrow> bytes" where
  "EncodeComparableUvarint b v =
     (if v \<le> ucast (positiveTagStart - negativeTagEnd) then b @ [ucast v + negativeTagEnd]
      else if v \<le> 0xFF then b @ (positiveTagStart + 1) # be 1 v
      else if v \<le> 0xFFFF then b @ (positiveTagStart + 2) # be 2 v
      else if v \<le> 0xFFFFFF then b @ (positiveTagStart + 3) # be 3 v
      else if v \<le> 0xFFFFFFFF then b @ (positiveTagStart + 4) # be 4 v
      else if v \<le> 0xFFFFFFFFFF then b @ (positiveTagStart + 5) # be 5 v
      else if v \<le> 0xFFFFFFFFFFFF then b @ (positiveTagStart + 6) # be 6 v
      else if v \<le> 0xFFFFFFFFFFFFFF then b @ (positiveTagStart + 7) # be 7 v
      else b @ (positiveTagStart + 8) # be 8 v)"

definition EncodeComparableVarint :: "bytes \<Rightarrow> int64 \<Rightarrow> bytes" where
  "EncodeComparableVarint b v =
     (if v <s 0 then
        if - 0xFF \<le>s v then b @ (negativeTagEnd - 1) # be 1 v
        else if - 0xFFFF \<le>s v then b @ (negativeTagEnd - 2) # be 2 v
        else if - 0xFFFFFF \<le>s v then b @ (negativeTagEnd - 3) # be 3 v
        else if - 0xFFFFFFFF \<le>s v then b @ (negativeTagEnd - 4) # be 4 v
        else if - 0xFFFFFFFFFF \<le>s v then b @ (negativeTagEnd - 5) # be 5 v
        else if - 0xFFFFFFFFFFFF \<le>s v then b @ (negativeTagEnd - 6) # be 6 v
        else if - 0xFFFFFFFFFFFFFF \<le>s v then b @ (negativeTagEnd - 7) # be 7 v
        else b @ (negativeTagEnd - 8) # be 8 v
      else EncodeComparableUvarint b v)"

definition DecodeComparableUvarint :: "bytes \<Rightarrow> 64 word decoded" where
  "DecodeComparableUvarint b =
     (case b of
        [] \<Rightarrow> Inl Insufficient
      | first # b \<Rightarrow>
          if first < negativeTagEnd then Inl InvalidBytes
          else if first \<le> positiveTagStart then Inr (b, ucast first - ucast negativeTagEnd)
          else
            let len = unat first - unat positiveTagStart in
            if length b < len then Inl Insufficient else Inr (drop len b, be_dec 0 (take len b)))"

text \<open>For a value of one byte the rest that is returned still begins with that byte.\<close>

definition DecodeComparableVarint :: "bytes \<Rightarrow> int64 decoded" where
  "DecodeComparableVarint b =
     (case b of
        [] \<Rightarrow> Inl Insufficient
      | first # b' \<Rightarrow>
          if negativeTagEnd \<le> first \<and> first \<le> positiveTagStart then Inr (b, ucast first - ucast negativeTagEnd)
          else
            let len = (if first < negativeTagEnd then unat negativeTagEnd - unat first else unat first - unat positiveTagStart);
                v0 = (if first < negativeTagEnd then - 1 else 0) in
            if length b' < len then Inl Insufficient
            else
              let v = be_dec v0 (take len b') in
              if first > positiveTagStart \<and> v > 0x7FFFFFFFFFFFFFFF then Inl InvalidBytes
              else if first < negativeTagEnd \<and> v \<le> 0x7FFFFFFFFFFFFFFF then Inl InvalidBytes
              else Inr (drop len b', v))"

section \<open>Floating point\<close>

text \<open>
  A \<^verbatim>\<open>float64\<close> is its bit pattern (\<^verbatim>\<open>math.Float64bits\<close>); \<open>float_value\<close> is the number IEEE 754 gives it.
\<close>

definition float_mag :: "nat \<Rightarrow> nat" where
  "float_mag m = (let e = m div 2 ^ 52; f = m mod 2 ^ 52 in if e = 0 then f else (2 ^ 52 + f) * 2 ^ (e - 1))"

definition float_unit :: rat where
  "float_unit = 1 / 2 ^ 1074"

definition float_value :: "64 word \<Rightarrow> gfloat" where
  "float_value u =
     (let m = unat (take_bit 63 u); negative = bit u 63 in
      if 0x7FF0000000000000 < m then FNaN
      else if m = 0x7FF0000000000000 then FInf (\<not> negative)
      else FFin (of_int (if negative then - int (float_mag m) else int (float_mag m)) * float_unit))"

definition encodeFloatToCmpUint64 :: "64 word \<Rightarrow> 64 word" where
  "encodeFloatToCmpUint64 u =
     (if float_value u \<noteq> FNaN \<and> \<not> flt (float_value u) (FFin 0) then u OR signMask else NOT u)"

definition decodeCmpUintToFloat :: "64 word \<Rightarrow> 64 word" where
  "decodeCmpUintToFloat u = (if 0 < u AND signMask then u AND NOT signMask else NOT u)"

definition EncodeFloat :: "bytes \<Rightarrow> 64 word \<Rightarrow> bytes" where
  "EncodeFloat b v = EncodeUint b (encodeFloatToCmpUint64 v)"

definition DecodeFloat :: "bytes \<Rightarrow> 64 word decoded" where
  "DecodeFloat b = (case DecodeUint b of Inl err \<Rightarrow> Inl err | Inr (b, u) \<Rightarrow> Inr (b, decodeCmpUintToFloat u))"

definition EncodeFloatDesc :: "bytes \<Rightarrow> 64 word \<Rightarrow> bytes" where
  "EncodeFloatDesc b v = EncodeUintDesc b (encodeFloatToCmpUint64 v)"

definition DecodeFloatDesc :: "bytes \<Rightarrow> 64 word decoded" where
  "DecodeFloatDesc b = (case DecodeUintDesc b of Inl err \<Rightarrow> Inl err | Inr (b, u) \<Rightarrow> Inr (b, decodeCmpUintToFloat u))"

section \<open>Bytes as numbers\<close>

lemma unat_drop_bit: "unat (drop_bit n v) = unat v div 2 ^ n"
  unfolding unat_drop_bit_eq by (rule drop_bit_eq_div)

lemma unat_lt2p: "unat (w :: 'a :: len word) < 2 ^ LENGTH('a)"
  by (rule unsigned_less)

definition be_val :: "bytes \<Rightarrow> nat" where
  "be_val bs = foldl (\<lambda>a b. a * 256 + unat b) 0 bs"

lemma foldl_be_val: "foldl (\<lambda>a b. a * 256 + unat b) a bs = a * 256 ^ length bs + be_val bs"
proof (induction bs arbitrary: a)
  case (Cons b bs)
  have "be_val (b # bs) = unat b * 256 ^ length bs + be_val bs" using Cons.IH [of "unat b"] by (simp add: be_val_def)
  then show ?case using Cons.IH [of "a * 256 + unat b"] by (simp add: algebra_simps)
qed (simp add: be_val_def)

lemma be_val_simps [simp]: "be_val [] = 0" "be_val (b # bs) = unat b * 256 ^ length bs + be_val bs"
  using foldl_be_val [of "unat b" bs] by (simp_all add: be_val_def)

lemma be_val_less: "be_val bs < 256 ^ length bs"
proof (induction bs)
  case (Cons b bs)
  have "be_val (b # bs) < (unat b + 1) * 256 ^ length bs" using Cons.IH by simp
  also have "\<dots> \<le> 256 * 256 ^ length bs" using unat_lt2p [of b] by (intro mult_le_mono1) simp
  finally show ?case by simp
qed simp

lemma bytes_compare_append_same [simp]: "bytes_compare (p @ x) (p @ y) = bytes_compare x y"
  by (induction p) simp_all

lemma bytes_compare_less_append:
  "length xs = length ys \<Longrightarrow> bytes_compare xs ys = - 1 \<Longrightarrow> bytes_compare (xs @ x) (ys @ y) = - 1"
  by (induction xs ys rule: list_induct2) (auto split: if_splits)

lemma bytes_compare_be_val: "length xs = length ys \<Longrightarrow> bytes_compare xs ys = - 1 \<longleftrightarrow> be_val xs < be_val ys"
proof (induction xs ys rule: list_induct2)
  case (Cons x xs y ys)
  have less: "unat a * 256 ^ length as + be_val as < unat b * 256 ^ length as + be_val bs"
    if "a < b" "length as = length bs" for a b :: byte and as bs
  proof -
    have "unat a * 256 ^ length as + be_val as < (unat a + 1) * 256 ^ length as" using be_val_less [of as] by simp
    also have "\<dots> \<le> unat b * 256 ^ length as" using that(1) by (intro mult_le_mono1) (simp add: word_less_nat_alt Suc_le_eq)
    finally show ?thesis by simp
  qed
  consider "x < y" | "y < x" | "x = y" by fastforce
  then show ?case
  proof cases
    case 1
    then show ?thesis using less [of x y xs ys] Cons.hyps by simp
  next
    case 2
    then show ?thesis using less [of y x ys xs] Cons.hyps by simp
  next
    case 3
    then show ?thesis using Cons by simp
  qed
qed simp

lemma length_be_bytes [simp]: "length (be n v) = n"
  by (simp add: be_def)

lemma be_Suc: "be (Suc n) v = ucast (drop_bit (8 * n) v) # be n v"
  by (simp add: be_def)

lemma be_val_be: "be_val (be n v) = unat v mod 256 ^ n"
proof (induction n)
  case (Suc n)
  have "unat (ucast (drop_bit (8 * n) v) :: byte) = (unat v div 256 ^ n) mod 256"
    by (simp add: unsigned_ucast_eq unat_drop_bit take_bit_eq_mod power_mult)
  then have "be_val (be (Suc n) v) = (unat v div 256 ^ n) mod 256 * 256 ^ n + unat v mod 256 ^ n"
    using Suc by (simp add: be_Suc)
  then show ?case using mod_mult2_eq [of "unat v" "256 ^ n" 256] by (simp add: mult.commute)
qed (simp add: be_def)

lemma unat_push_or: "unat (push_bit 8 v OR ucast (c :: byte) :: 64 word) = (unat v * 256 + unat c) mod 2 ^ 64"
proof -
  have "push_bit 8 v OR ucast c = push_bit 8 v + (ucast c :: 64 word)"
    by (rule disjunctive_add_eq_or [symmetric], rule bit_word_eqI) (auto simp: bit_simps dest: bit_imp_le_length)
  also have "\<dots> = of_nat (unat v * 256 + unat c)" by (simp add: push_bit_eq_mult)
  finally show ?thesis by (simp only: unsigned_of_nat take_bit_eq_mod) simp
qed

lemma unat_be_dec: "unat (be_dec v bs) = (unat v * 256 ^ length bs + be_val bs) mod 2 ^ 64"
proof (induction bs arbitrary: v)
  case Nil
  show ?case using unat_lt2p [of v] by (simp add: be_dec_def)
next
  case (Cons c bs)
  have "unat (be_dec v (c # bs)) = (unat (push_bit 8 v OR ucast c :: 64 word) * 256 ^ length bs + be_val bs) mod 2 ^ 64"
    using Cons.IH [of "push_bit 8 v OR ucast c"] by (simp add: be_dec_def)
  also have "\<dots> = ((unat v * 256 + unat c) * 256 ^ length bs + be_val bs) mod 2 ^ 64"
    unfolding unat_push_or by (metis mod_add_left_eq mod_mult_left_eq)
  finally show ?case by (simp add: algebra_simps)
qed

lemma be_dec_be:
  assumes "unat v < 256 ^ n"
  shows "be_dec 0 (be n v) = v"
proof (rule word_unat_eq_iff [THEN iffD2])
  show "unat (be_dec 0 (be n v)) = unat v"
    using assms unat_lt2p [of v] by (simp add: unat_be_dec be_val_be)
qed

lemma be_dec_be8 [simp]: "be_dec 0 (be 8 v) = v"
  using be_dec_be [of v 8] unat_lt2p [of v] by simp

lemma be8_less: "u < v \<Longrightarrow> bytes_compare (be 8 u @ x) (be 8 v @ y) = - 1"
  using unat_lt2p [of u] unat_lt2p [of v]
  by (intro bytes_compare_less_append) (simp_all add: bytes_compare_be_val be_val_be word_less_nat_alt)

section \<open>The contract of an encoding\<close>

text \<open>
  Decoding what was encoded gives the value back and leaves what follows; the bytes of the smaller value are
  smaller, whatever follows. So encoded values can be put one after the other.
\<close>

locale memcomparable =
  fixes enc :: "'a \<Rightarrow> bytes" and dec :: "bytes \<Rightarrow> 'a decoded" and lt :: "'a \<Rightarrow> 'a \<Rightarrow> bool"
  assumes roundtrip: "dec (enc v @ rest) = Inr (rest, v)"
    and order: "lt u v \<Longrightarrow> bytes_compare (enc u @ x) (enc v @ y) = - 1"
begin

lemma enc_inj:
  assumes "enc u @ x = enc v @ y"
  shows "u = v \<and> x = y"
proof -
  have "dec (enc u @ x) = dec (enc v @ y)" using assms by (rule arg_cong)
  then show ?thesis unfolding roundtrip by simp
qed

lemma order_append:
  "lt u v \<or> u = v \<and> bytes_compare x y = - 1 \<Longrightarrow> bytes_compare (enc u @ x) (enc v @ y) = - 1"
  using order by auto

text \<open>A tuple of values, compared column by column, is ordered by the concatenation of its encodings.\<close>

lemma order_tuple:
  assumes "length us = length vs" "(us, vs) \<in> lex {(u, v). lt u v}"
  shows "bytes_compare (concat (map enc us) @ x) (concat (map enc vs) @ y) = - 1"
  using assms by (induction us vs rule: list_induct2) (auto simp: order)

end

section \<open>Fixed length numbers\<close>

lemma bit_signMask [simp]: "bit signMask n \<longleftrightarrow> n = 63"
proof -
  have "signMask = 2 ^ 63" by (simp add: signMask_def)
  then have "bit signMask n \<longleftrightarrow> bit (2 ^ 63 :: 64 word) n" by simp
  also have "\<dots> \<longleftrightarrow> n = 63" by (simp only: bit_exp_iff) auto
  finally show ?thesis .
qed

lemma signMask_pos [simp]: "0 < signMask"
  by (simp add: signMask_def)

lemma xor_signMask: "w XOR signMask = w + signMask"
proof (cases "bit w 63")
  case True
  let ?w = "w AND NOT signMask"
  have "w = ?w OR signMask" by (rule bit_word_eqI) (use True in \<open>auto simp: bit_simps\<close>)
  also have "?w OR signMask = ?w + signMask"
    by (rule disjunctive_add_eq_or [symmetric], rule bit_word_eqI) (auto simp: bit_simps)
  finally have "w + signMask = ?w + (signMask + signMask)" by (metis add.assoc)
  also have "\<dots> = ?w" by (simp add: signMask_def)
  also have "\<dots> = w XOR signMask" by (rule bit_word_eqI) (use True in \<open>auto simp: bit_simps\<close>)
  finally show ?thesis by simp
next
  case False
  then have "w AND signMask = 0" by (intro bit_word_eqI) (auto simp: bit_simps)
  then have "w + signMask = w OR signMask" by (rule disjunctive_add_eq_or)
  also have "\<dots> = w XOR signMask" by (rule bit_word_eqI) (use False in \<open>auto simp: bit_simps\<close>)
  finally show ?thesis by simp
qed

lemma uint_xor_signMask: "uint (w XOR signMask) = sint w + 2 ^ 63"
proof -
  have "sint w = signed_take_bit 63 (uint w)" by (simp add: sint_uint)
  also have "\<dots> = take_bit 64 (uint w + 2 ^ 63) - 2 ^ 63" by (simp add: signed_take_bit_eq_take_bit_shift)
  finally show ?thesis unfolding xor_signMask by (simp add: uint_word_ariths take_bit_eq_mod signMask_def)
qed

lemma cmp_uint_less: "encodeIntToCmpUint u < encodeIntToCmpUint v \<longleftrightarrow> sint u < sint v"
  by (simp add: encodeIntToCmpUint_def word_less_def uint_xor_signMask)

lemma cmp_uint_inverse [simp]: "decodeCmpUintToInt (encodeIntToCmpUint v) = v"
  by (simp add: encodeIntToCmpUint_def decodeCmpUintToInt_def xor.assoc)

lemma uint_NOT_mask: "uint (NOT w) = mask LENGTH('a) - uint (w :: 'a :: len word)"
proof -
  have "NOT w = - 1 - w" by (simp add: not_eq_complement)
  moreover have "w \<le> - 1" by simp
  ultimately show ?thesis using uint_minus_simple_iff [of "- 1" w] by (simp add: unsigned_minus_1_eq_mask)
qed

lemma uint_NOT: "uint (NOT w) = 2 ^ 64 - 1 - uint (w :: 64 word)"
  by (simp add: uint_NOT_mask mask_eq_exp_minus_1)

lemma not_less_not: "NOT u < NOT v \<longleftrightarrow> v < (u :: 'a :: len word)"
  by (simp add: word_less_def uint_NOT_mask)

interpretation int_codec: memcomparable "EncodeInt []" DecodeInt "\<lambda>u v. sint u < sint v"
  by unfold_locales (simp_all add: EncodeInt_def DecodeInt_def be8_less cmp_uint_less)

interpretation int_desc_codec: memcomparable "EncodeIntDesc []" DecodeIntDesc "\<lambda>u v. sint v < sint u"
  by unfold_locales (simp_all add: EncodeIntDesc_def DecodeIntDesc_def be8_less not_less_not cmp_uint_less)

interpretation uint_codec: memcomparable "EncodeUint []" DecodeUint "(<)"
  by unfold_locales (simp_all add: EncodeUint_def DecodeUint_def be8_less)

interpretation uint_desc_codec: memcomparable "EncodeUintDesc []" DecodeUintDesc "(>)"
  by unfold_locales (simp_all add: EncodeUintDesc_def DecodeUintDesc_def be8_less not_less_not)

section \<open>Variable length numbers\<close>

lemma high_byte: "bit (b :: byte) 7 \<longleftrightarrow> 0x80 \<le> b"
proof -
  have "bit b 7 \<longleftrightarrow> bit (unat b) 7" by (simp add: bit_unsigned_iff)
  also have "\<dots> \<longleftrightarrow> odd (unat b div 128)" by (simp add: bit_iff_odd)
  also have "\<dots> \<longleftrightarrow> 128 \<le> unat b"
  proof -
    have "unat b < 256" using unat_lt2p [of b] by simp
    then consider "unat b div 128 = 0" "unat b < 128" | "unat b div 128 = 1" "128 \<le> unat b" by linarith
    then show ?thesis by cases simp_all
  qed
  finally show ?thesis by (simp add: word_le_nat_alt)
qed

lemma low_seven: "(ucast (v :: 64 word) OR 0x80 :: byte) AND 0x7F = ucast (take_bit 7 v)"
proof (rule bit_word_eqI)
  fix n assume "n < LENGTH(8)"
  moreover have "(0x7F :: byte) = mask 7" "(0x80 :: byte) = push_bit 7 1" by (simp_all add: mask_eq_exp_minus_1)
  ultimately show "bit ((ucast v OR 0x80 :: byte) AND 0x7F) n = bit (ucast (take_bit 7 v) :: byte) n"
    by (auto simp only: bit_simps)
qed

lemma split_seven:
  "(x OR push_bit (7 * i) (ucast (ucast (take_bit 7 v) :: byte))) OR push_bit (7 + 7 * i) (drop_bit 7 v) =
    x OR push_bit (7 * i) (v :: 64 word)"
proof (rule bit_word_eqI)
  fix n assume n: "n < LENGTH(64)"
  show "bit ((x OR push_bit (7 * i) (ucast (ucast (take_bit 7 v) :: byte))) OR push_bit (7 + 7 * i) (drop_bit 7 v)) n =
      bit (x OR push_bit (7 * i) v) n"
  proof (cases "7 * i + 7 \<le> n")
    case True
    then have "7 + (n - (7 + 7 * i)) = n - 7 * i" "\<not> n - 7 * i < 7" by simp_all
    then show ?thesis using n True by (simp add: bit_simps)
  next
    case False
    then show ?thesis using n by (auto simp: bit_simps)
  qed
qed

lemma unat_ucast_byte: "unat v < 256 \<Longrightarrow> unat (ucast (v :: 64 word) :: byte) = unat v"
  by (simp add: unsigned_ucast_eq take_bit_eq_mod)

lemma ucast_ucast_byte: "unat v < 256 \<Longrightarrow> (ucast (ucast v :: byte) :: 64 word) = v"
  by (simp add: word_unat_eq_iff unsigned_ucast_eq take_bit_eq_mod unat_mod_distrib)

lemma Uvarint_loop_Put:
  assumes "unat v < 2 ^ (64 - 7 * i)" "i \<le> 9"
  shows "Uvarint_loop i x (PutUvarint v @ rest) = (x OR push_bit (7 * i) v, int (i + length (PutUvarint v)))"
  using assms
proof (induction v arbitrary: i x rule: PutUvarint.induct)
  case (1 v)
  show ?case
  proof (cases "0x80 \<le> v")
    case True
    have "(2 :: nat) ^ 7 < 2 ^ (64 - 7 * i)" using True 1(2) by (simp add: word_le_nat_alt)
    then have i: "7 < 64 - 7 * i" by (rule power_less_imp_less_exp [rotated]) simp
    then have "64 - 7 * i = 64 - 7 * (i + 1) + 7" by simp
    then have "2 ^ (64 - 7 * i) = 2 ^ (64 - 7 * (i + 1)) * (2 :: nat) ^ 7" by (metis power_add)
    then have less: "unat (drop_bit 7 v) < 2 ^ (64 - 7 * (i + 1))"
      using 1(2) by (simp add: unat_drop_bit less_mult_imp_div_less)
    let ?b = "ucast v OR 0x80 :: byte"
    have "bit ?b 7" by (simp add: bit_simps)
    then have "\<not> ?b < 0x80" by (simp add: high_byte not_less)
    then show ?thesis
      using 1(1) [OF True less] i by (simp add: PutUvarint.simps [of v] True low_seven split_seven)
  next
    case False
    then have v: "unat v < 128" by (simp add: word_le_nat_alt)
    then have "(ucast v :: byte) < 0x80" by (simp add: word_less_nat_alt unat_ucast_byte)
    moreover have "\<not> (i = 9 \<and> 1 < (ucast v :: byte))" using 1(2) v by (auto simp: word_less_nat_alt unat_ucast_byte)
    ultimately show ?thesis using False v 1(3) by (simp add: PutUvarint.simps [of v] ucast_ucast_byte)
  qed
qed

lemma Uvarint_Put: "Uvarint (PutUvarint v @ rest) = (v, int (length (PutUvarint v)))"
  using Uvarint_loop_Put [of v 0 0 rest] unat_lt2p [of v] by (simp add: Uvarint_def)

lemma Varint_Put: "Varint (PutVarint v @ rest) = (v, int (length (PutVarint v)))"
proof -
  have neg: "v <s 0 \<longleftrightarrow> bit v 63" using bit_last_iff [of v] by (simp add: word_sless_alt)
  let ?u = "if v <s 0 then NOT (push_bit 1 v) else push_bit 1 v"
  have "bit ?u 0 \<longleftrightarrow> v <s 0" by (simp add: bit_simps del: push_bit_Suc)
  moreover have "(if v <s 0 then NOT (drop_bit 1 ?u) else drop_bit 1 ?u) = v"
  proof (rule bit_word_eqI)
    fix n assume "n < LENGTH(64)"
    then consider "n < 63" | "n = 63" by (simp, linarith)
    then show "bit (if v <s 0 then NOT (drop_bit 1 ?u) else drop_bit 1 ?u) n = bit v n"
      by cases (simp_all add: neg bit_simps del: push_bit_Suc drop_bit_Suc)
  qed
  ultimately show ?thesis unfolding Varint_def PutVarint_def Let_def Uvarint_Put prod.case by (simp only:)
qed

lemma PutUvarint_nonempty [simp]: "PutUvarint v \<noteq> []" "PutVarint v \<noteq> []"
  by (simp_all add: PutUvarint.simps PutVarint_def Let_def)

lemma DecodeVarint_Encode: "DecodeVarint (EncodeVarint [] v @ rest) = Inr (rest, v)"
  by (simp add: DecodeVarint_def EncodeVarint_def Varint_Put)

lemma DecodeUvarint_Encode: "DecodeUvarint (EncodeUvarint [] v @ rest) = Inr (rest, v)"
  by (simp add: DecodeUvarint_def EncodeUvarint_def Uvarint_Put)

section \<open>Comparable numbers of variable length\<close>

lemma unat_byte: "n < 256 \<Longrightarrow> unat (of_nat n :: byte) = n"
  by (simp add: unsigned_of_nat take_bit_eq_mod)

lemma ucast_of_nat_byte: "n < 256 \<Longrightarrow> (ucast (of_nat n :: byte) :: 64 word) = of_nat n"
  by (simp add: word_unat_eq_iff unsigned_ucast_eq unsigned_of_nat take_bit_eq_mod)

lemma tag_simps: "negativeTagEnd = of_nat 8" "positiveTagStart = of_nat 247"
  by (simp_all add: negativeTagEnd_def positiveTagStart_def)

lemma Uvarint_cases:
  obtains (short) "unat v \<le> 239" "\<And>b. EncodeComparableUvarint b v = b @ [of_nat (unat v + 8)]"
  | (long) k where "1 \<le> k" "k \<le> 8" "239 < unat v" "k = 1 \<or> 256 ^ (k - 1) \<le> unat v" "unat v < 256 ^ k"
      "\<And>b. EncodeComparableUvarint b v = b @ of_nat (247 + k) # be k v"
proof -
  note defs = EncodeComparableUvarint_def positiveTagStart_def negativeTagEnd_def word_le_nat_alt
  have "ucast v = (of_nat (unat v) :: byte)" by (simp add: word_unat_eq_iff unsigned_of_nat unsigned_ucast_eq)
  then have small: "EncodeComparableUvarint b v = b @ [of_nat (unat v + 8)]" if "unat v \<le> 239" for b
    using that by (simp add: defs)
  have big: "unat v < 256 ^ 8" using unat_lt2p [of v] by simp
  consider "unat v \<le> 239" | "239 < unat v" "unat v < 256 ^ 1" | "256 ^ 1 \<le> unat v" "unat v < 256 ^ 2"
    | "256 ^ 2 \<le> unat v" "unat v < 256 ^ 3" | "256 ^ 3 \<le> unat v" "unat v < 256 ^ 4" | "256 ^ 4 \<le> unat v" "unat v < 256 ^ 5"
    | "256 ^ 5 \<le> unat v" "unat v < 256 ^ 6" | "256 ^ 6 \<le> unat v" "unat v < 256 ^ 7" | "256 ^ 7 \<le> unat v"
    by linarith
  then show ?thesis
  proof cases
    case 1
    then show ?thesis using short small by simp
  next
    case 2
    then show ?thesis by (intro long [of 1]) (simp_all add: defs)
  next
    case 3
    then show ?thesis by (intro long [of 2]) (simp_all add: defs)
  next
    case 4
    then show ?thesis by (intro long [of 3]) (simp_all add: defs)
  next
    case 5
    then show ?thesis by (intro long [of 4]) (simp_all add: defs)
  next
    case 6
    then show ?thesis by (intro long [of 5]) (simp_all add: defs)
  next
    case 7
    then show ?thesis by (intro long [of 6]) (simp_all add: defs)
  next
    case 8
    then show ?thesis by (intro long [of 7]) (simp_all add: defs)
  next
    case 9
    then show ?thesis using big by (intro long [of 8]) (simp_all add: defs)
  qed
qed

lemma tag_less: "m < n \<Longrightarrow> n < 256 \<Longrightarrow> (of_nat m :: byte) < of_nat n"
  by (simp add: word_less_nat_alt unat_byte)

lemma be_less:
  "unat u mod 256 ^ k < unat v mod 256 ^ k \<Longrightarrow> bytes_compare (be k u @ x) (be k v @ y) = - 1"
  by (intro bytes_compare_less_append) (simp_all add: bytes_compare_be_val be_val_be)

lemma power256_mono: "256 ^ (k - 1) \<le> (n :: nat) \<Longrightarrow> n < 256 ^ j \<Longrightarrow> k \<le> j"
proof -
  assume "256 ^ (k - 1) \<le> n" "n < 256 ^ j"
  then have "(256 :: nat) ^ (k - 1) < 256 ^ j" by (rule le_less_trans)
  then have "k - 1 < j" by (rule power_less_imp_less_exp [rotated]) simp
  then show ?thesis by simp
qed

lemma comparable_uvarint_order:
  assumes "u < v"
  shows "bytes_compare (EncodeComparableUvarint [] u @ x) (EncodeComparableUvarint [] v @ y) = - 1"
proof -
  have uv: "unat u < unat v" using assms by (simp add: word_less_nat_alt)
  show ?thesis
  proof (cases v rule: Uvarint_cases)
    case short
    show ?thesis
    proof (cases u rule: Uvarint_cases)
      case short
      with \<open>unat v \<le> 239\<close> uv tag_less [of "unat u + 8" "unat v + 8"] \<open>\<And>b. EncodeComparableUvarint b v = _\<close>
      show ?thesis by simp
    next
      case (long k)
      then show ?thesis using uv \<open>unat v \<le> 239\<close> by simp
    qed
  next
    case v: (long kv)
    show ?thesis
    proof (cases u rule: Uvarint_cases)
      case short
      then show ?thesis using v tag_less [of "unat u + 8" "247 + kv"] by simp
    next
      case u: (long ku)
      have "ku \<le> kv" using u(4) v(5) uv v(1) power256_mono [of ku "unat u" kv] by auto
      then consider "ku < kv" | "ku = kv" by linarith
      then show ?thesis
      proof cases
        case 1
        then show ?thesis using u v tag_less [of "247 + ku" "247 + kv"] by simp
      next
        case 2
        then show ?thesis using u v uv be_less [of u kv v x y] by simp
      qed
    qed
  qed
qed

lemma comparable_uvarint_roundtrip: "DecodeComparableUvarint (EncodeComparableUvarint [] v @ rest) = Inr (rest, v)"
proof (cases v rule: Uvarint_cases)
  case short
  have "(ucast (of_nat (unat v + 8) :: byte) :: 64 word) - ucast negativeTagEnd = of_nat (unat v + 8) - of_nat 8"
    using short(1) by (simp only: tag_simps ucast_of_nat_byte)
  then have "(ucast (of_nat (unat v + 8) :: byte) :: 64 word) - ucast negativeTagEnd = v" by simp
  then show ?thesis using short
    by (simp add: DecodeComparableUvarint_def tag_simps word_less_nat_alt word_le_nat_alt unat_byte del: of_nat_add of_nat_numeral)
next
  case (long k)
  then show ?thesis
    by (simp add: DecodeComparableUvarint_def tag_simps word_less_nat_alt word_le_nat_alt unat_byte Let_def be_dec_be del: of_nat_add of_nat_numeral)
qed

interpretation comparable_uint_codec: memcomparable "EncodeComparableUvarint []" DecodeComparableUvarint "(<)"
  by unfold_locales (fact comparable_uvarint_roundtrip, fact comparable_uvarint_order)

lemma Varint_cases:
  obtains (nonneg) "0 \<le> sint v" "\<And>b. EncodeComparableVarint b v = EncodeComparableUvarint b v"
  | (neg) k where "1 \<le> k" "k \<le> 8" "sint v < 0" "- (256 ^ k) < sint v" "k = 1 \<or> sint v \<le> - (256 ^ (k - 1))"
      "\<And>b. EncodeComparableVarint b v = b @ of_nat (8 - k) # be k v"
proof -
  note defs = EncodeComparableVarint_def negativeTagEnd_def word_sle_eq word_sless_alt
  have big: "- (256 ^ 8) < sint v" using sint_greater_eq [of v] by simp
  consider "0 \<le> sint v" | "sint v < 0" "- (256 ^ 1) < sint v" | "sint v \<le> - (256 ^ 1)" "- (256 ^ 2) < sint v"
    | "sint v \<le> - (256 ^ 2)" "- (256 ^ 3) < sint v" | "sint v \<le> - (256 ^ 3)" "- (256 ^ 4) < sint v"
    | "sint v \<le> - (256 ^ 4)" "- (256 ^ 5) < sint v" | "sint v \<le> - (256 ^ 5)" "- (256 ^ 6) < sint v"
    | "sint v \<le> - (256 ^ 6)" "- (256 ^ 7) < sint v" | "sint v \<le> - (256 ^ 7)"
    by linarith
  then show ?thesis
  proof cases
    case 1
    then show ?thesis by (intro nonneg) (simp_all add: defs)
  next
    case 2
    then show ?thesis by (intro neg [of 1]) (simp_all add: defs)
  next
    case 3
    then show ?thesis by (intro neg [of 2]) (simp_all add: defs)
  next
    case 4
    then show ?thesis by (intro neg [of 3]) (simp_all add: defs)
  next
    case 5
    then show ?thesis by (intro neg [of 4]) (simp_all add: defs)
  next
    case 6
    then show ?thesis by (intro neg [of 5]) (simp_all add: defs)
  next
    case 7
    then show ?thesis by (intro neg [of 6]) (simp_all add: defs)
  next
    case 8
    then show ?thesis by (intro neg [of 7]) (simp_all add: defs)
  next
    case 9
    then show ?thesis using big by (intro neg [of 8]) (simp_all add: defs)
  qed
qed

lemma uint_of_sint: "uint (v :: int64) = sint v mod 2 ^ 64"
  by (simp add: uint_sint take_bit_eq_mod)

lemma unat_nonneg: "0 \<le> sint (v :: int64) \<Longrightarrow> int (unat v) = sint v"
  using sint_less [of v] by (simp add: uint_of_sint)

lemma neg_bytes:
  assumes "1 \<le> k" "k \<le> 8" "sint (v :: int64) < 0" "- (256 ^ k) < sint v"
  shows "int (be_val (be k v)) = sint v + 256 ^ k"
proof -
  have "(256 :: int) ^ k dvd 2 ^ 64" using assms(2) le_imp_power_dvd [of "8 * k" 64 "2 :: int"] by (simp add: power_mult)
  then have "uint v mod 256 ^ k = sint v mod 256 ^ k" by (simp add: uint_of_sint mod_mod_cancel)
  also have "\<dots> = (sint v + 256 ^ k) mod 256 ^ k" by simp
  also have "\<dots> = sint v + 256 ^ k" using assms(3,4) by (intro mod_pos_pos_trivial) simp_all
  finally show ?thesis by (simp add: be_val_be zmod_int)
qed

lemma comparable_varint_order:
  assumes "sint u < sint v"
  shows "bytes_compare (EncodeComparableVarint [] u @ x) (EncodeComparableVarint [] v @ y) = - 1"
proof (cases v rule: Varint_cases)
  case v: nonneg
  show ?thesis
  proof (cases u rule: Varint_cases)
    case u: nonneg
    have "u < v" using assms unat_nonneg [OF u(1)] unat_nonneg [OF v(1)] by (simp add: word_less_def)
    then show ?thesis using u(2) v(2) comparable_uvarint_order by simp
  next
    case u: (neg k)
    show ?thesis
    proof (cases v rule: Uvarint_cases)
      case short
      then show ?thesis using u(1,6) v(2) tag_less [of "8 - k" "unat v + 8"] by simp
    next
      case (long kv)
      then show ?thesis using u(1,6) v(2) tag_less [of "8 - k" "247 + kv"] by simp
    qed
  qed
next
  case v: (neg kv)
  show ?thesis
  proof (cases u rule: Varint_cases)
    case nonneg
    then show ?thesis using assms v(3) by simp
  next
    case u: (neg ku)
    have "(256 :: int) ^ (kv - 1) < 256 ^ ku" if "kv \<noteq> 1" using that u(4) v(5) assms by linarith
    then have "kv - 1 < ku" if "kv \<noteq> 1" using that by (metis power_less_imp_less_exp one_less_numeral_iff semiring_norm(76))
    then consider "8 - ku < 8 - kv" | "ku = kv" using u(1,2) v(1,2) by linarith
    then show ?thesis
    proof cases
      case 1
      then show ?thesis using u(6) v(6) tag_less [of "8 - ku" "8 - kv"] by simp
    next
      case 2
      have "be_val (be kv u) < be_val (be kv v)"
        using neg_bytes [OF u(1-4)] neg_bytes [OF v(1-4)] assms 2 by simp
      then show ?thesis using u(6) v(6) 2 by (simp add: bytes_compare_less_append bytes_compare_be_val)
    qed
  qed
qed

text \<open>What decoding gives: always the value, but for a number of one byte not what follows it.\<close>

lemma comparable_varint_decode:
  "DecodeComparableVarint (EncodeComparableVarint [] v @ rest) =
    Inr (if 0 \<le> sint v \<and> sint v \<le> 239 then EncodeComparableVarint [] v @ rest else rest, v)"
proof (cases v rule: Varint_cases)
  case nonneg
  note less_simps = DecodeComparableVarint_def tag_simps word_less_nat_alt word_le_nat_alt unat_byte Let_def be_dec_be
  have s: "int (unat v) = sint v" using nonneg(1) by (rule unat_nonneg)
  show ?thesis
  proof (cases v rule: Uvarint_cases)
    case short
    have "(ucast (of_nat (unat v + 8) :: byte) :: 64 word) - ucast negativeTagEnd = of_nat (unat v + 8) - of_nat 8"
      using short(1) by (simp only: tag_simps ucast_of_nat_byte)
    then have "(ucast (of_nat (unat v + 8) :: byte) :: 64 word) - ucast negativeTagEnd = v" by simp
    moreover have "sint v \<le> 239" using s short(1) by linarith
    ultimately show ?thesis using nonneg short by (simp add: less_simps del: of_nat_add of_nat_numeral)
  next
    case (long k)
    have "\<not> sint v \<le> 239" using s long(3) by linarith
    moreover have "unat v \<le> 0x7FFFFFFFFFFFFFFF" using s sint_less [of v] by (simp add: nat_le_iff flip: nat_uint_eq)
    ultimately show ?thesis using nonneg(2) long by (simp add: less_simps del: of_nat_add of_nat_numeral)
  qed
next
  case (neg k)
  have "int (unat (be_dec (- 1) (be k v))) = uint v"
  proof -
    have "int (unat (- 1 :: 64 word)) = 2 ^ 64 - 1" by (simp add: unsigned_minus_1_eq_mask mask_eq_exp_minus_1)
    then have "int (unat (be_dec (- 1) (be k v))) = ((2 ^ 64 - 1) * 256 ^ k + (sint v + 256 ^ k)) mod 2 ^ 64"
      using neg_bytes [OF neg(1-4)] by (simp add: unat_be_dec zmod_int)
    also have "\<dots> = (sint v + 2 ^ 64 * 256 ^ k) mod 2 ^ 64" by (simp add: algebra_simps)
    also have "\<dots> = sint v mod 2 ^ 64" by simp
    finally show ?thesis by (simp add: uint_of_sint)
  qed
  then have dec: "be_dec (- 1) (be k v) = v" by (simp add: word_uint_eq_iff)
  have "uint v = (sint v + 2 ^ 64) mod 2 ^ 64" by (simp add: uint_of_sint)
  also have "\<dots> = sint v + 2 ^ 64" using neg(3) sint_greater_eq [of v] by (intro mod_pos_pos_trivial) simp_all
  finally have "\<not> unat v \<le> 0x7FFFFFFFFFFFFFFF"
    using sint_greater_eq [of v] by (simp add: nat_le_iff flip: nat_uint_eq)
  then show ?thesis using neg dec
    by (simp add: DecodeComparableVarint_def tag_simps word_less_nat_alt word_le_nat_alt unat_byte Let_def del: of_nat_diff of_nat_numeral)
qed

lemma Encode_prefix:
  "EncodeComparableUvarint b v = b @ EncodeComparableUvarint [] v" "EncodeComparableVarint b v = b @ EncodeComparableVarint [] v"
  by (simp_all add: EncodeComparableVarint_def EncodeComparableUvarint_def)

text \<open>
  C21: the comparable encoding of signed numbers of variable length is order preserving: comparing the bytes is
  comparing the numbers, for every pair of 64 bit numbers and every common prefix.
\<close>

theorem EncodeComparableVarint_ordered:
  "bytes_compare (EncodeComparableVarint b u) (EncodeComparableVarint b v) = sgn (sint u - sint v)"
proof -
  let ?c = "\<lambda>u v. bytes_compare (EncodeComparableVarint [] u) (EncodeComparableVarint [] v)"
  have less: "?c u v = - 1" if "sint u < sint v" for u v
    using comparable_varint_order [OF that, of "[]" "[]"] by simp
  consider "sint u < sint v" | "sint v < sint u" | "u = v" by (metis linorder_less_linear signed_word_eqI)
  then have "?c u v = sgn (sint u - sint v)"
  proof cases
    case 2
    have "?c u v = - ?c v u" by (rule bytes_compare_swap)
    then show ?thesis using less [OF 2] 2 by simp
  qed (use less in simp_all)
  then show ?thesis by (simp add: Encode_prefix(2) [of b])
qed

text \<open>
  A number of one byte is decoded, but the rest still begins with its byte: a caller that goes on with the
  rest reads the number again, without end.
\<close>

theorem DecodeComparableVarint_keeps_byte:
  "DecodeComparableVarint (EncodeComparableVarint [] 5 @ rest) = Inr (EncodeComparableVarint [] 5 @ rest, 5)"
  using comparable_varint_decode [of 5 rest] by simp

section \<open>Floating point numbers\<close>

lemma float_mag_less:
  assumes "m < n"
  shows "float_mag m < float_mag n"
proof -
  let ?e = "m div 2 ^ 52" and ?f = "m mod 2 ^ 52" and ?e' = "n div 2 ^ 52" and ?f' = "n mod 2 ^ 52"
  have f: "?f < 2 ^ 52" "?f' < 2 ^ 52" by simp_all
  have le: "?e \<le> ?e'" using assms by (simp add: div_le_mono)
  show ?thesis
  proof (cases "?e = ?e'")
    case True
    then have "?f < ?f'" using assms by (metis div_mod_decomp nat_add_left_cancel_less)
    then show ?thesis using True assms by (simp add: float_mag_def Let_def)
  next
    case False
    with le have e: "?e < ?e'" by simp
    have "float_mag m < 2 ^ 52 * 2 ^ ?e"
    proof (cases "?e = 0")
      case True
      then show ?thesis using f(1) by (simp add: float_mag_def)
    next
      case False
      then have "2 * 2 ^ (?e - 1) = (2 :: nat) ^ ?e" by (metis power_eq_if)
      moreover have "float_mag m < (2 ^ 52 + 2 ^ 52) * 2 ^ (?e - 1)" using False f(1) by (simp add: float_mag_def Let_def)
      ultimately show ?thesis by (simp add: algebra_simps)
    qed
    also have "\<dots> \<le> 2 ^ 52 * 2 ^ (?e' - 1)" using e by simp
    also have "\<dots> \<le> float_mag n" using e by (simp add: float_mag_def Let_def)
    finally show ?thesis .
  qed
qed

lemma float_unit_pos: "0 < float_unit"
  unfolding float_unit_def by (simp only: zero_less_divide_1_iff zero_less_power zero_less_numeral)

lemma float_mag_0 [simp]: "float_mag 0 = 0"
  by (simp add: float_mag_def)

text \<open>The magnitude with its sign orders all numbers that are not NaN.\<close>

definition float_key :: "64 word \<Rightarrow> int" where
  "float_key u = (if bit u 63 then - uint (take_bit 63 u) else uint (take_bit 63 u))"

definition signed_mag :: "int \<Rightarrow> int" where
  "signed_mag k = sgn k * int (float_mag (nat \<bar>k\<bar>))"

lemma signed_mag_less:
  assumes "j < k"
  shows "signed_mag j < signed_mag k"
proof -
  have pos: "0 < float_mag (nat \<bar>i\<bar>)" if "i \<noteq> 0" for i using float_mag_less [of 0 "nat \<bar>i\<bar>"] that by simp
  consider "j < 0" "0 \<le> k" | "j < 0" "k < 0" | "0 \<le> j" using assms by linarith
  then show ?thesis
  proof cases
    case 1
    then have "signed_mag j < 0" "0 \<le> signed_mag k" using pos [of j] by (simp_all add: signed_mag_def sgn_if)
    then show ?thesis by simp
  next
    case 2
    then show ?thesis using assms float_mag_less [of "nat (- k)" "nat (- j)"] by (simp add: signed_mag_def)
  next
    case 3
    then show ?thesis using assms pos [of k] float_mag_less [of "nat j" "nat k"] by (auto simp: signed_mag_def sgn_if)
  qed
qed

lemma signed_mag_less_iff: "signed_mag j < signed_mag k \<longleftrightarrow> j < k"
  using signed_mag_less [of j k] signed_mag_less [of k j] by (cases j k rule: linorder_cases) auto

abbreviation float_inf :: int where
  "float_inf \<equiv> 0x7FF0000000000000"

lemma float_value_cases:
  obtains (nan) "float_value u = FNaN" | (inf) "float_value u = FInf True" "float_key u = float_inf"
  | (minus_inf) "float_value u = FInf False" "float_key u = - float_inf"
  | (fin) "float_value u = FFin (of_int (signed_mag (float_key u)) * float_unit)" "\<bar>float_key u\<bar> < float_inf"
proof -
  let ?m = "unat (take_bit 63 u)"
  have m: "int ?m = uint (take_bit 63 u)" by simp
  have key: "\<bar>float_key u\<bar> = int ?m" by (simp add: float_key_def)
  consider "0x7FF0000000000000 < ?m" | "?m = 0x7FF0000000000000" | "?m < 0x7FF0000000000000" by linarith
  then show ?thesis
  proof cases
    case 1
    then show ?thesis by (intro nan) (simp add: float_value_def)
  next
    case 2
    then have "uint (take_bit 63 u) = float_inf" using m by simp
    then show ?thesis using 2 inf minus_inf by (cases "bit u 63") (simp_all add: float_value_def float_key_def)
  next
    case 3
    have mag: "signed_mag (if b then - int n else int n) = (if b then - int (float_mag n) else int (float_mag n))" for b n
      by (cases "n = 0") (auto simp: signed_mag_def)
    have "float_key u = (if bit u 63 then - int ?m else int ?m)" by (simp add: float_key_def)
    then have "signed_mag (float_key u) = (if bit u 63 then - int (float_mag ?m) else int (float_mag ?m))" by (simp only: mag)
    then have "float_value u = FFin (of_int (signed_mag (float_key u)) * float_unit)" using 3 by (simp add: float_value_def Let_def)
    then show ?thesis by (rule fin) (use key 3 in linarith)
  qed
qed

lemma float_less_iff:
  assumes "float_value u \<noteq> FNaN" "float_value v \<noteq> FNaN"
  shows "flt (float_value u) (float_value v) \<longleftrightarrow> float_key u < float_key v"
  using assms float_unit_pos
  by (cases u rule: float_value_cases; cases v rule: float_value_cases) (auto simp: signed_mag_less_iff)

lemma take_bit_63: "uint u = uint (take_bit 63 u) + (if bit u 63 then 2 ^ 63 else 0)" for u :: "64 word"
proof -
  have "uint u < 2 ^ 64" using unsigned_less [of u, where 'a = int] by simp
  then have "uint u = take_bit (Suc 63) (uint u)" by (simp add: take_bit_int_eq_self)
  also have "\<dots> = take_bit 63 (uint u) + 2 ^ 63 * of_bool (bit u 63)"
    by (simp only: take_bit_Suc_from_most bit_uint_iff) auto
  finally have eq: "uint u = take_bit 63 (uint u) + 2 ^ 63 * of_bool (bit u 63)" .
  show ?thesis unfolding unsigned_take_bit_eq by (subst eq) simp
qed

lemma float_negative_iff: "float_value u \<noteq> FNaN \<Longrightarrow> flt (float_value u) (FFin 0) \<longleftrightarrow> float_key u < 0"
  using float_less_iff [of u 0] by (simp add: float_value_def float_key_def)

lemma or_signMask: "take_bit 63 signMask = 0" "bit (u OR signMask) 63"
  by (rule bit_word_eqI) (auto simp: bit_simps)

lemma uint_encodeFloat:
  assumes "float_value u \<noteq> FNaN"
  shows "uint (encodeFloatToCmpUint64 u) = (if 0 \<le> float_key u then 2 ^ 63 + float_key u else 2 ^ 63 - 1 + float_key u)"
proof (cases "0 \<le> float_key u")
  case True
  have "uint (take_bit 63 u) = float_key u" using True by (simp add: float_key_def split: if_splits)
  moreover have "encodeFloatToCmpUint64 u = u OR signMask"
    using assms True by (simp add: encodeFloatToCmpUint64_def float_negative_iff)
  ultimately show ?thesis using take_bit_63 [of "u OR signMask"] True by (simp add: or_signMask)
next
  case False
  have "bit u 63" "uint (take_bit 63 u) = - float_key u" using False by (auto simp: float_key_def split: if_splits)
  moreover have "encodeFloatToCmpUint64 u = NOT u"
    using assms False by (simp add: encodeFloatToCmpUint64_def float_negative_iff)
  ultimately show ?thesis using take_bit_63 [of u] False by (simp add: uint_NOT)
qed

text \<open>
  C36: comparing the bytes of two encoded floating point numbers is comparing the numbers, for all that are not
  NaN; the two zeros, which are equal, have the same encoding.
\<close>

theorem EncodeFloat_ordered:
  assumes "float_value u \<noteq> FNaN" "float_value v \<noteq> FNaN"
  shows "bytes_compare (EncodeFloat b u) (EncodeFloat b v) =
    (if flt (float_value u) (float_value v) then - 1 else if flt (float_value v) (float_value u) then 1 else 0)"
proof -
  let ?e = encodeFloatToCmpUint64
  have less: "?e u < ?e v \<longleftrightarrow> flt (float_value u) (float_value v)" if "float_value u \<noteq> FNaN" "float_value v \<noteq> FNaN" for u v
    using that by (auto simp: float_less_iff uint_encodeFloat word_less_def)
  have cmp: "bytes_compare (be 8 x) (be 8 y) = (if x < y then - 1 else if y < x then 1 else 0)" for x y
    using be8_less [of x y "[]" "[]"] be8_less [of y x "[]" "[]"] bytes_compare_swap [of "be 8 y" "be 8 x"]
    by (cases x y rule: linorder_cases) auto
  show ?thesis using less [OF assms] less [OF assms(2,1)] by (simp add: EncodeFloat_def EncodeUint_def cmp)
qed

theorem EncodeFloat_ordered_witness:
  "bytes_compare (EncodeFloat [] 0xBFF0000000000000) (EncodeFloat [] 0x3FF0000000000000) = - 1"
proof -
  have "float_value 0xBFF0000000000000 \<noteq> FNaN" "float_value 0x3FF0000000000000 \<noteq> FNaN"
    by (simp_all add: float_value_def)
  moreover from this have "flt (float_value 0xBFF0000000000000) (float_value 0x3FF0000000000000)"
    by (simp add: float_less_iff float_key_def)
  ultimately show ?thesis using EncodeFloat_ordered [of "0xBFF0000000000000" "0x3FF0000000000000" "[]"] by simp
qed

lemma DecodeFloat_Encode:
  assumes "float_value u \<noteq> FNaN"
  shows "DecodeFloat (EncodeFloat [] u @ rest) = Inr (rest, if u = signMask then 0 else u)"
proof -
  have and_pos: "0 < w AND signMask \<longleftrightarrow> bit w 63" for w :: "64 word"
  proof -
    have "w AND signMask = (if bit w 63 then signMask else 0)" by (rule bit_word_eqI) (auto simp: bit_simps)
    then show ?thesis by (simp add: signMask_def)
  qed
  have "decodeCmpUintToFloat (encodeFloatToCmpUint64 u) = (if u = signMask then 0 else u)"
  proof (cases "0 \<le> float_key u")
    case True
    then have e: "encodeFloatToCmpUint64 u = u OR signMask"
      using assms by (simp add: encodeFloatToCmpUint64_def float_negative_iff)
    have "(u OR signMask) AND NOT signMask = (if u = signMask then 0 else u)"
    proof (cases "bit u 63")
      case True
      then have "uint (take_bit 63 u) = 0" using \<open>0 \<le> float_key u\<close> by (simp add: float_key_def)
      then have "uint u = 2 ^ 63" using take_bit_63 [of u] True by simp
      then have "u = signMask" by (simp add: word_uint_eq_iff signMask_def)
      then show ?thesis by (simp add: or.idem)
    next
      case False
      then show ?thesis by (auto intro!: bit_word_eqI simp: bit_simps)
    qed
    then show ?thesis by (simp add: e decodeCmpUintToFloat_def and_pos or_signMask(2))
  next
    case False
    then have "encodeFloatToCmpUint64 u = NOT u" "bit u 63" "u \<noteq> signMask"
      using assms by (auto simp: encodeFloatToCmpUint64_def float_negative_iff float_key_def or_signMask split: if_splits)
    then show ?thesis by (simp add: decodeCmpUintToFloat_def and_pos bit_simps)
  qed
  then show ?thesis using uint_codec.roundtrip [of "encodeFloatToCmpUint64 u" rest]
    by (simp add: DecodeFloat_def EncodeFloat_def)
qed

text \<open>A NaN is not decoded as a NaN: its encoding is that of a denormal number.\<close>

theorem EncodeFloat_NaN: "float_value 0x7FF8000000000001 = FNaN \<and>
  DecodeFloat (EncodeFloat [] 0x7FF8000000000001) = Inr ([], 0x0007FFFFFFFFFFFE)"
proof -
  have nan: "float_value 0x7FF8000000000001 = FNaN" by (simp add: float_value_def)
  moreover have "decodeCmpUintToFloat (encodeFloatToCmpUint64 0x7FF8000000000001) = 0x0007FFFFFFFFFFFE"
    by (simp add: nan encodeFloatToCmpUint64_def decodeCmpUintToFloat_def signMask_def)
  ultimately show ?thesis using uint_codec.roundtrip [of "encodeFloatToCmpUint64 0x7FF8000000000001" "[]"]
    by (simp add: DecodeFloat_def EncodeFloat_def)
qed

end
