(* ===== verification/SqlBytes.thy ===== *)
theory SqlBytes
  imports SqlNumbers
begin

text \<open>
  The encodings of byte strings of the SQL layer (\<^verbatim>\<open>sql/util/codec/bytes.go\<close>): in groups of eight bytes with a
  marker, which orders them like the strings, and with a length in front. Reversing all bits gives the
  descending order; the fast version does it a machine word at a time.
\<close>

section \<open>Reversing bits\<close>

text \<open>A machine word of the architecture (\<^verbatim>\<open>amd64\<close>): eight bytes, the lowest first.\<close>

definition load_word :: "bytes \<Rightarrow> 64 word" where
  "load_word bs = be_dec 0 (rev bs)"

definition store_word :: "64 word \<Rightarrow> bytes" where
  "store_word w = rev (be 8 w)"

definition wordSize :: nat where
  "wordSize = 8"

fun reverse_words :: "nat \<Rightarrow> bytes \<Rightarrow> bytes" where
  "reverse_words 0 b = b"
| "reverse_words (Suc w) b = store_word (NOT (load_word (take wordSize b))) @ reverse_words w (drop wordSize b)"

definition fastReverseBytes :: "bytes \<Rightarrow> bytes" where
  "fastReverseBytes b =
     (let n = length b; w = n div wordSize; b = reverse_words w b
      in take (w * wordSize) b @ map NOT (drop (w * wordSize) b))"

definition safeReverseBytes :: "bytes \<Rightarrow> bytes" where
  "safeReverseBytes b = map NOT b"

definition reverseBytes :: "bool \<Rightarrow> bytes \<Rightarrow> bytes" where
  "reverseBytes supportsUnaligned b = (if supportsUnaligned then fastReverseBytes b else safeReverseBytes b)"

section \<open>Groups\<close>

definition encGroupSize :: nat where
  "encGroupSize = 8"

definition encMarker :: byte where
  "encMarker = 0xFF"

definition encPad :: byte where
  "encPad = 0"

text \<open>The loop over \<^verbatim>\<open>idx\<close> sees what is left of the data; it also runs when nothing is left.\<close>

function encode_groups :: "bytes \<Rightarrow> bytes" where
  "encode_groups data =
     (let remain = length data in
      if encGroupSize \<le> remain
      then take encGroupSize data @ encMarker # encode_groups (drop encGroupSize data)
      else let padCount = encGroupSize - remain in
        data @ replicate padCount encPad @ [encMarker - of_nat padCount])"
  by auto
termination by (relation "measure length") (auto simp: encGroupSize_def)

declare encode_groups.simps [simp del]

definition EncodeBytes :: "bytes \<Rightarrow> bytes \<Rightarrow> bytes" where
  "EncodeBytes b data = b @ encode_groups data"

function decode_groups :: "bool \<Rightarrow> bytes \<Rightarrow> bytes \<Rightarrow> bytes decoded" where
  "decode_groups reverse data b =
     (if length b < encGroupSize + 1 then Inl Insufficient
      else
        let groupBytes = take (encGroupSize + 1) b;
            group = take encGroupSize groupBytes;
            marker = groupBytes ! encGroupSize;
            padCount = (if reverse then marker else encMarker - marker)
        in if of_nat encGroupSize < padCount then Inl (InvalidMarker groupBytes)
           else
             let realGroupSize = encGroupSize - unat padCount;
                 data = data @ take realGroupSize group;
                 b = drop (encGroupSize + 1) b
             in if padCount \<noteq> 0 then
                  let padByte = (if reverse then encMarker else encPad) in
                  if \<exists>v\<in>set (drop realGroupSize group). v \<noteq> padByte then Inl (InvalidPadding groupBytes)
                  else Inr (b, data)
                else decode_groups reverse data b)"
  by auto
termination by (relation "measure (\<lambda>(reverse, data, b). length b)") auto

declare decode_groups.simps [simp del]

definition decodeBytes :: "bool \<Rightarrow> bytes \<Rightarrow> bool \<Rightarrow> bytes decoded" where
  "decodeBytes supportsUnaligned b reverse =
     (case decode_groups reverse [] b of
        Inl err \<Rightarrow> Inl err
      | Inr (b, data) \<Rightarrow> Inr (b, if reverse then reverseBytes supportsUnaligned data else data))"

definition DecodeBytes :: "bool \<Rightarrow> bytes \<Rightarrow> bytes decoded" where
  "DecodeBytes supportsUnaligned b = decodeBytes supportsUnaligned b False"

definition EncodeBytesDesc :: "bool \<Rightarrow> bytes \<Rightarrow> bytes \<Rightarrow> bytes" where
  "EncodeBytesDesc supportsUnaligned b data =
     (let n = length b; b = EncodeBytes b data in take n b @ reverseBytes supportsUnaligned (drop n b))"

definition DecodeBytesDesc :: "bool \<Rightarrow> bytes \<Rightarrow> bytes decoded" where
  "DecodeBytesDesc supportsUnaligned b = decodeBytes supportsUnaligned b True"

section \<open>With a length\<close>

definition EncodeCompactBytes :: "bytes \<Rightarrow> bytes \<Rightarrow> bytes" where
  "EncodeCompactBytes b data = EncodeVarint b (of_nat (length data)) @ data"

text \<open>A negative length passes the check and then is out of range.\<close>

definition DecodeCompactBytes :: "bytes \<Rightarrow> bytes decoded go" where
  "DecodeCompactBytes b =
     (case DecodeVarint b of
        Inl err \<Rightarrow> Inr (Inl err)
      | Inr (b, n) \<Rightarrow>
          if int (length b) < sint n then Inr (Inl (ExpectedLength (sint n)))
          else if sint n < 0 then Inl PanicIndex
          else Inr (Inr (drop (nat (sint n)) b, take (nat (sint n)) b)))"

section \<open>Reversing bits a word at a time\<close>

lemma be_NOT: "n \<le> 8 \<Longrightarrow> be n (NOT w) = map NOT (be n w)"
  unfolding be_def map_map comp_def by (rule map_cong) (auto intro!: bit_word_eqI simp: bit_simps)

lemma be_be_dec: "length bs \<le> 8 \<Longrightarrow> be (length bs) (be_dec 0 bs) = bs"
proof -
  assume len: "length bs \<le> 8"
  have "be_val (be (length bs) (be_dec 0 bs)) = be_val bs"
  proof -
    have "256 ^ length bs dvd (2 :: nat) ^ 64" using len le_imp_power_dvd [of "8 * length bs" 64 "2 :: nat"] by (simp add: power_mult)
    then have "be_val (be (length bs) (be_dec 0 bs)) = be_val bs mod 256 ^ length bs"
      by (simp add: be_val_be unat_be_dec mod_mod_cancel)
    then show ?thesis using be_val_less [of bs] by simp
  qed
  then have "bytes_compare (be (length bs) (be_dec 0 bs)) bs \<noteq> - 1" "bytes_compare bs (be (length bs) (be_dec 0 bs)) \<noteq> - 1"
    by (simp_all add: bytes_compare_be_val)
  then show ?thesis
    using bytes_compare_range [of "be (length bs) (be_dec 0 bs)" bs] bytes_compare_swap [of bs "be (length bs) (be_dec 0 bs)"]
    by auto
qed

lemma reverse_words_eq: "w * wordSize \<le> length b \<Longrightarrow> reverse_words w b = map NOT (take (w * wordSize) b) @ drop (w * wordSize) b"
proof (induction w arbitrary: b)
  case (Suc w)
  let ?c = "take wordSize b"
  have len: "length ?c = 8" using Suc.prems by (simp add: wordSize_def)
  have "store_word (NOT (load_word ?c)) = rev (map NOT (be 8 (be_dec 0 (rev ?c))))"
    by (simp add: store_word_def load_word_def be_NOT)
  also have "be 8 (be_dec 0 (rev ?c)) = rev ?c" using be_be_dec [of "rev ?c"] len by simp
  finally have "store_word (NOT (load_word ?c)) = map NOT ?c" by (simp add: rev_map)
  moreover have "reverse_words w (drop wordSize b) = map NOT (take (w * wordSize) (drop wordSize b)) @ drop (w * wordSize) (drop wordSize b)"
    using Suc.prems by (intro Suc.IH) simp
  ultimately show ?case by (simp add: take_add add.commute)
qed simp

text \<open>
  C37: reversing the bits of a byte string a machine word at a time gives the same as reversing them byte by byte,
  for strings of every length.
\<close>

theorem fastReverseBytes_eq: "fastReverseBytes b = safeReverseBytes b"
proof -
  have "length b div wordSize * wordSize \<le> length b" by simp
  from reverse_words_eq [OF this] show ?thesis
    by (simp add: fastReverseBytes_def safeReverseBytes_def Let_def flip: map_append)
qed

lemma reverseBytes_eq [simp]: "reverseBytes supportsUnaligned b = map NOT b"
proof -
  have "length b div wordSize * wordSize \<le> length b" by simp
  from reverse_words_eq [OF this] have "fastReverseBytes b = map NOT b"
    by (simp add: fastReverseBytes_def Let_def flip: map_append)
  then show ?thesis by (simp add: reverseBytes_def safeReverseBytes_def)
qed

section \<open>The order of groups\<close>

text \<open>The first \<open>n\<close> bytes of a string, with zeros after its end.\<close>

fun zpad :: "nat \<Rightarrow> bytes \<Rightarrow> bytes" where
  "zpad 0 d = []"
| "zpad (Suc n) [] = 0 # zpad n []"
| "zpad (Suc n) (a # d) = a # zpad n d"

lemma zpad_short: "length d \<le> n \<Longrightarrow> zpad n d = d @ replicate (n - length d) 0"
  by (induction n d rule: zpad.induct) auto

lemma zpad_long: "n \<le> length d \<Longrightarrow> zpad n d = take n d"
  by (induction n d rule: zpad.induct) auto

lemma length_zpad [simp]: "length (zpad n d) = n"
  by (induction n d rule: zpad.induct) auto

definition marker :: "nat \<Rightarrow> byte" where
  "marker k = of_nat (247 + k)"

lemma unat_marker: "k \<le> 8 \<Longrightarrow> unat (marker k) = 247 + k"
  unfolding marker_def by (rule unat_byte) simp

lemma marker_eq: "encMarker - (8 - of_nat k) = marker k" "encMarker - marker k = 8 - of_nat k" "marker 8 = encMarker"
  by (simp_all add: marker_def encMarker_def)

lemma encode_groups_eq:
  "encode_groups d = zpad 8 d @ marker (min 8 (length d)) # (if 8 \<le> length d then encode_groups (drop 8 d) else [])"
  by (subst encode_groups.simps)
    (simp add: Let_def encGroupSize_def encPad_def zpad_long zpad_short marker_eq)

lemma zpad_less:
  assumes "bytes_compare d e = - 1"
  shows "bytes_compare (zpad n d) (zpad n e) = - 1 \<or>
    zpad n d = zpad n e \<and> (min n (length d) < min n (length e) \<or>
      n \<le> length d \<and> n \<le> length e \<and> bytes_compare (drop n d) (drop n e) = - 1)"
  using assms
proof (induction n arbitrary: d e)
  case (Suc n)
  show ?case
  proof (cases d)
    case Nil
    then obtain b e' where e: "e = b # e'" using Suc.prems by (cases e) auto
    have "bytes_compare (zpad n []) (zpad n e') = - 1 \<or> zpad n [] = zpad n e'"
      using Suc.IH [of "[]" e'] by (cases e') auto
    then show ?thesis using Nil e by (cases "b = 0") (auto simp: word_gt_0)
  next
    case (Cons a d')
    then obtain b e' where e: "e = b # e'" using Suc.prems by (cases e) auto
    have "a < b \<or> a = b \<and> bytes_compare d' e' = - 1" using Suc.prems Cons e by (auto split: if_splits)
    then show ?thesis using Suc.IH [of d' e'] Cons e by auto
  qed
qed simp

lemma encode_groups_order:
  "bytes_compare d e = - 1 \<Longrightarrow> bytes_compare (encode_groups d @ x) (encode_groups e @ y) = - 1"
proof (induction d arbitrary: e rule: encode_groups.induct)
  case (1 d)
  consider "bytes_compare (zpad 8 d) (zpad 8 e) = - 1"
    | "zpad 8 d = zpad 8 e" "min 8 (length d) < min 8 (length e)"
    | "zpad 8 d = zpad 8 e" "8 \<le> length d" "8 \<le> length e" "bytes_compare (drop 8 d) (drop 8 e) = - 1"
    using zpad_less [OF 1(2), of 8] by blast
  then show ?case
  proof cases
    case 1
    then show ?thesis
      by (subst (1 2) encode_groups_eq) (simp add: bytes_compare_less_append)
  next
    case 2
    then have "marker (min 8 (length d)) < marker (min 8 (length e))" by (simp add: word_less_nat_alt unat_marker)
    with 2(1) show ?thesis by (subst (1 2) encode_groups_eq) simp
  next
    case 3
    have "bytes_compare (encode_groups (drop 8 d) @ x) (encode_groups (drop 8 e) @ y) = - 1"
      using 1(1) [of "length d" "drop 8 e"] 3(2,4) by (simp add: encGroupSize_def)
    with 3 show ?thesis by (subst (1 2) encode_groups_eq) simp
  qed
qed

lemma decode_groups_encode: "decode_groups False acc (encode_groups d @ rest) = Inr (rest, acc @ d)"
proof (induction d arbitrary: acc rule: encode_groups.induct)
  case (1 d)
  show ?case
  proof (cases "8 \<le> length d")
    case True
    then show ?thesis using 1 [of "length d"]
      by (subst encode_groups_eq, subst decode_groups.simps)
        (simp add: Let_def encGroupSize_def encPad_def zpad_long marker_eq nth_append)
  next
    case False
    then have pad: "8 - of_nat (length d) = (of_nat (8 - length d) :: byte)" by (simp add: of_nat_diff)
    have "unat (8 - of_nat (length d) :: byte) = 8 - length d" unfolding pad by (rule unat_byte) simp
    moreover from this False have "8 - of_nat (length d) \<noteq> (0 :: byte)" by auto
    ultimately show ?thesis using False
      by (subst encode_groups_eq, subst decode_groups.simps)
        (simp add: Let_def encGroupSize_def encPad_def zpad_short marker_eq nth_append word_less_nat_alt)
  qed
qed

interpretation bytes_codec: memcomparable "EncodeBytes []" "DecodeBytes supportsUnaligned" "\<lambda>d e. bytes_compare d e = - 1"
  by unfold_locales (simp_all add: EncodeBytes_def DecodeBytes_def decodeBytes_def decode_groups_encode encode_groups_order)

text \<open>Reversing all bits reverses an order that does not depend on what follows.\<close>

lemma reversed_order:
  assumes "\<And>x y. bytes_compare (s @ x) (t @ y) = - 1"
  shows "bytes_compare (map NOT t @ x) (map NOT s @ y) = - 1"
  using assms
proof (induction s arbitrary: t)
  case Nil
  have "bytes_compare (t @ [0]) t = 1" by (induction t) simp_all
  then show ?case using Nil [of "t @ [0]" "[]"] by simp
next
  case (Cons a s)
  show ?case
  proof (cases t)
    case Nil
    then show ?thesis using Cons.prems [of "[]" "[]"] by simp
  next
    case (Cons b t')
    have "a < b \<or> a = b" using Cons.prems [of "[]" "[]"] Cons by (auto split: if_splits)
    then show ?thesis
    proof
      assume "a = b"
      then have "bytes_compare (s @ x) (t' @ y) = - 1" for x y using Cons.prems [of x y] Cons by simp
      from Cons.IH [OF this] show ?thesis using Cons \<open>a = b\<close> by simp
    qed (simp add: Cons not_less_not)
  qed
qed

lemma decode_groups_desc: "decode_groups True acc (map NOT (encode_groups d) @ rest) = Inr (rest, acc @ map NOT d)"
proof (induction d arbitrary: acc rule: encode_groups.induct)
  case (1 d)
  have not_marker: "NOT (marker k) = 8 - of_nat k" "encMarker = - 1" for k
    by (simp_all add: marker_def encMarker_def not_eq_complement)
  show ?case
  proof (cases "8 \<le> length d")
    case True
    have "map NOT (take 8 d) @ map NOT (drop 8 d) = map NOT d" by (simp flip: map_append)
    then show ?thesis using 1 [of "length d"] True
      by (subst encode_groups_eq, subst decode_groups.simps)
        (simp add: Let_def encGroupSize_def encPad_def zpad_long marker_eq nth_append not_marker take_map drop_map)
  next
    case False
    then have pad: "8 - of_nat (length d) = (of_nat (8 - length d) :: byte)" by (simp add: of_nat_diff)
    have "unat (8 - of_nat (length d) :: byte) = 8 - length d" unfolding pad by (rule unat_byte) simp
    moreover from this False have "8 - of_nat (length d) \<noteq> (0 :: byte)" by auto
    ultimately show ?thesis using False
      by (subst encode_groups_eq, subst decode_groups.simps)
        (simp add: Let_def encGroupSize_def encPad_def zpad_short nth_append word_less_nat_alt not_marker)
  qed
qed

interpretation bytes_desc_codec: memcomparable "EncodeBytesDesc supportsUnaligned []" "DecodeBytesDesc supportsUnaligned"
  "\<lambda>d e. bytes_compare e d = - 1"
  by unfold_locales
    (simp_all add: EncodeBytesDesc_def EncodeBytes_def DecodeBytesDesc_def decodeBytes_def decode_groups_desc
      reversed_order encode_groups_order comp_def)

text \<open>
  C17: the grouped encoding of byte strings is order preserving: comparing encoded tuples of strings is comparing the
  tuples column by column, although the strings have any lengths and any bytes, zeros included.
\<close>

theorem EncodeBytes_ordered:
  assumes "length us = length vs" "(us, vs) \<in> lex {(d, e). bytes_compare d e = - 1}"
  shows "bytes_compare (concat (map (EncodeBytes []) us)) (concat (map (EncodeBytes []) vs)) = - 1"
  using bytes_codec.order_tuple [OF assms, of "[]" "[]"] by simp

theorem EncodeBytes_ordered_witness:
  "bytes_compare (concat (map (EncodeBytes []) [[1], [7]])) (concat (map (EncodeBytes []) [[1, 0], []])) = - 1"
  by (rule EncodeBytes_ordered) simp_all

text \<open>
  C18: what is encoded with \<open>EncodeBytes\<close> or \<open>EncodeBytesDesc\<close> is decoded to itself, and what follows is left.
\<close>

theorem DecodeBytes_EncodeBytes:
  "DecodeBytes supportsUnaligned (EncodeBytes [] d @ rest) = Inr (rest, d) \<and>
   DecodeBytesDesc supportsUnaligned (EncodeBytesDesc supportsUnaligned [] d @ rest) = Inr (rest, d)"
  using bytes_codec.roundtrip bytes_desc_codec.roundtrip by blast

lemma DecodeCompactBytes_Encode:
  assumes "length d < 2 ^ 63"
  shows "DecodeCompactBytes (EncodeCompactBytes [] d @ rest) = Inr (Inr (rest, d))"
proof -
  have "sint (of_nat (length d) :: int64) = int (length d)"
    using assms by (simp add: signed_of_nat signed_take_bit_int_eq_self)
  then show ?thesis
    using DecodeVarint_Encode [of "of_nat (length d)" "d @ rest"] by (simp add: DecodeCompactBytes_def EncodeCompactBytes_def)
qed

text \<open>A negative length is not rejected: the slice expression panics.\<close>

theorem DecodeCompactBytes_negative_panics: "DecodeCompactBytes (EncodeVarint [] (- 1)) = Inl PanicIndex"
  using DecodeVarint_Encode [of "- 1" "[]"] by (simp add: DecodeCompactBytes_def)

end
