(* ===== verification/SqlOverflow.thy ===== *)
theory SqlOverflow
  imports Prelude
begin

text \<open>
  Integer arithmetic of the SQL layer with detection of overflow (\<^verbatim>\<open>sql/util/types/overflow.go\<close>), on 64 bit words
  that are read as signed or unsigned numbers. The reference is exact arithmetic followed by a range check.
\<close>

datatype arith_error = ErrArithOverflow

type_synonym uint64 = "64 word"
type_synonym 'a checked = "arith_error + 'a"

definition MaxUint64 :: uint64 where
  "MaxUint64 = 0xFFFFFFFFFFFFFFFF"

definition MaxInt64 :: int64 where
  "MaxInt64 = 0x7FFFFFFFFFFFFFFF"

definition MinInt64 :: int64 where
  "MinInt64 = - 0x8000000000000000"

section \<open>Addition and subtraction\<close>

definition AddUint64 :: "uint64 \<Rightarrow> uint64 \<Rightarrow> uint64 checked" where
  "AddUint64 a b = (if MaxUint64 - a < b then Inl ErrArithOverflow else Inr (a + b))"

definition AddInt64 :: "int64 \<Rightarrow> int64 \<Rightarrow> int64 checked" where
  "AddInt64 a b =
     (if (0 <s a \<and> 0 <s b \<and> MaxInt64 - a <s b) \<or> (a <s 0 \<and> b <s 0 \<and> b <s MinInt64 - a)
      then Inl ErrArithOverflow else Inr (a + b))"

definition AddInteger :: "uint64 \<Rightarrow> int64 \<Rightarrow> uint64 checked" where
  "AddInteger a b =
     (if 0 \<le>s b then AddUint64 a b else if a < - b then Inl ErrArithOverflow else Inr (a - (- b)))"

definition SubUint64 :: "uint64 \<Rightarrow> uint64 \<Rightarrow> uint64 checked" where
  "SubUint64 a b = (if a < b then Inl ErrArithOverflow else Inr (a - b))"

definition SubInt64 :: "int64 \<Rightarrow> int64 \<Rightarrow> int64 checked" where
  "SubInt64 a b =
     (if (0 <s a \<and> b <s 0 \<and> MaxInt64 - a <s - b) \<or> (a <s 0 \<and> 0 <s b \<and> - b <s MinInt64 - a) \<or> (a = 0 \<and> b = MinInt64)
      then Inl ErrArithOverflow else Inr (a - b))"

definition SubUintWithInt :: "uint64 \<Rightarrow> int64 \<Rightarrow> uint64 checked" where
  "SubUintWithInt a b = (if b <s 0 then AddUint64 a (- b) else SubUint64 a b)"

definition SubIntWithUint :: "int64 \<Rightarrow> uint64 \<Rightarrow> uint64 checked" where
  "SubIntWithUint a b = (if a <s 0 \<or> a < b then Inl ErrArithOverflow else Inr (a - b))"

section \<open>Multiplication\<close>

definition MulUint64 :: "uint64 \<Rightarrow> uint64 \<Rightarrow> uint64 checked" where
  "MulUint64 a b = (if 0 < b \<and> MaxUint64 div b < a then Inl ErrArithOverflow else Inr (a * b))"

definition MulInt64 :: "int64 \<Rightarrow> int64 \<Rightarrow> int64 checked" where
  "MulInt64 a b =
     (if a = 0 \<or> b = 0 then Inr 0
      else
        let (negative, res) =
          (if 0 <s a \<and> 0 <s b then (False, MulUint64 a b)
           else if a <s 0 \<and> b <s 0 then (False, MulUint64 (- a) (- b))
           else if a <s 0 \<and> 0 <s b then (True, MulUint64 (- a) b)
           else (True, MulUint64 a (- b)))
        in case res of
             Inl err \<Rightarrow> Inl err
           | Inr res \<Rightarrow>
               if negative then (if MaxInt64 + 1 < res then Inl ErrArithOverflow else Inr (- res))
               else if MaxInt64 < res then Inl ErrArithOverflow else Inr res)"

definition MulInteger :: "uint64 \<Rightarrow> int64 \<Rightarrow> uint64 checked" where
  "MulInteger a b =
     (if a = 0 \<or> b = 0 then Inr 0 else if b <s 0 then Inl ErrArithOverflow else MulUint64 a b)"

section \<open>Division\<close>

text \<open>Go's division of signed numbers truncates; division by zero panics.\<close>

definition sdiv64 :: "int64 \<Rightarrow> int64 \<Rightarrow> int64 go" where
  "sdiv64 a b =
     (if b = 0 then Inl PanicDivide
      else Inr (word_of_int (sgn (sint a) * sgn (sint b) * (\<bar>sint a\<bar> div \<bar>sint b\<bar>))))"

definition udiv64 :: "uint64 \<Rightarrow> uint64 \<Rightarrow> uint64 go" where
  "udiv64 a b = (if b = 0 then Inl PanicDivide else Inr (a div b))"

definition DivInt64 :: "int64 \<Rightarrow> int64 \<Rightarrow> int64 checked go" where
  "DivInt64 a b = (if a = MinInt64 \<and> b = - 1 then Inr (Inl ErrArithOverflow) else gbind (sdiv64 a b) (\<lambda>q. Inr (Inr q)))"

definition DivUintWithInt :: "uint64 \<Rightarrow> int64 \<Rightarrow> uint64 checked go" where
  "DivUintWithInt a b =
     (if b <s 0 then Inr (if a \<noteq> 0 \<and> - b \<le> a then Inl ErrArithOverflow else Inr 0)
      else gbind (udiv64 a b) (\<lambda>q. Inr (Inr q)))"

definition DivIntWithUint :: "int64 \<Rightarrow> uint64 \<Rightarrow> uint64 checked go" where
  "DivIntWithUint a b =
     (if a <s 0 then Inr (if b \<le> - a then Inl ErrArithOverflow else Inr 0)
      else gbind (udiv64 a b) (\<lambda>q. Inr (Inr q)))"

section \<open>The reference: exact arithmetic and a range check\<close>

definition checked_int :: "int \<Rightarrow> int64 checked" where
  "checked_int z = (if - (2 ^ 63) \<le> z \<and> z < 2 ^ 63 then Inr (word_of_int z) else Inl ErrArithOverflow)"

definition checked_uint :: "int \<Rightarrow> uint64 checked" where
  "checked_uint z = (if 0 \<le> z \<and> z < 2 ^ 64 then Inr (word_of_int z) else Inl ErrArithOverflow)"

lemma uint_range: "0 \<le> uint (a :: uint64)" "uint (a :: uint64) < 2 ^ 64"
  using unsigned_less [of a, where 'a = int] by simp_all

lemma uint_sint_cases: "uint (a :: int64) = (if 0 \<le> sint a then sint a else sint a + 2 ^ 64)"
proof -
  have "uint a = sint a mod 2 ^ 64" by (simp add: uint_sint take_bit_eq_mod)
  also have "\<dots> = (if 0 \<le> sint a then sint a else sint a + 2 ^ 64)"
  proof (cases "0 \<le> sint a")
    case True
    then show ?thesis using sint_range [of a] by simp
  next
    case False
    have "sint a mod 2 ^ 64 = (sint a + 2 ^ 64) mod 2 ^ 64" by simp
    also have "\<dots> = sint a + 2 ^ 64" using False sint_range [of a] by (intro mod_pos_pos_trivial) simp_all
    finally show ?thesis using False by simp
  qed
  finally show ?thesis .
qed

lemma uint_minus_neg: "sint (b :: int64) < 0 \<Longrightarrow> uint (- b) = - sint b"
proof -
  assume b: "sint b < 0"
  have "uint (- b) = - uint b mod 2 ^ 64" by (simp add: uint_word_ariths)
  also have "\<dots> = (- sint b) mod 2 ^ 64" using b by (simp add: uint_sint_cases)
  also have "\<dots> = - sint b" using b sint_range [of b] by (intro mod_pos_pos_trivial) simp_all
  finally show ?thesis .
qed

lemma sint_MaxInt64: "sint MaxInt64 = 2 ^ 63 - 1" "sint MinInt64 = - (2 ^ 63)" "uint MaxUint64 = 2 ^ 64 - 1"
  "uint MaxInt64 = 2 ^ 63 - 1"
  by (simp_all add: MaxInt64_def MinInt64_def MaxUint64_def)

lemma word_of_uint: "a + b = (word_of_int (uint a + uint b) :: uint64)" "a - b = (word_of_int (uint a - uint b) :: uint64)"
  "a * b = (word_of_int (uint a * uint b) :: uint64)"
  by simp_all

lemma sint_gt_Min: "b \<noteq> MinInt64 \<Longrightarrow> - (2 ^ 63) < sint (b :: int64)"
  using sint_range(1) [of b] by (metis sint_MaxInt64(2) of_int_sint scast_id order_le_less)

lemma sint_uminus_range: "b \<noteq> MinInt64 \<Longrightarrow> sint (- b) = - sint (b :: int64)"
  using sint_range [of b] sint_gt_Min [of b] by (subst word_of_sint, intro sint_eq_range) simp_all

lemma sint_0_iff: "sint (a :: int64) = 0 \<longleftrightarrow> a = 0"
  by (rule signed_eq_0_iff)

lemma uint_minus_range: "uint b \<le> uint a \<Longrightarrow> uint (a - b) = uint (a :: uint64) - uint b"
  by (simp add: uint_sub_if')

lemma uint_Max_minus: "uint (MaxUint64 - a) = 2 ^ 64 - 1 - uint (a :: uint64)"
  using uint_range(2) [of a] by (simp add: uint_minus_range sint_MaxInt64)

lemma AddUint64_exact: "AddUint64 a b = checked_uint (uint a + uint b)"
  using uint_range(1) [of a] uint_range(1) [of b]
  by (simp add: AddUint64_def checked_uint_def word_less_def uint_Max_minus)

lemma SubUint64_exact: "SubUint64 a b = checked_uint (uint a - uint b)"
proof -
  have "uint a - uint b < 2 ^ 64" using uint_range(2) [of a] uint_range(1) [of b] by linarith
  then show ?thesis by (auto simp: SubUint64_def checked_uint_def word_less_def)
qed

lemma AddInt64_exact: "AddInt64 a b = checked_int (sint a + sint b)"
proof -
  have "0 < sint a \<Longrightarrow> sint (MaxInt64 - a) = 2 ^ 63 - 1 - sint a"
    using sint_range [of a] by (subst sint_minus_range) (simp_all add: sint_MaxInt64)
  moreover have "sint a < 0 \<Longrightarrow> sint (MinInt64 - a) = - (2 ^ 63) - sint a"
    using sint_range [of a] by (subst sint_minus_range) (simp_all add: sint_MaxInt64)
  ultimately show ?thesis
    using sint_range [of a] sint_range [of b]
    by (auto simp: AddInt64_def checked_int_def word_sless_alt scast_id)
qed

lemma uint_word_of_sint: "0 \<le> sint b \<Longrightarrow> uint (b :: int64) = sint b"
  by (simp add: uint_sint_cases)

lemma AddInteger_exact: "AddInteger a b = checked_uint (uint a + sint b)"
proof (cases "0 \<le> sint b")
  case True
  then show ?thesis by (simp add: AddInteger_def AddUint64_exact word_sle_eq uint_word_of_sint)
next
  case False
  then show ?thesis
    using uint_range [of a]
    by (auto simp: AddInteger_def checked_uint_def word_sle_eq word_less_def uint_minus_neg scast_id)
qed

lemma SubUintWithInt_exact: "SubUintWithInt a b = checked_uint (uint a - sint b)"
proof (cases "0 \<le> sint b")
  case True
  then show ?thesis by (simp add: SubUintWithInt_def SubUint64_exact word_sless_alt uint_word_of_sint)
next
  case False
  then show ?thesis by (simp add: SubUintWithInt_def AddUint64_exact word_sless_alt uint_minus_neg)
qed

lemma SubIntWithUint_exact: "SubIntWithUint a b = checked_uint (sint a - uint b)"
proof -
  have "sint a < 2 ^ 64" using sint_range(2) [of a] by simp
  then have "sint a - uint b < 2 ^ 64" using uint_range(1) [of b] by linarith
  moreover have "sint a < 0 \<Longrightarrow> sint a < uint b" using uint_range(1) [of b] by linarith
  ultimately show ?thesis
    by (auto simp: SubIntWithUint_def checked_uint_def word_sless_alt word_less_def uint_sint_cases scast_id)
qed

lemma SubInt64_exact:
  assumes "\<not> (0 <s a \<and> b = MinInt64)"
  shows "SubInt64 a b = checked_int (sint a - sint b)"
proof (cases "b = MinInt64")
  case True
  then have "a <s 0 \<or> a = 0" using assms by (metis sint_0_iff signed.linorder_cases)
  then show ?thesis
    using True sint_range [of a]
    by (auto simp: SubInt64_def checked_int_def word_sless_alt sint_MaxInt64 scast_id MinInt64_def)
next
  case False
  have "0 < sint a \<Longrightarrow> sint (MaxInt64 - a) = 2 ^ 63 - 1 - sint a"
    using sint_range [of a] by (subst sint_minus_range) (simp_all add: sint_MaxInt64)
  moreover have "sint a < 0 \<Longrightarrow> sint (MinInt64 - a) = - (2 ^ 63) - sint a"
    using sint_range [of a] by (subst sint_minus_range) (simp_all add: sint_MaxInt64)
  ultimately show ?thesis
    using sint_range [of a] sint_range(2) [of b] sint_gt_Min [OF False] False
    by (auto simp: SubInt64_def checked_int_def word_sless_alt scast_id sint_uminus_range)
qed

lemma int_div_less_iff: "m div q < k \<longleftrightarrow> m < k * q" if "0 < q" for m q k :: int
proof -
  have "k \<le> m div q \<longleftrightarrow> k * q \<le> m"
  proof
    assume "k \<le> m div q"
    then have "k * q \<le> m div q * q" using that by simp
    also have "\<dots> \<le> m" using that by (simp add: minus_mod_eq_div_mult [symmetric])
    finally show "k * q \<le> m" .
  next
    assume "k * q \<le> m"
    then have "k * q div q \<le> m div q" using that by (rule zdiv_mono1)
    then show "k \<le> m div q" using that by simp
  qed
  then show ?thesis by linarith
qed

lemma MulUint64_exact: "MulUint64 a b = checked_uint (uint a * uint b)"
proof -
  have "uint (MaxUint64 div b) < uint a \<longleftrightarrow> 2 ^ 64 \<le> uint a * uint b" if "0 < b"
  proof -
    have b: "0 < uint b" using that by (simp add: word_less_def)
    have "(2 ^ 64 - 1) div uint b < uint a \<longleftrightarrow> 2 ^ 64 - 1 < uint a * uint b"
      using b by (rule int_div_less_iff)
    also have "\<dots> \<longleftrightarrow> 2 ^ 64 \<le> uint a * uint b" by linarith
    finally show ?thesis by (simp add: uint_div_distrib sint_MaxInt64)
  qed
  then show ?thesis
    using word_gt_0 [of b]
    by (cases "b = 0") (auto simp: MulUint64_def checked_uint_def word_less_def)
qed

lemma MulInteger_exact: "MulInteger a b = checked_uint (uint a * sint b)"
proof -
  consider "a = 0 \<or> b = 0" | "a \<noteq> 0" "sint b < 0" | "a \<noteq> 0" "b \<noteq> 0" "0 < sint b"
    using sint_0_iff [of b] by linarith
  then show ?thesis
  proof cases
    case 2
    have "0 < uint a" using 2 word_gt_0 [of a] by (simp add: word_less_def)
    then have "uint a * sint b < 0" using 2 by (intro mult_pos_neg)
    then show ?thesis using 2 by (auto simp: MulInteger_def checked_uint_def word_sless_alt)
  qed (auto simp: MulInteger_def MulUint64_exact word_sless_alt uint_word_of_sint checked_uint_def)
qed

lemma MulInt64_mags:
  assumes "a \<noteq> 0" "b \<noteq> 0"
  shows "MulInt64 a b =
    (case checked_uint \<bar>sint a * sint b\<bar> of
       Inl err \<Rightarrow> Inl err
     | Inr res \<Rightarrow>
         if sint a * sint b < 0 then (if MaxInt64 + 1 < res then Inl ErrArithOverflow else Inr (- res))
         else if MaxInt64 < res then Inl ErrArithOverflow else Inr res)"
proof -
  consider "0 < sint a" "0 < sint b" | "sint a < 0" "sint b < 0" | "sint a < 0" "0 < sint b" | "0 < sint a" "sint b < 0"
    using assms sint_0_iff [of a] sint_0_iff [of b] by linarith
  then show ?thesis
    by cases
      (use assms in \<open>simp_all add: MulInt64_def word_sless_alt MulUint64_exact uint_word_of_sint uint_minus_neg
         mult_less_0_iff abs_mult cong del: sum.case_cong_weak\<close>)
qed

lemma MulInt64_exact: "MulInt64 a b = checked_int (sint a * sint b)"
proof (cases "a = 0 \<or> b = 0")
  case True
  then show ?thesis by (auto simp: MulInt64_def checked_int_def)
next
  case False
  define p where "p = sint a * sint b"
  have r: "uint (word_of_int \<bar>p\<bar> :: uint64) = \<bar>p\<bar>" if "\<bar>p\<bar> < 2 ^ 64"
    using that by (simp add: unsigned_of_int take_bit_int_eq_self)
  have "uint (MaxInt64 + 1) = 2 ^ 63" by (simp add: MaxInt64_def)
  moreover have "- (word_of_int \<bar>p\<bar> :: uint64) = word_of_int p" if "p < 0" using that by simp
  ultimately show ?thesis
    using False r unfolding MulInt64_mags [OF conjunct1 conjunct2, OF False [unfolded de_Morgan_disj] False [unfolded de_Morgan_disj]] p_def [symmetric]
    by (auto simp: checked_uint_def checked_int_def word_less_def sint_MaxInt64)
qed

text \<open>The truncated quotient.\<close>

lemma zdiv_le_dividend: "0 \<le> m \<Longrightarrow> 0 < q \<Longrightarrow> m div q \<le> m" for m q :: int
  using zdiv_mono2 [of m 1 q] by simp

lemma abs_tquot: "y \<noteq> 0 \<Longrightarrow> \<bar>tquot x y\<bar> = \<bar>x\<bar> div \<bar>y\<bar>"
  by (cases "x = 0") (simp_all add: tquot_def abs_mult pos_imp_zdiv_nonneg_iff)

lemma abs_tquot_le: "y \<noteq> 0 \<Longrightarrow> \<bar>tquot x y\<bar> \<le> \<bar>x\<bar>"
  by (simp add: abs_tquot zdiv_le_dividend)

lemma tquot_half: "y \<noteq> 0 \<Longrightarrow> y \<noteq> 1 \<Longrightarrow> y \<noteq> - 1 \<Longrightarrow> \<bar>tquot x y\<bar> * 2 \<le> \<bar>x\<bar>"
proof -
  assume y: "y \<noteq> 0" "y \<noteq> 1" "y \<noteq> - 1"
  then have "2 \<le> \<bar>y\<bar>" by linarith
  then have "\<bar>x\<bar> div \<bar>y\<bar> \<le> \<bar>x\<bar> div 2" by (intro zdiv_mono2) simp_all
  then show ?thesis using y by (simp add: abs_tquot)
qed

lemma DivInt64_exact:
  assumes "b \<noteq> 0"
  shows "DivInt64 a b = Inr (checked_int (tquot (sint a) (sint b)))"
proof (cases "a = MinInt64 \<and> b = - 1")
  case True
  then show ?thesis by (simp add: DivInt64_def checked_int_def tquot_def sint_MaxInt64)
next
  case False
  have b: "sint b \<noteq> 0" using assms by (simp add: sint_0_iff)
  have "- (2 ^ 63) \<le> tquot (sint a) (sint b) \<and> tquot (sint a) (sint b) < 2 ^ 63"
  proof (cases "a = MinInt64")
    case False
    then show ?thesis using abs_tquot_le [OF b, of "sint a"] sint_gt_Min [OF False] sint_range(2) [of a] by linarith
  next
    case True
    then have "sint b \<noteq> - 1" using \<open>\<not> (a = MinInt64 \<and> b = - 1)\<close> by (metis of_int_sint scast_id of_int_minus of_int_1)
    then show ?thesis
      using True b tquot_half [of "sint b" "sint a"]
      by (cases "sint b = 1") (auto simp: sint_MaxInt64 tquot_def)
  qed
  then show ?thesis using False assms by (auto simp: DivInt64_def sdiv64_def checked_int_def tquot_def)
qed

lemma DivUintWithInt_exact:
  assumes "b \<noteq> 0"
  shows "DivUintWithInt a b = Inr (checked_uint (tquot (uint a) (sint b)))"
proof (cases "sint b < 0")
  case True
  have "uint a < - sint b \<Longrightarrow> uint a div - sint b = 0" by simp
  moreover have "- sint b \<le> uint a \<Longrightarrow> 0 < uint a div - sint b" using True by (simp add: pos_imp_zdiv_pos_iff)
  moreover have "- sint b \<le> uint a \<Longrightarrow> a \<noteq> 0" "- sint b \<le> uint a \<Longrightarrow> 0 < uint a" using True by auto
  ultimately show ?thesis using True
    by (auto simp: DivUintWithInt_def checked_uint_def tquot_def word_sless_alt word_le_def uint_minus_neg not_le)
next
  case False
  then have b: "0 < sint b" using assms sint_0_iff [of b] by linarith
  have "uint a div sint b \<le> uint a" using b by (intro zdiv_le_dividend) simp_all
  then have "tquot (uint a) (sint b) = uint a div sint b" "uint a div sint b < 2 ^ 64" "0 \<le> uint a div sint b"
    using b uint_range [of a] by (auto simp: tquot_def sgn_if pos_imp_zdiv_nonneg_iff)
  then show ?thesis using False assms
    by (simp add: DivUintWithInt_def udiv64_def checked_uint_def word_sless_alt word_div_def uint_word_of_sint)
qed

lemma DivIntWithUint_exact:
  assumes "b \<noteq> 0"
  shows "DivIntWithUint a b = Inr (checked_uint (tquot (sint a) (uint b)))"
proof -
  have b: "0 < uint b" using assms word_gt_0 [of b] by (simp add: word_less_def)
  show ?thesis
  proof (cases "sint a < 0")
    case True
    have "- sint a < uint b \<Longrightarrow> - sint a div uint b = 0" using True by simp
    moreover have "uint b \<le> - sint a \<Longrightarrow> 0 < - sint a div uint b" using b by (simp add: pos_imp_zdiv_pos_iff)
    ultimately show ?thesis using True b
      by (auto simp: DivIntWithUint_def checked_uint_def tquot_def word_sless_alt word_le_def uint_minus_neg not_le)
  next
    case False
    have "sint a div uint b \<le> sint a" using b False by (intro zdiv_le_dividend) simp_all
    then have "tquot (sint a) (uint b) = sint a div uint b" "sint a div uint b < 2 ^ 64" "0 \<le> sint a div uint b"
      using b False sint_range(2) [of a] by (auto simp: tquot_def sgn_if pos_imp_zdiv_nonneg_iff)
    then show ?thesis using False assms
      by (simp add: DivIntWithUint_def udiv64_def checked_uint_def word_sless_alt word_div_def uint_word_of_sint)
  qed
qed

section \<open>Properties\<close>


text \<open>
  For a divisor other than zero the three divisions return the truncated quotient when it fits, else the
  overflow error, and never panic.
\<close>

theorem division_exact:
  assumes "b \<noteq> 0"
  shows "DivInt64 a b = Inr (checked_int (tquot (sint a) (sint b))) \<and>
    DivUintWithInt a b = Inr (checked_uint (tquot (uint a) (sint b))) \<and>
    DivIntWithUint a b = Inr (checked_uint (tquot (sint a) (uint b)))"
  using assms by (simp add: DivInt64_exact DivUintWithInt_exact DivIntWithUint_exact)

theorem division_exact_witness:
  "DivInt64 (- 7) 2 = Inr (Inr (- 3)) \<and> DivUintWithInt 7 2 = Inr (Inr 3) \<and> DivIntWithUint (- 7) 2 = Inr (Inl ErrArithOverflow)"
  using division_exact [of 2 "- 7"] division_exact [of 2 7] by (simp add: checked_int_def checked_uint_def tquot_def)

text \<open>
  The subtraction of signed numbers misses one overflow: subtracting the least number from a positive one negates the
  least number, which wraps to itself, and the wrapped difference, a negative number, is returned without an error.
\<close>

theorem SubInt64_misses_overflow:
  assumes "0 <s a"
  shows "SubInt64 a MinInt64 = Inr (a + MinInt64) \<and> sint (a + MinInt64) < 0 \<and>
    checked_int (sint a - sint MinInt64) = Inl ErrArithOverflow"
proof -
  have a: "0 < sint a" using assms by (simp add: word_sless_alt)
  have neg: "- MinInt64 = MinInt64" by (simp add: MinInt64_def)
  have "a - MinInt64 = a + MinInt64" by (simp only: diff_conv_add_uminus neg)
  moreover have "sint (MaxInt64 - a) = 2 ^ 63 - 1 - sint a"
    using a sint_range [of a] by (subst sint_minus_range) (simp_all add: sint_MaxInt64)
  moreover have "sint (a + MinInt64) = sint a - 2 ^ 63"
    using a sint_range [of a] by (subst word_of_sint, subst sint_eq_range) (simp_all add: sint_MaxInt64)
  ultimately show ?thesis
    using a sint_range [of a]
    by (auto simp: SubInt64_def word_sless_alt sint_MaxInt64 checked_int_def neg)
qed

text \<open>
  The quotient of a negative and a zero number is the overflow error and not the panic the comment promises.
\<close>

theorem DivIntWithUint_zero: "DivIntWithUint a 0 = (if a <s 0 then Inr (Inl ErrArithOverflow) else Inl PanicDivide)"
  by (simp add: DivIntWithUint_def udiv64_def)

end
