(* ===== verification/SqlCalendar.thy ===== *)
theory SqlCalendar
  imports Prelude
begin

text \<open>
  Dates and times of the SQL layer (\<^verbatim>\<open>sql/util/types/mytime.go\<close>, parts of \<^verbatim>\<open>time.go\<close>): numbers of days, weeks, differences,
  and the packed form in which they are stored. An \<^verbatim>\<open>int\<close> is an integer, since the values stay far below its width; the fields of a
  time have their width, and unsigned subtraction wraps.
\<close>

unbundle bit_operations_syntax

section \<open>Times\<close>

record mysqlTime =
  mt_year :: "16 word"
  mt_month :: "8 word"
  mt_day :: "8 word"
  mt_hour :: "8 word"
  mt_minute :: "8 word"
  mt_second :: "8 word"
  mt_microsecond :: "32 word"

definition Year :: "mysqlTime \<Rightarrow> int" where
  "Year t = uint (mt_year t)"

definition Month :: "mysqlTime \<Rightarrow> int" where
  "Month t = uint (mt_month t)"

definition Day :: "mysqlTime \<Rightarrow> int" where
  "Day t = uint (mt_day t)"

definition Hour :: "mysqlTime \<Rightarrow> int" where
  "Hour t = uint (mt_hour t)"

definition Minute :: "mysqlTime \<Rightarrow> int" where
  "Minute t = uint (mt_minute t)"

definition Second :: "mysqlTime \<Rightarrow> int" where
  "Second t = uint (mt_second t)"

definition Microsecond :: "mysqlTime \<Rightarrow> int" where
  "Microsecond t = uint (mt_microsecond t)"

definition newMysqlTime :: "int \<Rightarrow> int \<Rightarrow> int \<Rightarrow> int \<Rightarrow> int \<Rightarrow> int \<Rightarrow> int \<Rightarrow> mysqlTime" where
  "newMysqlTime year month day hour minute second microsecond =
     \<lparr>mt_year = word_of_int year, mt_month = word_of_int month, mt_day = word_of_int day, mt_hour = word_of_int hour,
      mt_minute = word_of_int minute, mt_second = word_of_int second, mt_microsecond = word_of_int microsecond\<rparr>"

definition FromDate :: "int \<Rightarrow> int \<Rightarrow> int \<Rightarrow> int \<Rightarrow> int \<Rightarrow> int \<Rightarrow> int \<Rightarrow> mysqlTime" where
  "FromDate year month day hour minute second microsecond = newMysqlTime year month day hour minute second microsecond"

definition calcTimeFromSec :: "mysqlTime \<Rightarrow> int \<Rightarrow> int \<Rightarrow> mysqlTime" where
  "calcTimeFromSec to seconds microseconds =
     (let rest = trem seconds 3600 in
      to\<lparr>mt_hour := word_of_int (tquot seconds 3600), mt_minute := word_of_int (tquot rest 60),
         mt_second := word_of_int (trem rest 60), mt_microsecond := word_of_int microseconds\<rparr>)"

section \<open>Numbers of days\<close>

definition calcDaynr :: "int \<Rightarrow> int \<Rightarrow> int \<Rightarrow> int" where
  "calcDaynr year month day =
     (if year = 0 \<and> month = 0 then 0
      else
        let delsum = 365 * year + 31 * (month - 1) + day;
            (year', delsum') = (if month \<le> 2 then (year - 1, delsum) else (year, delsum - tquot (month * 4 + 23) 10));
            temp = tquot ((tquot year' 100 + 1) * 3) 4
        in delsum' + tquot year' 4 - temp)"

definition DateDiff :: "mysqlTime \<Rightarrow> mysqlTime \<Rightarrow> int" where
  "DateDiff startTime endTime =
     calcDaynr (Year startTime) (Month startTime) (Day startTime) - calcDaynr (Year endTime) (Month endTime) (Day endTime)"

definition calcDaysInYear :: "int \<Rightarrow> int" where
  "calcDaysInYear year = (if year AND 3 = 0 \<and> (trem year 100 \<noteq> 0 \<or> (trem year 400 = 0 \<and> year \<noteq> 0)) then 366 else 365)"

definition calcWeekday :: "int \<Rightarrow> bool \<Rightarrow> int" where
  "calcWeekday daynr sundayFirstDayOfWeek = trem (daynr + 5 + (if sundayFirstDayOfWeek then 1 else 0)) 7"

definition YearDay :: "mysqlTime \<Rightarrow> int" where
  "YearDay t =
     (if mt_month t = 0 \<or> mt_day t = 0 then 0 else calcDaynr (Year t) (Month t) (Day t) - calcDaynr (Year t) 1 1 + 1)"

definition u64 :: "int \<Rightarrow> int" where
  "u64 x = x mod 2 ^ 64"

function year_loop :: "int \<Rightarrow> int \<Rightarrow> int \<times> int" where
  "year_loop year dayOfYear =
     (if calcDaysInYear year < dayOfYear then year_loop (year + 1) (dayOfYear - calcDaysInYear year) else (year, dayOfYear))"
  by pat_completeness auto
termination
  by (relation "measure (\<lambda>(_, n). nat n)") (auto simp: calcDaysInYear_def split: if_splits)

definition daysInMonth :: "int list" where
  "daysInMonth = [31, 28, 31, 30, 31, 30, 31, 31, 30, 31, 30, 31]"

fun month_loop :: "int list \<Rightarrow> int \<Rightarrow> int \<Rightarrow> int \<times> int" where
  "month_loop [] month dayOfYear = (month, dayOfYear)"
| "month_loop (days # ds) month dayOfYear =
     (if dayOfYear \<le> days then (month, dayOfYear) else month_loop ds (month + 1) (dayOfYear - days))"

definition getDateFromDaynr :: "int \<Rightarrow> int \<times> int \<times> int" where
  "getDateFromDaynr daynr =
     (if daynr \<le> 365 \<or> 3652500 \<le> daynr then (0, 0, 0)
      else
        let year0 = daynr * 100 div 36525;
            temp = ((year0 - 1) div 100 + 1) * 3 div 4;
            (year, dayOfYear) = year_loop year0 (u64 (u64 (u64 (daynr - year0 * 365) - (year0 - 1) div 4) + temp));
            leap = calcDaysInYear year = 366 \<and> 31 + 28 < dayOfYear;
            dayOfYear1 = (if leap then dayOfYear - 1 else dayOfYear);
            leapDay = (if leap \<and> dayOfYear1 = 31 + 28 then 1 else 0);
            (month, rest) = month_loop daysInMonth 1 dayOfYear1
        in (year, month, rest + leapDay))"

section \<open>Weeks\<close>

definition weekBehaviourMondayFirst :: int where
  "weekBehaviourMondayFirst = 1"

definition weekBehaviourYear :: int where
  "weekBehaviourYear = 2"

definition weekBehaviourFirstWeekday :: int where
  "weekBehaviourFirstWeekday = 4"

definition week_test :: "int \<Rightarrow> int \<Rightarrow> bool" where
  "week_test v flag \<longleftrightarrow> v AND flag \<noteq> 0"

definition weekMode :: "int \<Rightarrow> int" where
  "weekMode mode =
     (let weekFormat = mode AND 7 in
      if weekFormat AND weekBehaviourMondayFirst = 0 then weekFormat XOR weekBehaviourFirstWeekday else weekFormat)"

definition calcWeek :: "mysqlTime \<Rightarrow> int \<Rightarrow> int \<times> int" where
  "calcWeek t wb =
     (let daynr = calcDaynr (Year t) (Month t) (Day t);
          firstDaynr = calcDaynr (Year t) 1 1;
          mondayFirst = week_test wb weekBehaviourMondayFirst;
          weekYear = week_test wb weekBehaviourYear;
          firstWeekday = week_test wb weekBehaviourFirstWeekday;
          weekday = calcWeekday firstDaynr (\<not> mondayFirst);
          inFirst = (mt_month t = 1 \<and> Day t \<le> 7 - weekday);
          late = (\<lambda>weekday. firstWeekday \<and> weekday \<noteq> 0 \<or> \<not> firstWeekday \<and> 4 \<le> weekday)
      in if inFirst \<and> \<not> weekYear \<and> late weekday then (Year t, 0)
         else
           let (weekYear, year, firstDaynr, weekday) =
                 (if inFirst
                  then let days = calcDaysInYear (Year t - 1)
                       in (True, Year t - 1, firstDaynr - days, trem (weekday + 53 * 7 - days) 7)
                  else (weekYear, Year t, firstDaynr, weekday));
               days = (if late weekday then daynr - (firstDaynr + 7 - weekday) else daynr - (firstDaynr - weekday));
               next = trem (weekday + calcDaysInYear year) 7
           in if weekYear \<and> 52 * 7 \<le> days \<and> (\<not> firstWeekday \<and> next < 4 \<or> firstWeekday \<and> next = 0) then (year + 1, 1)
              else (year, tquot days 7 + 1))"

definition YearWeek :: "mysqlTime \<Rightarrow> int \<Rightarrow> int \<times> int" where
  "YearWeek t mode = calcWeek t (weekMode mode OR weekBehaviourYear)"

definition Week :: "mysqlTime \<Rightarrow> int \<Rightarrow> int" where
  "Week t mode = (if mt_month t = 0 \<or> mt_day t = 0 then 0 else snd (calcWeek t (weekMode mode)))"

section \<open>Differences\<close>

definition secondsIn24Hour :: int where
  "secondsIn24Hour = 86400"

definition calcTimeDiff :: "mysqlTime \<Rightarrow> mysqlTime \<Rightarrow> int \<Rightarrow> int \<times> int \<times> bool" where
  "calcTimeDiff t1 t2 sign =
     (let days = calcDaynr (Year t1) (Month t1) (Day t1) - sign * calcDaynr (Year t2) (Month t2) (Day t2);
          tmp = (days * secondsIn24Hour + Hour t1 * 3600 + Minute t1 * 60 + Second t1 -
                   sign * (Hour t2 * 3600 + Minute t2 * 60 + Second t2)) * 1000000 + Microsecond t1 - sign * Microsecond t2;
          neg = (tmp < 0); mag = (if neg then - tmp else tmp)
      in (tquot mag 1000000, trem mag 1000000, neg))"

definition mixDateAndTime :: "mysqlTime \<Rightarrow> mysqlTime \<Rightarrow> bool \<Rightarrow> mysqlTime" where
  "mixDateAndTime date time neg =
     (if \<not> neg \<and> mt_hour time < 24
      then date\<lparr>mt_hour := mt_hour time, mt_minute := mt_minute time, mt_second := mt_second time, mt_microsecond := mt_microsecond time\<rparr>
      else
        let (seconds, microseconds, _) = calcTimeDiff date time (if neg then 1 else - 1);
            (year, month, day) = getDateFromDaynr (u64 (tquot seconds secondsIn24Hour))
        in (calcTimeFromSec date (trem seconds secondsIn24Hour) microseconds)
             \<lparr>mt_year := word_of_int year, mt_month := word_of_int month, mt_day := word_of_int day\<rparr>)"

datatype interval = IntervalYear | IntervalQuarter | IntervalMonth | IntervalWeek | IntervalDay | IntervalHour | IntervalMinute
  | IntervalSecond | IntervalMicrosecond | IntervalOther

text \<open>The number of months between two times, in unsigned arithmetic; the first is not after the second.\<close>

definition months_between :: "mysqlTime \<Rightarrow> mysqlTime \<Rightarrow> int" where
  "months_between b e =
     (let seconds = (\<lambda>t. Hour t * 3600 + Minute t * 60 + Second t);
          earlier = (Month e < Month b \<or> Month e = Month b \<and> Day e < Day b);
          years0 = u64 (Year e - Year b);
          years = (if earlier then u64 (years0 - 1) else years0);
          months0 = u64 (12 * years);
          months = (if earlier then u64 (months0 + u64 (12 - u64 (Month b - Month e))) else u64 (months0 + u64 (Month e - Month b)))
      in if Day e < Day b then u64 (months - 1)
         else if Day e = Day b \<and> (seconds e < seconds b \<or> seconds e = seconds b \<and> Microsecond e < Microsecond b) then u64 (months - 1)
         else months)"

definition timestampDiff :: "interval \<Rightarrow> mysqlTime \<Rightarrow> mysqlTime \<Rightarrow> int" where
  "timestampDiff intervalType t1 t2 =
     (let (seconds, microseconds, neg) = calcTimeDiff t2 t1 1;
          months = (if intervalType \<in> {IntervalYear, IntervalQuarter, IntervalMonth}
                    then (if neg then months_between t2 t1 else months_between t1 t2) else 0);
          negV = (if neg then - 1 else 1)
      in case intervalType of
           IntervalYear \<Rightarrow> tquot months 12 * negV
         | IntervalQuarter \<Rightarrow> tquot months 3 * negV
         | IntervalMonth \<Rightarrow> months * negV
         | IntervalWeek \<Rightarrow> tquot (tquot seconds secondsIn24Hour) 7 * negV
         | IntervalDay \<Rightarrow> tquot seconds secondsIn24Hour * negV
         | IntervalHour \<Rightarrow> tquot seconds 3600 * negV
         | IntervalMinute \<Rightarrow> tquot seconds 60 * negV
         | IntervalSecond \<Rightarrow> seconds * negV
         | IntervalMicrosecond \<Rightarrow> (seconds * 1000000 + microseconds) * negV
         | IntervalOther \<Rightarrow> 0)"

section \<open>Comparison and validity\<close>

definition dateToUint64 :: "mysqlTime \<Rightarrow> 64 word" where
  "dateToUint64 t = word_of_int (Year t) * 10000 + word_of_int (Month t) * 100 + word_of_int (Day t)"

definition timeToUint64 :: "mysqlTime \<Rightarrow> 64 word" where
  "timeToUint64 t = word_of_int (Hour t) * 10000 + word_of_int (Minute t) * 100 + word_of_int (Second t)"

definition datetimeToUint64 :: "mysqlTime \<Rightarrow> 64 word" where
  "datetimeToUint64 t = dateToUint64 t * 1000000 + timeToUint64 t"

definition compareTime :: "mysqlTime \<Rightarrow> mysqlTime \<Rightarrow> int" where
  "compareTime a b =
     (let ta = datetimeToUint64 a; tb = datetimeToUint64 b in
      if ta < tb then - 1 else if tb < ta then 1
      else if Microsecond a < Microsecond b then - 1 else if Microsecond b < Microsecond a then 1 else 0)"

definition ZeroTime :: mysqlTime where
  "ZeroTime = newMysqlTime 0 0 0 0 0 0 0"

definition maxDatetime :: mysqlTime where
  "maxDatetime = FromDate 9999 12 31 23 59 59 999999"

definition Time_IsZero :: "mysqlTime \<Rightarrow> bool" where
  "Time_IsZero t \<longleftrightarrow> compareTime t ZeroTime = 0"

definition maxDaysInMonth :: "int list" where
  "maxDaysInMonth = [31, 29, 31, 30, 31, 30, 31, 31, 30, 31, 30, 31]"

definition ErrInvalidTimeFormat :: gerror where
  "ErrInvalidTimeFormat = Errorf ''invalid time format'' None"

definition checkMonthDay :: "int \<Rightarrow> int \<Rightarrow> int \<Rightarrow> gerror option" where
  "checkMonthDay year month day =
     (if month < 0 \<or> 12 < month then Some ErrInvalidTimeFormat
      else
        let maxDay = (if 0 < month then maxDaysInMonth ! nat (month - 1) else 31);
            maxDay = (if month = 2 \<and> trem year 4 \<noteq> 0 then 28 else maxDay)
        in if day < 0 \<or> maxDay < day then Some ErrInvalidTimeFormat else None)"

definition checkDateRange :: "mysqlTime \<Rightarrow> gerror option" where
  "checkDateRange t =
     (if Year t < 0 \<or> Month t < 0 \<or> Day t < 0 then Some ErrInvalidTimeFormat
      else if 0 < compareTime t maxDatetime then Some ErrInvalidTimeFormat else None)"

definition checkDateType :: "mysqlTime \<Rightarrow> gerror option" where
  "checkDateType t =
     (if Year t = 0 \<and> Month t = 0 \<and> Day t = 0 then None
      else case checkDateRange t of Some err \<Rightarrow> Some err | None \<Rightarrow> checkMonthDay (Year t) (Month t) (Day t))"

definition checkDatetimeType :: "mysqlTime \<Rightarrow> gerror option" where
  "checkDatetimeType t =
     (case checkDateType t of
        Some err \<Rightarrow> Some err
      | None \<Rightarrow>
          if Hour t < 0 \<or> 24 \<le> Hour t then Some ErrInvalidTimeFormat
          else if Minute t < 0 \<or> 60 \<le> Minute t then Some ErrInvalidTimeFormat
          else if Second t < 0 \<or> 60 \<le> Second t then Some ErrInvalidTimeFormat
          else None)"

section \<open>Storage\<close>

datatype time_type = TypeDate | TypeDatetime | TypeTimestamp

record Time =
  tm_Time :: mysqlTime
  tm_Type :: time_type
  tm_Fsp :: int

text \<open>
  The local time zone and the check of timestamps are arguments: \<open>toUTC\<close> and \<open>toLocal\<close> convert a time, \<open>checkTimestampType\<close> says whether
  one is in range.
\<close>

definition Time_check :: "(mysqlTime \<Rightarrow> gerror option) \<Rightarrow> Time \<Rightarrow> gerror option" where
  "Time_check checkTimestampType t =
     (case tm_Type t of
        TypeTimestamp \<Rightarrow> checkTimestampType (tm_Time t)
      | TypeDatetime \<Rightarrow> checkDatetimeType (tm_Time t)
      | TypeDate \<Rightarrow> checkDateType (tm_Time t))"

definition ToPackedUint :: "(mysqlTime \<Rightarrow> gerror + mysqlTime) \<Rightarrow> Time \<Rightarrow> gerror + 64 word" where
  "ToPackedUint toUTC t =
     (if Time_IsZero (tm_Time t) then Inr 0
      else case (if tm_Type t = TypeTimestamp then toUTC (tm_Time t) else Inr (tm_Time t)) of
        Inl err \<Rightarrow> Inl err
      | Inr tm \<Rightarrow>
          let ymd = word_of_int (push_bit 5 (Year tm * 13 + Month tm) OR Day tm) :: 64 word;
              hms = word_of_int (push_bit 12 (Hour tm) OR push_bit 6 (Minute tm) OR Second tm);
              micro = word_of_int (Microsecond tm)
          in Inr (push_bit 24 (push_bit 17 ymd OR hms) OR micro))"

definition FromPackedUint ::
    "(mysqlTime \<Rightarrow> gerror option) \<Rightarrow> (int \<Rightarrow> int \<Rightarrow> int \<Rightarrow> int \<Rightarrow> int \<Rightarrow> int \<Rightarrow> int \<Rightarrow> mysqlTime) \<Rightarrow> 64 word \<Rightarrow> Time \<Rightarrow>
     Time \<times> gerror option" where
  "FromPackedUint checkTimestampType toLocal packed t =
     (if packed = 0 then (t\<lparr>tm_Time := ZeroTime\<rparr>, None)
      else
        let ymdhms = drop_bit 24 packed; ymd = drop_bit 17 ymdhms;
            day = uint (ymd AND (push_bit 5 1 - 1)); ym = drop_bit 5 ymd;
            month = uint (ym mod 13); year = uint (ym div 13);
            hms = ymdhms AND (push_bit 17 1 - 1);
            second = uint (hms AND (push_bit 6 1 - 1)); minute = uint (drop_bit 6 hms AND (push_bit 6 1 - 1));
            hour = uint (drop_bit 12 hms); microsec = uint (packed mod push_bit 24 1)
        in if tm_Type t = TypeTimestamp then (t\<lparr>tm_Time := toLocal year month day hour minute second microsec\<rparr>, None)
           else let t' = t\<lparr>tm_Time := FromDate year month day hour minute second microsec\<rparr> in (t', Time_check checkTimestampType t'))"

section \<open>The calendar\<close>

text \<open>Leap years, and the days before a year and before a month.\<close>

lemma and_3: "x AND 3 = x mod (4 :: int)"
  using take_bit_eq_mask [of 2 x] by (simp add: take_bit_eq_mod mask_eq_exp_minus_1)

definition leap :: "nat \<Rightarrow> bool" where
  "leap y \<longleftrightarrow> y \<noteq> 0 \<and> 4 dvd y \<and> (\<not> 100 dvd y \<or> 400 dvd y)"

lemma calcDaysInYear_leap: "calcDaysInYear (int y) = (if leap y then 366 else 365)"
proof -
  have d: "int y mod int k = 0 \<longleftrightarrow> k dvd y" for k by (metis int_dvd_int_iff mod_eq_0_iff_dvd)
  show ?thesis using d [of 4] d [of 100] d [of 400] dvd_trans [of 100 400 y]
    by (cases "y = 0") (auto simp: calcDaysInYear_def and_3 trem_nonneg leap_def)
qed

primrec days_before :: "nat \<Rightarrow> int" where
  "days_before 0 = 0"
| "days_before (Suc y) = days_before y + calcDaysInYear (int y)"

lemma calcDaysInYear_sum:
  assumes "0 < y"
  shows "calcDaysInYear (int y) = 365 + (if 4 dvd y then 1 else 0) - (if 100 dvd y then 1 else 0) + (if 400 dvd y then 1 else 0)"
proof -
  have d: "400 dvd y \<Longrightarrow> 100 dvd y" "100 dvd y \<Longrightarrow> 4 dvd y" using dvd_trans [of 100 400 y] dvd_trans [of 4 100 y] by simp_all
  have "(if a \<and> (\<not> b \<or> c) then 366 else 365 :: int) = 365 + (if a then 1 else 0) - (if b then 1 else 0) + (if c then 1 else 0)"
    if "c \<longrightarrow> b" "b \<longrightarrow> a" for a b c using that by (cases a; cases b; cases c) simp_all
  from this [OF impI [OF d(1)] impI [OF d(2)]] show ?thesis using assms unfolding calcDaysInYear_leap leap_def by (simp only: neq0_conv simp_thms)
qed

lemma days_before_closed: "days_before (Suc y) = 365 * (int y + 1) + int (y div 4) - int (y div 100) + int (y div 400)"
proof (induction y)
  case 0
  then show ?case by (simp add: calcDaysInYear_leap [of 0, simplified] leap_def)
next
  case (Suc y)
  have "Suc y div k = y div k + (if k dvd Suc y then 1 else 0)" for k by (simp add: div_Suc dvd_eq_mod_eq_0)
  note q = this [of 4] this [of 100] this [of 400]
  have "calcDaysInYear (int (Suc y)) = 365 + (if 4 dvd Suc y then 1 else 0) - (if 100 dvd Suc y then 1 else 0) + (if 400 dvd Suc y then 1 else 0)"
    by (rule calcDaysInYear_sum) simp
  then have "calcDaysInYear (int (Suc y)) = 365 + (int (Suc y div 4) - int (y div 4)) - (int (Suc y div 100) - int (y div 100)) +
      (int (Suc y div 400) - int (y div 400))" unfolding q by simp
  then show ?case using Suc.IH by (simp add: algebra_simps)
qed

definition month_length :: "nat \<Rightarrow> nat \<Rightarrow> int" where
  "month_length y m = daysInMonth ! (m - 1) + (if m = 2 \<and> leap y then 1 else 0)"

definition days_before_month :: "nat \<Rightarrow> nat \<Rightarrow> int" where
  "days_before_month y m = sum_list (map (month_length y) [1..<m])"

definition valid_date :: "nat \<Rightarrow> nat \<Rightarrow> nat \<Rightarrow> bool" where
  "valid_date y m d \<longleftrightarrow> 1 \<le> m \<and> m \<le> 12 \<and> 1 \<le> d \<and> int d \<le> month_length y m"

lemma leap_terms:
  "tquot (int y) 4 - tquot ((tquot (int y) 100 + 1) * 3) 4 = days_before (Suc y) - 365 * (int y + 1)"
proof -
  have "y div 400 = y div 100 div 4" using div_mult2_eq [of y 100 4] by simp
  moreover have "(q + 1) * 3 div 4 = q - q div 4" for q :: int
  proof -
    define a r where "a = q div 4" and "r = q mod 4"
    have q: "q = 4 * a + r" by (simp add: a_def r_def)
    have "r = 0 \<or> r = 1 \<or> r = 2 \<or> r = 3" unfolding r_def by presburger
    moreover have "(4 * a + r + 1) * 3 = 3 * r + 3 + 4 * (3 * a)" by simp
    ultimately have "(4 * a + r + 1) * 3 div 4 = 3 * a + r" by auto
    then show ?thesis unfolding a_def [symmetric] using q by simp
  qed
  ultimately have "(int (y div 100) + 1) * 3 div 4 = int (y div 100) - int (y div 400)" by (simp only: of_nat_div of_nat_numeral)
  moreover have "tquot (int y) 4 = int (y div 4)" "tquot (int y) 100 = int (y div 100)" by (simp_all add: tquot_nonneg zdiv_int)
  ultimately show ?thesis by (simp add: tquot_nonneg days_before_closed del: days_before.simps)
qed

lemma month_cases:
  assumes "1 \<le> m" "m \<le> 12"
  shows "m \<in> {1, 2, 3, 4, 5, 6, 7, 8, 9, 10, 11, 12 :: nat}"
proof -
  have "m \<in> set [1..<13]" using assms by simp
  moreover have "[1..<13 :: nat] = [1, 2, 3, 4, 5, 6, 7, 8, 9, 10, 11, 12]" by (simp add: upt_rec)
  ultimately show ?thesis by (simp only: list.set)
qed

lemma days_before_month_table:
  "days_before_month y 1 = 0" "days_before_month y (Suc 0) = 0"
  "days_before_month y 2 = 31"
  "days_before_month y 3 = 59 + (if leap y then 1 else 0)"
  "days_before_month y 4 = 90 + (if leap y then 1 else 0)"
  "days_before_month y 5 = 120 + (if leap y then 1 else 0)"
  "days_before_month y 6 = 151 + (if leap y then 1 else 0)"
  "days_before_month y 7 = 181 + (if leap y then 1 else 0)"
  "days_before_month y 8 = 212 + (if leap y then 1 else 0)"
  "days_before_month y 9 = 243 + (if leap y then 1 else 0)"
  "days_before_month y 10 = 273 + (if leap y then 1 else 0)"
  "days_before_month y 11 = 304 + (if leap y then 1 else 0)"
  "days_before_month y 12 = 334 + (if leap y then 1 else 0)"
  "days_before_month y 13 = 365 + (if leap y then 1 else 0)"
  by (simp_all add: days_before_month_def upt_rec month_length_def daysInMonth_def)

lemma days_before_month_late:
  assumes "3 \<le> m" "m \<le> 12"
  shows "days_before_month y m = 31 * (int m - 1) - tquot (int m * 4 + 23) 10 + calcDaysInYear (int y) - 365"
proof -
  have "m \<in> {3, 4, 5, 6, 7, 8, 9, 10, 11, 12}" using month_cases [of m] assms by fastforce
  then show ?thesis by (elim insertE emptyE) (simp_all add: days_before_month_table calcDaysInYear_leap tquot_nonneg)
qed

text \<open>The number of a day counts the days of the years and months before it.\<close>

lemma calcDaynr_counts:
  assumes "1 \<le> m" "m \<le> 12"
  shows "calcDaynr (int y) (int m) d = days_before y + days_before_month y m + d"
proof (cases "m \<le> 2")
  case True
  then have "m = 1 \<or> m = 2" using assms(1) by linarith
  then have "days_before_month y m = 31 * (int m - 1)" by (auto simp: days_before_month_table simp del: One_nat_def)
  moreover have "tquot (int y - 1) 4 - tquot ((tquot (int y - 1) 100 + 1) * 3) 4 = days_before y - 365 * int y"
  proof (cases y)
    case 0
    then show ?thesis by (simp add: tquot_def)
  next
    case (Suc n)
    then show ?thesis using leap_terms [of n] by simp
  qed
  ultimately show ?thesis using True assms by (simp add: calcDaynr_def Let_def)
next
  case False
  then show ?thesis using leap_terms [of y] days_before_month_late [of m y] assms by (simp add: calcDaynr_def Let_def)
qed

lemma days_before_mono: "a \<le> b \<Longrightarrow> days_before a \<le> days_before b"
  by (induction b) (auto simp: le_Suc_eq calcDaysInYear_leap)

lemma days_before_bounds: "100 * days_before y \<le> 36525 * int y" "0 < y \<Longrightarrow> 100 * days_before y < 36525 * int y"
proof -
  have "100 * days_before (Suc n) < 36525 * int (Suc n)" for n
  proof -
    have "4 * (n div 4) \<le> n" "n div 400 \<le> n div 100" by (simp_all add: div_le_mono2)
    then have "4 * int (n div 4) \<le> int n" "int (n div 400) \<le> int (n div 100)" by linarith+
    then show ?thesis unfolding days_before_closed by simp
  qed
  then show "100 * days_before y \<le> 36525 * int y" "0 < y \<Longrightarrow> 100 * days_before y < 36525 * int y"
    by (cases y; fastforce intro: less_imp_le)+
qed

declare year_loop.simps [simp del]

lemma year_loop_reaches:
  assumes "y0 \<le> y" "days_before y < days_before y0 + n" "days_before y0 + n \<le> days_before (Suc y)"
  shows "year_loop (int y0) n = (int y, days_before y0 + n - days_before y)"
  using assms
proof (induction "y - y0" arbitrary: y0 n)
  case 0
  then have "y0 = y" by simp
  with 0 show ?case by (subst year_loop.simps) simp
next
  case (Suc k)
  then have "y0 < y" by simp
  then have "calcDaysInYear (int y0) < n" using days_before_mono [of "Suc y0" y] Suc.prems(2) by simp
  moreover have "year_loop (int (Suc y0)) (n - calcDaysInYear (int y0)) = (int y, days_before y0 + n - days_before y)"
    using Suc.hyps(1) [of "Suc y0" "n - calcDaysInYear (int y0)"] Suc.hyps(2) Suc.prems \<open>y0 < y\<close> by simp
  ultimately show ?case by (subst year_loop.simps) (simp add: add.commute)
qed

lemma month_part:
  assumes valid: "valid_date y m d" and n: "n = days_before_month y m + int d"
  shows "month_loop daysInMonth 1 (if leap y \<and> 59 < n then n - 1 else n) =
    (int m, int d - (if leap y \<and> 59 < n \<and> n - 1 = 59 then 1 else 0))"
proof -
  have m: "m \<in> {1, 2, 3, 4, 5, 6, 7, 8, 9, 10, 11, 12}" using valid month_cases by (simp add: valid_date_def)
  have d: "1 \<le> int d" "int d \<le> month_length y m" using valid by (simp_all add: valid_date_def)
  show ?thesis
  proof (cases "leap y")
    case True
    with m d show ?thesis unfolding n
      by (elim insertE emptyE) (simp_all add: days_before_month_table month_length_def daysInMonth_def split: if_splits)
  next
    case False
    with m d show ?thesis unfolding n
      by (elim insertE emptyE) (simp_all add: days_before_month_table month_length_def daysInMonth_def)
  qed
qed

lemma day_of_year:
  assumes "valid_date y m d"
  shows "1 \<le> days_before_month y m + int d" "days_before_month y m + int d \<le> calcDaysInYear (int y)"
proof -
  have m: "m \<in> {1, 2, 3, 4, 5, 6, 7, 8, 9, 10, 11, 12}" using assms month_cases by (simp add: valid_date_def)
  have d: "1 \<le> int d" "int d \<le> month_length y m" using assms by (simp_all add: valid_date_def)
  from m d show "1 \<le> days_before_month y m + int d" "days_before_month y m + int d \<le> calcDaysInYear (int y)"
    by (elim insertE emptyE; simp add: days_before_month_table month_length_def daysInMonth_def calcDaysInYear_leap split: if_splits)+
qed

lemma getDateFromDaynr_count:
  assumes "valid_date y m d" "1 \<le> y" "y \<le> 9999"
  shows "getDateFromDaynr (days_before y + days_before_month y m + int d) = (int y, int m, int d)"
proof -
  define n where "n = days_before_month y m + int d"
  define N where "N = days_before y + n"
  have n: "1 \<le> n" "n \<le> calcDaysInYear (int y)" unfolding n_def by (rule day_of_year [OF assms(1)])+
  have "days_before (Suc 0) \<le> days_before y" by (rule days_before_mono) (use assms(2) in simp)
  then have low: "365 < N" using n(1) by (simp add: N_def calcDaysInYear_leap [of 0, simplified] leap_def)
  have "days_before (Suc y) \<le> days_before 10000" by (rule days_before_mono) (use assms(3) in simp)
  also have "\<dots> = 3652424" using days_before_closed [of 9999] by simp
  finally have high: "N < 3652500" using n(2) by (simp add: N_def)
  define y0 where "y0 = nat (N * 100 div 36525)"
  have y0: "N * 100 div 36525 = int y0" using low by (simp add: y0_def)
  have y0_pos: "0 < y0" using low by (simp add: y0_def)
  have "k * (a div k) \<le> a" if "0 < k" for a k :: int using mult_div_mod_eq [of k a] pos_mod_sign [OF that, of a] by linarith
  from this [of 36525 "N * 100"] have est: "36525 * int y0 \<le> N * 100" unfolding y0 by simp
  have before: "days_before y0 < N" using days_before_bounds(2) [OF y0_pos] est by linarith
  have "N * 100 < 36525 * int (Suc y)" using days_before_bounds(2) [of "Suc y"] n(2) by (simp add: N_def)
  with est have "36525 * int y0 < 36525 * int (Suc y)" by (rule le_less_trans)
  then have le: "y0 \<le> y" by simp
  have loop: "year_loop (int y0) (N - days_before y0) = (int y, n)"
    using year_loop_reaches [OF le, of "N - days_before y0"] n by (simp add: N_def)
  have "days_before y0 = 365 * int y0 + (int y0 - 1) div 4 - ((int y0 - 1) div 100 + 1) * 3 div 4"
    using leap_terms [of "y0 - 1"] y0_pos by (simp add: tquot_nonneg of_nat_diff)
  then have first: "u64 (u64 (u64 (N - int y0 * 365) - (int y0 - 1) div 4) + ((int y0 - 1) div 100 + 1) * 3 div 4) = N - days_before y0"
    using before high days_before_mono [of 0 y0] by (simp add: u64_def mod_simps)
  have "getDateFromDaynr N = (int y, int m, int d)"
    using low high first loop month_part [OF assms(1) n_def]
    by (cases "leap y"; cases "59 < n"; cases "n = 60") (simp_all add: getDateFromDaynr_def y0 calcDaysInYear_leap Let_def)
  then show ?thesis by (simp add: N_def n_def add.assoc)
qed

section \<open>The packed form\<close>

lemma push_or: "0 \<le> b \<Longrightarrow> b < 2 ^ n \<Longrightarrow> push_bit n a OR b = a * 2 ^ n + (b :: int)"
proof -
  assume b: "0 \<le> b" "b < 2 ^ n"
  have "push_bit n a AND b = 0"
  proof (rule bit_eqI)
    fix k
    have "\<not> bit b k" if "n \<le> k" using b that by (metis bit_take_bit_iff not_le take_bit_int_eq_self)
    then show "bit (push_bit n a AND b) k = bit 0 k" by (auto simp: bit_simps)
  qed
  then have "push_bit n a + b = push_bit n a OR b" by (rule disjunctive_add_eq_or)
  then show ?thesis by (simp add: push_bit_eq_mult)
qed

definition packed_value :: "mysqlTime \<Rightarrow> int" where
  "packed_value t = (((Year t * 13 + Month t) * 2 ^ 5 + Day t) * 2 ^ 17 + (Hour t * 2 ^ 12 + Minute t * 2 ^ 6 + Second t)) * 2 ^ 24 + Microsecond t"

definition fields_ok :: "mysqlTime \<Rightarrow> bool" where
  "fields_ok t \<longleftrightarrow> Year t \<le> 9999 \<and> Month t \<le> 12 \<and> Day t \<le> 31 \<and> Hour t < 24 \<and> Minute t < 60 \<and> Second t < 60 \<and> Microsecond t < 1000000"

lemma fields_nonneg: "0 \<le> Year t" "0 \<le> Month t" "0 \<le> Day t" "0 \<le> Hour t" "0 \<le> Minute t" "0 \<le> Second t" "0 \<le> Microsecond t"
  by (simp_all add: Year_def Month_def Day_def Hour_def Minute_def Second_def Microsecond_def)

lemma packed_range: "fields_ok t \<Longrightarrow> 0 \<le> packed_value t \<and> packed_value t < 2 ^ 63"
  using fields_nonneg [of t] by (simp add: fields_ok_def packed_value_def)

lemma pack_word:
  assumes "fields_ok t"
  shows "push_bit 24 (push_bit 17 (word_of_int (push_bit 5 (Year t * 13 + Month t) OR Day t)) OR
      word_of_int (push_bit 12 (Hour t) OR push_bit 6 (Minute t) OR Second t)) OR word_of_int (Microsecond t) = (word_of_int (packed_value t) :: 64 word)"
proof -
  have "push_bit 6 (Minute t) OR Second t = Minute t * 2 ^ 6 + Second t" using fields_nonneg [of t] assms by (intro push_or) (simp_all add: fields_ok_def)
  moreover from this have "push_bit 12 (Hour t) OR (push_bit 6 (Minute t) OR Second t) = Hour t * 2 ^ 12 + (Minute t * 2 ^ 6 + Second t)"
    using fields_nonneg [of t] assms by (simp only:) (intro push_or, simp_all add: fields_ok_def)
  moreover have "push_bit 5 (Year t * 13 + Month t) OR Day t = (Year t * 13 + Month t) * 2 ^ 5 + Day t"
    using fields_nonneg [of t] assms by (intro push_or) (simp_all add: fields_ok_def)
  moreover have "push_bit 17 ((Year t * 13 + Month t) * 2 ^ 5 + Day t) OR (Hour t * 2 ^ 12 + (Minute t * 2 ^ 6 + Second t)) =
      ((Year t * 13 + Month t) * 2 ^ 5 + Day t) * 2 ^ 17 + (Hour t * 2 ^ 12 + (Minute t * 2 ^ 6 + Second t))"
    using fields_nonneg [of t] assms by (intro push_or) (simp_all add: fields_ok_def)
  moreover have "push_bit 24 (((Year t * 13 + Month t) * 2 ^ 5 + Day t) * 2 ^ 17 + (Hour t * 2 ^ 12 + (Minute t * 2 ^ 6 + Second t))) OR Microsecond t = packed_value t"
    using fields_nonneg [of t] assms unfolding packed_value_def by (subst push_or) (simp_all add: fields_ok_def)
  ultimately have e: "push_bit 24 (push_bit 17 (push_bit 5 (Year t * 13 + Month t) OR Day t) OR
      (push_bit 12 (Hour t) OR (push_bit 6 (Minute t) OR Second t))) OR Microsecond t = packed_value t" by simp
  show ?thesis unfolding e [symmetric] of_int_or_eq push_bit_of_int [symmetric] by (rule HOL.refl)
qed

lemma packed_parts:
  assumes "fields_ok t"
  defines "w \<equiv> word_of_int (packed_value t) :: 64 word"
  defines "ymdhms \<equiv> drop_bit 24 w" defines "ymd \<equiv> drop_bit 17 ymdhms" defines "hms \<equiv> ymdhms AND (push_bit 17 1 - 1)"
  shows "uint (ymd AND (push_bit 5 1 - 1)) = Day t" "uint (drop_bit 5 ymd mod 13) = Month t" "uint (drop_bit 5 ymd div 13) = Year t"
    "uint (hms AND (push_bit 6 1 - 1)) = Second t" "uint (drop_bit 6 hms AND (push_bit 6 1 - 1)) = Minute t" "uint (drop_bit 12 hms) = Hour t"
    "uint (w mod push_bit 24 1) = Microsecond t"
proof -
  note f = fields_nonneg [of t] assms(1) [unfolded fields_ok_def]
  let ?h = "Hour t * 2 ^ 12 + Minute t * 2 ^ 6 + Second t" and ?ym = "Year t * 13 + Month t"
  have w: "uint w = packed_value t" using packed_range [OF assms(1)] by (simp add: w_def unsigned_of_int take_bit_int_eq_self)
  have mask: "uint (v AND (push_bit n 1 - 1)) = uint v mod 2 ^ n" for v :: "64 word" and n
  proof -
    have "push_bit n 1 - 1 = (mask n :: 64 word)" by (simp add: mask_eq_exp_minus_1 push_bit_eq_mult)
    then show ?thesis by (simp only: take_bit_eq_mask [symmetric] unsigned_take_bit_eq) (simp only: take_bit_eq_mod)
  qed
  have dr: "uint (drop_bit n v) = uint v div 2 ^ n" for v :: "64 word" and n 
  proof -
    have "take_bit LENGTH(64) (uint v) = uint v" using unsigned_less [of v, where 'a = int] by (intro take_bit_int_eq_self) simp_all
    then show ?thesis unfolding unsigned_drop_bit_eq by (simp only: drop_bit_eq_div)
  qed
  have dm: "(a * m + b) div m = a" "(a * m + b) mod m = b" if "0 \<le> b" "b < m" for a b m :: int using that by simp_all
  have 1: "uint ymdhms = (?ym * 2 ^ 5 + Day t) * 2 ^ 17 + ?h" unfolding ymdhms_def dr w packed_value_def by (rule dm) (use f in simp_all)
  have 2: "uint ymd = ?ym * 2 ^ 5 + Day t" unfolding ymd_def dr 1 by (rule dm) (use f in simp_all)
  have 3: "uint hms = ?h" unfolding hms_def mask 1 by (rule dm) (use f in simp_all)
  have 4: "uint (drop_bit 5 ymd) = ?ym" unfolding dr 2 by (rule dm) (use f in simp_all)
  have u13: "uint (13 :: 64 word) = 13" by simp
  have 5: "uint hms = (Hour t * 2 ^ 6 + Minute t) * 2 ^ 6 + Second t" unfolding 3 by simp
  have 6: "uint hms = Hour t * 2 ^ 12 + (Minute t * 2 ^ 6 + Second t)" unfolding 3 by simp
  show "uint (ymd AND (push_bit 5 1 - 1)) = Day t" unfolding mask 2 by (rule dm) (use f in simp_all)
  show "uint (drop_bit 5 ymd mod 13) = Month t" unfolding uint_mod 4 u13 by (rule dm) (use f in simp_all)
  show "uint (drop_bit 5 ymd div 13) = Year t" unfolding uint_div 4 u13 by (rule dm) (use f in simp_all)
  show "uint (hms AND (push_bit 6 1 - 1)) = Second t" unfolding mask 5 by (rule dm) (use f in simp_all)
  have "uint (drop_bit 6 hms) = Hour t * 2 ^ 6 + Minute t" unfolding dr 5 by (rule dm) (use f in simp_all)
  then show "uint (drop_bit 6 hms AND (push_bit 6 1 - 1)) = Minute t" unfolding mask by (simp only:) (rule dm, use f in simp_all)
  show "uint (drop_bit 12 hms) = Hour t" unfolding dr 6 by (rule dm) (use f in simp_all)
  have "uint (push_bit 24 1 :: 64 word) = 2 ^ 24" by simp
  then show "uint (w mod push_bit 24 1) = Microsecond t" unfolding uint_mod w packed_value_def by (simp only:) (rule dm, use f in simp_all)
qed

lemma FromDate_fields: "FromDate (Year t) (Month t) (Day t) (Hour t) (Minute t) (Second t) (Microsecond t) = t"
  by (simp add: FromDate_def newMysqlTime_def Year_def Month_def Day_def Hour_def Minute_def Second_def Microsecond_def)

lemma zero_fields:
  assumes "fields_ok t"
  shows "Time_IsZero t \<longleftrightarrow> packed_value t = 0" "packed_value t = 0 \<longleftrightarrow> t = ZeroTime"
proof -
  note f = fields_nonneg [of t] assms [unfolded fields_ok_def]
  have z: "packed_value t = 0 \<longleftrightarrow> Year t = 0 \<and> Month t = 0 \<and> Day t = 0 \<and> Hour t = 0 \<and> Minute t = 0 \<and> Second t = 0 \<and> Microsecond t = 0"
    using f(1-7) unfolding packed_value_def by (simp add: add_nonneg_eq_0_iff)
  let ?v = "(Year t * 10000 + Month t * 100 + Day t) * 1000000 + (Hour t * 10000 + Minute t * 100 + Second t)"
  have "datetimeToUint64 t = word_of_int ?v" by (simp add: datetimeToUint64_def dateToUint64_def timeToUint64_def)
  moreover have "uint (word_of_int z :: 64 word) = z" if "0 \<le> z" "z < 2 ^ 64" for z using that by (simp add: unsigned_of_int take_bit_int_eq_self)
  moreover have "0 \<le> ?v" "?v < 2 ^ 64" using f by simp_all
  ultimately have "uint (datetimeToUint64 t) = ?v" by metis
  moreover have "datetimeToUint64 ZeroTime = 0"
    by (simp add: datetimeToUint64_def dateToUint64_def timeToUint64_def ZeroTime_def newMysqlTime_def Year_def Month_def Day_def Hour_def Minute_def Second_def)
  moreover have "Microsecond ZeroTime = 0" by (simp add: ZeroTime_def newMysqlTime_def Microsecond_def)
  moreover have "datetimeToUint64 t = 0 \<longleftrightarrow> uint (datetimeToUint64 t) = 0" by (simp add: uint_0_iff)
  moreover have "?v = 0 \<longleftrightarrow> Year t = 0 \<and> Month t = 0 \<and> Day t = 0 \<and> Hour t = 0 \<and> Minute t = 0 \<and> Second t = 0"
    using f(1-7) by (simp add: add_nonneg_eq_0_iff)
  ultimately show "Time_IsZero t \<longleftrightarrow> packed_value t = 0" unfolding z
    using f by (auto simp: Time_IsZero_def compareTime_def Let_def word_neq_0_conv not_less)
  show "packed_value t = 0 \<longleftrightarrow> t = ZeroTime" unfolding z
    by (cases t) (auto simp: uint_0_iff ZeroTime_def newMysqlTime_def Year_def Month_def Day_def Hour_def Minute_def Second_def Microsecond_def)
qed

theorem FromPackedUint_ToPackedUint:
  assumes "tm_Type t \<noteq> TypeTimestamp" "fields_ok (tm_Time t)"
  shows "\<exists>packed. ToPackedUint toUTC t = Inr packed \<and> fst (FromPackedUint checkTimestampType toLocal packed t) = t"
proof -
  let ?w = "word_of_int (packed_value (tm_Time t)) :: 64 word"
  have w0: "?w = 0 \<longleftrightarrow> packed_value (tm_Time t) = 0"
    using packed_range [OF assms(2)] by (auto simp: word_of_int_eq_0_iff dest: zdvd_imp_le)
  have "ToPackedUint toUTC t = Inr ?w"
    using assms zero_fields(1) [OF assms(2)] pack_word [OF assms(2)] w0 by (auto simp: ToPackedUint_def Let_def)
  moreover have "fst (FromPackedUint checkTimestampType toLocal ?w t) = t"
    using assms w0 zero_fields(2) [OF assms(2)] packed_parts [OF assms(2)] FromDate_fields [of "tm_Time t"]
    by (simp add: FromPackedUint_def Let_def)
  ultimately show ?thesis by blast
qed

section \<open>Weeks of a year\<close>

text \<open>
  The first week of a year is the first one that begins in it (\<open>fw\<close>) or else the first one with at least four days of it. When the
  week of the first of January is not that week (\<open>late_week\<close>), the next one is; \<open>week1\<close> is the number of the day it begins on.
\<close>

definition late_week :: "bool \<Rightarrow> int \<Rightarrow> bool" where
  "late_week fw wd \<longleftrightarrow> fw \<and> wd \<noteq> 0 \<or> \<not> fw \<and> 4 \<le> wd"

definition first_weekday :: "bool \<Rightarrow> nat \<Rightarrow> int" where
  "first_weekday sunday y = (days_before y + 6 + (if sunday then 1 else 0)) mod 7"

definition week1 :: "bool \<Rightarrow> bool \<Rightarrow> nat \<Rightarrow> int" where
  "week1 sunday fw y = days_before y + 1 - first_weekday sunday y + (if late_week fw (first_weekday sunday y) then 7 else 0)"

lemma first_weekday_Suc: "first_weekday sunday (Suc y) = (first_weekday sunday y + calcDaysInYear (int y)) mod 7"
  by (simp add: first_weekday_def mod_simps add_ac)

definition week_start :: "bool \<Rightarrow> int \<Rightarrow> int \<Rightarrow> int" where
  "week_start fw b wd = b + 1 - wd + (if late_week fw wd then 7 else 0)"

lemma week1_start: "week1 sunday fw y = week_start fw (days_before y) (first_weekday sunday y)"
  by (simp add: week1_def week_start_def)

text \<open>The weekday moves on by one or two, modulo seven.\<close>

definition moves :: "int \<Rightarrow> int \<Rightarrow> int \<Rightarrow> bool" where
  "moves A L C \<longleftrightarrow> 0 \<le> A \<and> A \<le> 6 \<and> 0 \<le> C \<and> C \<le> 6 \<and> (L = 365 \<or> L = 366) \<and> (C = A + L - 364 \<or> C = A + L - 371)"

lemma moves_weekday: "moves (first_weekday sunday y) (calcDaysInYear (int y)) (first_weekday sunday (Suc y))"
proof -
  define x where "x = days_before y + 6 + (if sunday then 1 else 0)"
  have A: "first_weekday sunday y = x mod 7" and C: "first_weekday sunday (Suc y) = (x + calcDaysInYear (int y)) mod 7"
    by (simp_all add: first_weekday_def x_def add_ac)
  have "(x + 365) mod 7 = (x mod 7 + 1) mod 7" "(x + 366) mod 7 = (x mod 7 + 2) mod 7" using mod_add_eq [of x 7 365] mod_add_eq [of x 7 366] by simp_all
  moreover have "(r + d) mod 7 = (if r + d < 7 then r + d else r + d - 7)" if "0 \<le> r" "r < 7" "0 < d" "d < 7" for r d :: int
    using that mod_pos_pos_trivial [of "r + d" 7] mod_pos_pos_trivial [of "r + d - 7" 7] minus_mod_self2 [of "r + d" 7] by auto
  moreover have "0 \<le> x mod 7" "x mod 7 < 7" by simp_all
  ultimately show ?thesis unfolding A C moves_def calcDaysInYear_leap by (auto split: if_splits)
qed

lemma week_start_later:
  assumes "moves A L C" "b < N" "N \<le> b + L" "7 - A < N - b"
  shows "week_start fw b A \<le> N" "\<not> (364 \<le> N - week_start fw b A \<and> \<not> late_week fw C) \<Longrightarrow> N < week_start fw (b + L) C"
    "364 \<le> N - week_start fw b A \<Longrightarrow> \<not> late_week fw C \<Longrightarrow> week_start fw (b + L) C \<le> N \<and> N < week_start fw (b + L) C + 7"
  using assms by (cases fw; auto simp: week_start_def late_week_def moves_def split: if_splits)+

lemma week_start_first:
  assumes "moves A L C" "b + L < N" "N - (b + L) \<le> 7 - C"
  shows "week_start fw b A \<le> N" "\<not> (364 \<le> N - week_start fw b A \<and> \<not> late_week fw C) \<Longrightarrow> N < week_start fw (b + L) C"
    "364 \<le> N - week_start fw b A \<Longrightarrow> \<not> late_week fw C \<Longrightarrow> week_start fw (b + L) C \<le> N \<and> N < week_start fw (b + L) C + 7"
  using assms by (cases fw; auto simp: week_start_def late_week_def moves_def split: if_splits)+

lemma week_start_next: "moves A L C \<Longrightarrow> week_start fw b A + 364 \<le> week_start fw (b + L) C"
  by (cases fw; auto simp: week_start_def late_week_def moves_def split: if_splits)

definition in_week :: "bool \<Rightarrow> bool \<Rightarrow> nat \<Rightarrow> int \<Rightarrow> int \<Rightarrow> bool" where
  "in_week sunday fw y w N \<longleftrightarrow> 1 \<le> w \<and> week1 sunday fw y + 7 * (w - 1) \<le> N \<and> N < week1 sunday fw y + 7 * w \<and> N < week1 sunday fw (Suc y)"

lemma week_number:
  assumes "week1 sunday fw y \<le> N"
    and "\<not> (364 \<le> N - week1 sunday fw y \<and> \<not> late_week fw C) \<Longrightarrow> N < week1 sunday fw (Suc y)"
    and "364 \<le> N - week1 sunday fw y \<Longrightarrow> \<not> late_week fw C \<Longrightarrow> week1 sunday fw (Suc y) \<le> N \<and> N < week1 sunday fw (Suc y) + 7"
  shows "\<exists>Y w. (if 364 \<le> N - week1 sunday fw y \<and> \<not> late_week fw C then (int y + 1, 1) else (int y, tquot (N - week1 sunday fw y) 7 + 1)) = (int Y, w) \<and>
    in_week sunday fw Y w N"
proof (cases "364 \<le> N - week1 sunday fw y \<and> \<not> late_week fw C")
  case True
  have "week1 sunday fw (Suc y) + 364 \<le> week1 sunday fw (Suc (Suc y))"
    unfolding week1_start days_before.simps(2) [of "Suc y"] by (rule week_start_next [OF moves_weekday])
  then have "in_week sunday fw (Suc y) 1 N" using True assms(3) by (simp add: in_week_def)
  then show ?thesis using True by (intro exI [of _ "Suc y"] exI [of _ 1]) simp
next
  case False
  define D where "D = N - week1 sunday fw y"
  have D: "0 \<le> D" using assms(1) by (simp add: D_def)
  have "7 * (D div 7) \<le> D" "D < 7 * (D div 7) + 7" using mult_div_mod_eq [of 7 D] pos_mod_bound [of 7 D] pos_mod_sign [of 7 D] by linarith+
  then have "in_week sunday fw y (tquot D 7 + 1) N"
    using D assms(2) [OF False] by (simp add: in_week_def tquot_nonneg pos_imp_zdiv_nonneg_iff) (simp add: D_def)
  then show ?thesis using False unfolding D_def by (intro exI [of _ y] exI) simp
qed

lemma days_before_nonneg: "0 \<le> days_before y"
  using days_before_mono [of 0 y] by simp

lemma first_weekday_calc: "calcWeekday (calcDaynr (int y) 1 1) sunday = first_weekday sunday y"
  using calcDaynr_counts [of 1 y 1] days_before_nonneg [of y]
  by (simp add: calcWeekday_def first_weekday_def trem_nonneg days_before_month_table add_ac)

lemma moves_mod:
  assumes "moves A L C"
  shows "trem (A + L) 7 = C" "trem (C + 371 - L) 7 = A"
proof -
  have "A = 0 \<or> A = 1 \<or> A = 2 \<or> A = 3 \<or> A = 4 \<or> A = 5 \<or> A = 6" using assms unfolding moves_def by linarith
  then show "trem (A + L) 7 = C" "trem (C + 371 - L) 7 = A" using assms by (auto simp: moves_def trem_nonneg)
qed

lemma january:
  assumes "valid_date y m d"
  shows "days_before_month y m + int d \<le> 7 \<Longrightarrow> m = 1" "m = 1 \<Longrightarrow> days_before_month y m = 0"
proof -
  have m: "m \<in> {1, 2, 3, 4, 5, 6, 7, 8, 9, 10, 11, 12}" using assms month_cases by (simp add: valid_date_def)
  then show "days_before_month y m + int d \<le> 7 \<Longrightarrow> m = 1" by (elim insertE emptyE) (simp_all add: days_before_month_table split: if_splits)
  show "m = 1 \<Longrightarrow> days_before_month y m = 0" by (simp add: days_before_month_table)
qed

text \<open>The week counted from the first week of the year \<open>y\<close>, whose days follow the day \<open>b\<close>.\<close>

definition week_from :: "int \<Rightarrow> bool \<Rightarrow> int \<Rightarrow> int \<Rightarrow> int \<Rightarrow> int \<times> int" where
  "week_from N fw y b wd =
     (if 364 \<le> N - week_start fw b wd \<and> \<not> late_week fw (trem (wd + calcDaysInYear y) 7) then (y + 1, 1)
      else (y, tquot (N - week_start fw b wd) 7 + 1))"

lemma calcWeek_from:
  assumes "week_test wb weekBehaviourYear" "calcDaynr (Year t) (Month t) (Day t) = N" "calcDaynr (Year t) 1 1 = b + 1"
    and "calcWeekday (b + 1) (\<not> week_test wb weekBehaviourMondayFirst) = A" "week_test wb weekBehaviourFirstWeekday = fw"
  shows "calcWeek t wb =
    (if mt_month t = 1 \<and> Day t \<le> 7 - A
     then let L = calcDaysInYear (Year t - 1) in week_from N fw (Year t - 1) (b - L) (trem (A + 371 - L) 7)
     else week_from N fw (Year t) b A)"
proof -
  have days: "(if late_week fw x then N - (b + 1 + 7 - x) else N - (b + 1 - x)) = N - week_start fw b x"
    "(if late_week fw x then N - (b + 1 - L + 7 - x) else N - (b + 1 - L - x)) = N - week_start fw (b - L) x" for L x by (simp_all add: week_start_def)
  have late: "(fw \<and> x \<noteq> 0 \<or> \<not> fw \<and> 4 \<le> x) = late_week fw x" "(\<not> fw \<and> x < 4 \<or> fw \<and> x = 0) = (\<not> late_week fw x)" for x
    by (auto simp: late_week_def)
  have n: "53 * 7 = (371 :: int)" "52 * 7 = (364 :: int)" by simp_all
  show ?thesis unfolding calcWeek_def Let_def assms late week_from_def n
    by (cases "mt_month t = 1 \<and> Day t \<le> 7 - A") (simp_all only: if_True if_False prod.case simp_thms days assms(1))
qed

text \<open>Weeks by year: in January the first week may belong to the year before, at the end of December the last one to the next.\<close>

theorem calcWeek_correct:
  assumes valid: "valid_date y m d" and y: "1 \<le> y" and t: "Year t = int y" "Month t = int m" "Day t = int d"
    and wb: "week_test wb weekBehaviourYear"
  shows "\<exists>Y w. calcWeek t wb = (int Y, w) \<and>
    in_week (\<not> week_test wb weekBehaviourMondayFirst) (week_test wb weekBehaviourFirstWeekday) Y w (calcDaynr (int y) (int m) (int d))"
proof -
  define sunday fw where "sunday = (\<not> week_test wb weekBehaviourMondayFirst)" and "fw = week_test wb weekBehaviourFirstWeekday"
  define N where "N = calcDaynr (int y) (int m) (int d)"
  have N: "N = days_before y + (days_before_month y m + int d)" unfolding N_def using calcDaynr_counts [of m y "int d"] valid by (simp add: valid_date_def)
  have first: "calcDaynr (int y) 1 1 = days_before y + 1" using calcDaynr_counts [of 1 y 1] by (simp add: days_before_month_table)
  obtain p where p: "y = Suc p" using y by (cases y) auto
  let ?A = "first_weekday sunday y" and ?C = "first_weekday sunday (Suc y)" and ?B = "first_weekday sunday p"
  have month: "mt_month t = 1 \<longleftrightarrow> m = 1" using t(2) by (auto simp: Month_def word_uint_eq_iff)
  have doy: "1 \<le> N - days_before y" "N - days_before y \<le> calcDaysInYear (int y)" using day_of_year [OF valid] by (simp_all add: N)
  have A: "0 \<le> ?A" using moves_weekday [of sunday y] by (simp add: moves_def)
  have inFirst: "m = 1 \<and> int d \<le> 7 - ?A \<longleftrightarrow> N - days_before y \<le> 7 - ?A" using january [OF valid] A by (auto simp: N)
  have week: "calcWeek t wb = (if N - days_before y \<le> 7 - ?A
      then let L = calcDaysInYear (int y - 1) in week_from N fw (int y - 1) (days_before y - L) (trem (?A + 371 - L) 7)
      else week_from N fw (int y) (days_before y) ?A)"
    using calcWeek_from [OF wb, of t N "days_before y" ?A fw] first first_weekday_calc [of y sunday] inFirst month
    by (simp add: t N_def [symmetric] sunday_def [symmetric] fw_def [symmetric])
  show ?thesis
  proof (cases "N - days_before y \<le> 7 - ?A")
    case True
    note m = moves_weekday [of sunday p, folded p]
    have b: "days_before y = days_before p + calcDaysInYear (int p)" by (simp add: p)
    have "calcWeek t wb = week_from N fw (int p) (days_before p) ?B"
      unfolding week using True moves_mod(2) [OF m] by (simp add: Let_def p)
    moreover have "\<exists>Y w. week_from N fw (int p) (days_before p) ?B = (int Y, w) \<and> in_week sunday fw Y w N"
      unfolding week_from_def moves_mod(1) [OF m] week1_start [symmetric]
      by (rule week_number; unfold week1_start p [symmetric] b; rule week_start_first [OF m]) (use True doy in \<open>simp_all add: b\<close>)
    ultimately show ?thesis unfolding sunday_def fw_def N_def by simp
  next
    case False
    note m = moves_weekday [of sunday y]
    have "calcWeek t wb = week_from N fw (int y) (days_before y) ?A" using False by (simp add: week)
    moreover have "\<exists>Y w. week_from N fw (int y) (days_before y) ?A = (int Y, w) \<and> in_week sunday fw Y w N"
      unfolding week_from_def moves_mod(1) [OF m] week1_start [symmetric]
      by (rule week_number; unfold week1_start days_before.simps; rule week_start_later [OF m]) (use False doy in simp_all)
    ultimately show ?thesis unfolding sunday_def fw_def N_def by simp
  qed
qed

text \<open>The year and week of a date: the week \<open>w\<close> of the year \<open>Y\<close> holds the date, and the first week of the next year begins later.\<close>

theorem YearWeek_correct:
  assumes "valid_date y m d" "1 \<le> y" "Year t = int y" "Month t = int m" "Day t = int d"
  shows "\<exists>Y w. YearWeek t mode = (int Y, w) \<and>
    in_week (\<not> week_test (weekMode mode OR weekBehaviourYear) weekBehaviourMondayFirst)
      (week_test (weekMode mode OR weekBehaviourYear) weekBehaviourFirstWeekday) Y w (calcDaynr (int y) (int m) (int d))"
proof -
  have "week_test (weekMode mode OR weekBehaviourYear) weekBehaviourYear"
    by (simp add: week_test_def weekBehaviourYear_def bit.conj_disj_distrib2 or_eq_0_iff)
  from calcWeek_correct [OF assms this] show ?thesis unfolding YearWeek_def .
qed

section \<open>Properties\<close>

text \<open>
  C19: Converting a date of the years 1 to 9999 to the number of its day and back gives the date again, leap days included: the
  number of a day counts the days of all the years and months before it, and the loop that estimates the year finds it.
\<close>

theorem getDateFromDaynr_calcDaynr:
  assumes "valid_date y m d" "1 \<le> y" "y \<le> 9999"
  shows "calcDaynr (int y) (int m) (int d) = days_before y + days_before_month y m + int d \<and>
    getDateFromDaynr (calcDaynr (int y) (int m) (int d)) = (int y, int m, int d)"
  using getDateFromDaynr_count [OF assms] calcDaynr_counts [of m y "int d"] assms(1) by (simp add: valid_date_def)

theorem getDateFromDaynr_calcDaynr_witness: "getDateFromDaynr (calcDaynr 2000 2 29) = (2000, 2, 29)"
proof -
  have "valid_date 2000 2 29" by (simp add: valid_date_def month_length_def daysInMonth_def leap_def)
  from getDateFromDaynr_calcDaynr [OF this] show ?thesis by auto
qed

text \<open>The check of dates accepts the 29th of February of 1900, which has the number of the 1st of March.\<close>

theorem checkMonthDay_accepts_missing_day:
  "checkMonthDay 1900 2 29 = None \<and> \<not> valid_date 1900 2 29 \<and> calcDaynr 1900 2 29 = calcDaynr 1900 3 1"
  by (simp add: checkMonthDay_def maxDaysInMonth_def trem_def tquot_def valid_date_def month_length_def daysInMonth_def leap_def calcDaynr_def)

end
