(* ===== verification/Spec2Isabelle.thy ===== *)
theory Spec2Isabelle
  imports Scheduler SqlBytes SqlOverflow SqlCalendar
begin

text \<open>
  \<^bold>\<open>A verification library for gleam\<close>, a distributed map-reduce engine written in Go (file names are relative to
  \<^verbatim>\<open>src/\<close>).

  \<^bold>\<open>The program.\<close> A user builds a \<^emph>\<open>flow\<close>, a graph of datasets and steps (\<^verbatim>\<open>flow/\<close>). The driver groups its steps and
  tasks into an execution plan (\<^verbatim>\<open>distributed/plan/\<close>), asks the master for allocations on agents (\<^verbatim>\<open>distributed/master/\<close>),
  matches them with the task groups in a market and sends every task group to an agent as a set of serialized instructions
  (\<^verbatim>\<open>distributed/driver/scheduler/\<close>). There the instructions (\<^verbatim>\<open>instruction/\<close>) transform streams of rows that travel as
  framed MessagePack messages (\<^verbatim>\<open>util/\<close>). A SQL layer (\<^verbatim>\<open>sql/\<close>) brings its own encodings of keys and its checked arithmetic.

  \<^bold>\<open>Conventions.\<close> A computation that can panic has the type \<open>'a go\<close>, whose left values are the panics; an error value of
  Go is an \<open>gerror option\<close>, or the left side of a sum. Machine integers are words of their width, bytes are 8 bit words, values of
  type \<^verbatim>\<open>interface{}\<close> the datatype \<open>gval\<close>, floating point numbers not-a-number, the infinities or a rational. Go maps are
  functions, or association lists where their order of iteration matters. A pointer to a dataset, step, shard or task is its position in
  the flow. Goroutines that interact are actors whose atomic steps interleave in any order; locks that only make an
  operation atomic have no counterpart.

  \<^bold>\<open>Theories, from the bottom up.\<close>

  \<^item> \<^verbatim>\<open>Prelude\<close>: panics, sequencing, slices, integers, and the facts on lists and orders that the components share.

  \<^item> \<^verbatim>\<open>Values\<close> (\<^verbatim>\<open>util/type_convertion.go\<close>, \<^verbatim>\<open>util/key.go\<close>): conversions, comparison and hashing of dynamic values; comparison is
  shown to be a strict weak order on values of one type.

  \<^item> \<^verbatim>\<open>Rows\<close> (\<^verbatim>\<open>util/row.go\<close>): rows of keys and values and the change of their keys.

  \<^item> \<^verbatim>\<open>Wire\<close> (\<^verbatim>\<open>util/message_read.go\<close>, \<^verbatim>\<open>util/message_write.go\<close>): the framing of messages on byte streams; what is written is read back,
  truncated streams give the error, and the buffered writer refines the plain one (locale \<open>message_sink\<close>).

  \<^item> \<^verbatim>\<open>RowCodec\<close>, \<^verbatim>\<open>MessagePack\<close> (\<^verbatim>\<open>util/row_codec.go\<close>, \<^verbatim>\<open>util/row_read_write.go\<close>): rows as MessagePack. The third-party codec is
  the record \<open>msgp_ops\<close> with the laws of the locale \<open>msgp_codec\<close>, which a codec after the MessagePack specification satisfies.

  \<^item> \<^verbatim>\<open>PrioQueue\<close> (\<^verbatim>\<open>util/priority_queue.go\<close>, with \<^verbatim>\<open>container/heap\<close>): the heap order is kept, the queue delivers in order
  (locales \<open>heap_order\<close>, \<open>total_less\<close>, \<open>min_queue\<close>).

  \<^item> \<^verbatim>\<open>Ordering\<close>, \<^verbatim>\<open>LocalInstructions\<close>, \<^verbatim>\<open>MergeInstructions\<close>, \<^verbatim>\<open>JoinInstructions\<close>, \<^verbatim>\<open>ShuffleInstructions\<close> (\<^verbatim>\<open>instruction/*.go\<close>): the
  \<^verbatim>\<open>Do\<close> function of each instruction, on every branch. The theorems give the rows it writes in terms of the rows it reads: sorting,
  top, grouping, distinct, merging of sorted streams, joins against a relational reference, scattering by hash, broadcasting,
  collecting, round robin, and the copying of several readers by concurrent goroutines, which neither loses nor duplicates
  messages and always returns.

  \<^item> \<^verbatim>\<open>Instructions\<close> (\<^verbatim>\<open>instruction/instruction.go\<close> and the constructors, serialized forms and registrations of the 17
  instructions): a serialized instruction is recognized as the one it came from.

  \<^item> \<^verbatim>\<open>Topology\<close> (\<^verbatim>\<open>pb/resource_proto_helper.go\<close>, \<^verbatim>\<open>distributed/master/structure.go\<close>, \<^verbatim>\<open>resource_collect.go\<close>,
  \<^verbatim>\<open>resource_assign.go\<close>): the resources of agents, racks and data centers; the books balance after every heartbeat and
  assignment, and no agent is over-allocated (locale \<open>resource_amount\<close>).

  \<^item> \<^verbatim>\<open>FlowGraph\<close>, \<^verbatim>\<open>FlowDatasets\<close> (\<^verbatim>\<open>flow/structure.go\<close>, \<^verbatim>\<open>context.go\<close>, \<^verbatim>\<open>step.go\<close>, \<^verbatim>\<open>dataset_*.go\<close>): the building of a flow, as a
  state monad with panics. \<^verbatim>\<open>FlowTyping\<close> defines well-formed flows and rules in the style of a type system for the
  operations. \<^verbatim>\<open>FlowOnDisk\<close> (\<^verbatim>\<open>flow/dataset_hint.go\<close>) is the loop that marks the datasets between two datasets as persisted; it is shown
  to return and to mark exactly these. \<^verbatim>\<open>FlowBuild\<close> defines the flows that any sequence of operations can build: all are well-formed.

  \<^item> \<^verbatim>\<open>Plan\<close> (\<^verbatim>\<open>distributed/plan/\<close>): step groups and task groups. Planning a flow that a user can build returns, and
  partitions its steps into pipelines and its tasks into task groups.

  \<^item> \<^verbatim>\<open>Market\<close> (\<^verbatim>\<open>scheduler/market/cda_market.go\<close>), \<^verbatim>\<open>Float64\<close> (IEEE 754 arithmetic of Go), \<^verbatim>\<open>Scheduler\<close> (the other files of
  \<^verbatim>\<open>distributed/driver/scheduler/\<close>): the matching of demands with supplies, the score of an allocation, the request for an agent, and
  the goroutines of all task groups as the step relation \<open>sched_step\<close>. No allocation is lost or given away twice, the memory of an
  allocation covers the tasks it runs, and a request is complete, in every interleaving.

  \<^item> \<^verbatim>\<open>SqlNumbers\<close>, \<^verbatim>\<open>SqlBytes\<close> (\<^verbatim>\<open>sql/util/codec/\<close>): encodings of numbers and byte strings that sort like what they encode
  (locale \<open>memcomparable\<close>, interpreted for each encoding). \<^verbatim>\<open>SqlOverflow\<close> (\<^verbatim>\<open>sql/util/types/overflow.go\<close>): arithmetic with
  overflow checks against exact arithmetic. \<^verbatim>\<open>SqlCalendar\<close> (\<^verbatim>\<open>sql/util/types/mytime.go\<close>, parts of \<^verbatim>\<open>time.go\<close>): dates and times; dates
  and the numbers of their days determine each other, the packed form of a time unpacks to it, and the week of a date contains it.

  \<^bold>\<open>Parameters.\<close> The MessagePack library (\<open>msgp_ops\<close>, laws in \<open>msgp_codec\<close>), the hash function xxhash, the sort of the Go library
  (locale \<open>sorter\<close>: a sorted permutation), the bytes that an unflushed buffer has passed on (\<open>reached\<close>), the commands that a
  shell runs, the local time zone, and the order in which goroutines run are arguments of the definitions.

  \<^bold>\<open>Bounds and fuel.\<close> \<open>total_size\<close> recurses over the inputs of a dataset with one more unit of fuel than there are datasets; in a
  well-formed flow inputs come earlier, so it suffices, and running out is the stack overflow of a cycle. The tree merge
  recurses with fuel that is shown to suffice when the factor is at least two; with less the code does not return. The
  decoder of \<^verbatim>\<open>MessagePack\<close> has the length of its input as fuel, since every level of nesting takes a byte. The search for the first
  step of a group and the loop of \<^verbatim>\<open>OnDisk\<close> are partial functions whose value \<open>None\<close> means that they do not return; for flows that a
  user can build they return. The score is shown to be positive for at most 900 input shards, so that no sum of distances can overflow.

  \<^bold>\<open>Not modelled.\<close>

  \<^item> Processes, sockets, gRPC and files: \<^verbatim>\<open>distributed/agent/\<close>, \<^verbatim>\<open>executor/\<close>, \<^verbatim>\<open>netchan/\<close>, \<^verbatim>\<open>driver/driver.go\<close>, the calls to
  agents and to the master, the upload of files and the deletion of output after a cancellation. What the master grants is the
  environment of \<open>sched_run\<close>.

  \<^item> Running the tasks of a flow on one machine (\<^verbatim>\<open>flow/runner.go\<close>) and user functions (\<^verbatim>\<open>gio/\<close>): goroutines around arbitrary
  user code. The functions that feed a source or drain an output on the driver belong to them.

  \<^item> Text, printing and status pages (\<^verbatim>\<open>util/printf.go\<close>, \<^verbatim>\<open>distributed/master/ui/\<close>), which rest on \<^verbatim>\<open>fmt\<close>, reflection and templates.

  \<^item> Third-party clients (\<^verbatim>\<open>filesystem/\<close>, \<^verbatim>\<open>plugins/\<close>), code generated by \<^verbatim>\<open>protoc\<close>, and the rest of \<^verbatim>\<open>sql/\<close>, which is a parser
  generated from a grammar, with the planner and executor over its syntax trees, decimals and the parsing and
  formatting of values.
\<close>

end
